(* ===== verification/Go_Prelude.thy ===== *)
theory Go_Prelude
  imports Main "HOL-Library.Monad_Syntax"
begin

text \<open>
  Shared vocabulary of the development: how Go slices, maps and run-time panics are
  represented, and the generic facts about them that the component theories use.

  A Go expression that may panic (an index or slice bound out of range) has type
  \<open>'a option\<close>; \<open>None\<close> is the run-time panic, which terminates the process.
  Go's \<open>int\<close> is modelled by \<open>int\<close>: the counters concerned (terms, log indices,
  sequence numbers) start at 0 and are incremented by one, so a 64-bit overflow is out of reach.
  Words are used where the code works on bits.
\<close>

named_theorems go_simps \<open>evaluation rules for Go slices and maps\<close>

section \<open>Slices\<close>

text \<open>\<open>xs[i]\<close>: panics outside \<open>0 .. len(xs)-1\<close>.\<close>

definition idx :: "'a list \<Rightarrow> int \<Rightarrow> 'a option" where
  "idx xs i = (if 0 \<le> i \<and> i < int (length xs) then Some (xs ! nat i) else None)"

text \<open>\<open>xs[i:]\<close>: panics unless \<open>0 \<le> i \<le> len(xs)\<close>.\<close>

definition sliceFrom :: "'a list \<Rightarrow> int \<Rightarrow> 'a list option" where
  "sliceFrom xs i = (if 0 \<le> i \<and> i \<le> int (length xs) then Some (drop (nat i) xs) else None)"

text \<open>\<open>xs[:i]\<close> for a bound within the length of the slice.\<close>

definition sliceTo :: "'a list \<Rightarrow> int \<Rightarrow> 'a list option" where
  "sliceTo xs i = (if 0 \<le> i \<and> i \<le> int (length xs) then Some (take (nat i) xs) else None)"

text \<open>\<open>xs[i] = v\<close>.\<close>

definition setIdx :: "'a list \<Rightarrow> int \<Rightarrow> 'a \<Rightarrow> 'a list option" where
  "setIdx xs i v = (if 0 \<le> i \<and> i < int (length xs) then Some (xs[nat i := v]) else None)"

lemma idx_Some_iff: "idx xs i = Some x \<longleftrightarrow> 0 \<le> i \<and> i < int (length xs) \<and> xs ! nat i = x"
  by (auto simp: idx_def)

lemma idx_None_iff: "idx xs i = None \<longleftrightarrow> i < 0 \<or> int (length xs) \<le> i"
  by (auto simp: idx_def)

lemma idx_in_range [go_simps]:
  "0 \<le> i \<Longrightarrow> i < int (length xs) \<Longrightarrow> idx xs i = Some (xs ! nat i)"
  by (simp add: idx_def)

lemma sliceFrom_Some_iff:
  "sliceFrom xs i = Some ys \<longleftrightarrow> 0 \<le> i \<and> i \<le> int (length xs) \<and> ys = drop (nat i) xs"
  by (auto simp: sliceFrom_def)

lemma sliceFrom_in_range [go_simps]:
  "0 \<le> i \<Longrightarrow> i \<le> int (length xs) \<Longrightarrow> sliceFrom xs i = Some (drop (nat i) xs)"
  by (simp add: sliceFrom_def)

lemma sliceTo_Some_iff:
  "sliceTo xs i = Some ys \<longleftrightarrow> 0 \<le> i \<and> i \<le> int (length xs) \<and> ys = take (nat i) xs"
  by (auto simp: sliceTo_def)

lemma sliceTo_in_range [go_simps]:
  "0 \<le> i \<Longrightarrow> i \<le> int (length xs) \<Longrightarrow> sliceTo xs i = Some (take (nat i) xs)"
  by (simp add: sliceTo_def)

lemma setIdx_Some_iff:
  "setIdx xs i v = Some ys \<longleftrightarrow> 0 \<le> i \<and> i < int (length xs) \<and> ys = xs[nat i := v]"
  by (auto simp: setIdx_def)

lemma setIdx_in_range [go_simps]:
  "0 \<le> i \<Longrightarrow> i < int (length xs) \<Longrightarrow> setIdx xs i v = Some (xs[nat i := v])"
  by (simp add: setIdx_def)

lemma setIdx_length: "setIdx xs i v = Some ys \<Longrightarrow> length ys = length xs"
  by (auto simp: setIdx_Some_iff)

lemma bind_Some_iff: "Option.bind m f = Some y \<longleftrightarrow> (\<exists>x. m = Some x \<and> f x = Some y)"
  by (cases m) auto

section \<open>Majorities\<close>

text \<open>
  \<open>x > len(peers)/2\<close> is the quorum test of the Raft code. Two sets of servers that both pass
  it share a server; the locale states the interface the election argument relies on.
\<close>

locale quorum_system =
  fixes servers :: "nat set"
    and quorum :: "nat set \<Rightarrow> bool"
  assumes quorum_servers: "quorum Q \<Longrightarrow> Q \<subseteq> servers"
    and quorum_meet: "quorum Q \<Longrightarrow> quorum R \<Longrightarrow> Q \<inter> R \<noteq> {}"
begin

lemma common_server:
  assumes "quorum Q" and "quorum R"
  obtains v where "v \<in> Q" and "v \<in> R" and "v \<in> servers"
  using quorum_meet [OF assms] quorum_servers [OF assms(1)] by blast

text \<open>If each member of a quorum is committed to one choice, only one choice can have a quorum.\<close>

lemma unique_choice:
  assumes "quorum Q" and "quorum R"
    and "\<And>v. v \<in> Q \<Longrightarrow> chose v a" and "\<And>v. v \<in> R \<Longrightarrow> chose v b"
    and "\<And>v x y. v \<in> servers \<Longrightarrow> chose v x \<Longrightarrow> chose v y \<Longrightarrow> x = y"
  shows "a = b"
  using assms(1,2) by (rule common_server) (meson assms(3-5))

end

definition majority :: "nat \<Rightarrow> nat set \<Rightarrow> bool" where
  "majority n Q \<longleftrightarrow> Q \<subseteq> {..<n} \<and> n div 2 < card Q"

lemma majorities_meet:
  assumes "majority n Q" and "majority n R"
  shows "Q \<inter> R \<noteq> {}"
proof
  assume disj: "Q \<inter> R = {}"
  have fin: "finite Q" "finite R"
    using assms by (auto simp: majority_def intro: finite_subset)
  have "card (Q \<union> R) = card Q + card R"
    using fin disj by (rule card_Un_disjoint)
  moreover have "card (Q \<union> R) \<le> n"
    using card_mono [of "{..<n}" "Q \<union> R"] assms by (auto simp: majority_def)
  ultimately show False
    using assms by (auto simp: majority_def)
qed

interpretation maj: quorum_system "{..<n}" "majority n" for n
  using majorities_meet by unfold_locales (auto simp: majority_def)

end
