(* ===== verification/Persister.thy ===== *)
theory Persister
  imports Go_Prelude
begin

text \<open>
  Stable storage: \<open>src/raft/persister.go\<close>, and the way \<open>raft.go\<close> and
  \<open>kvraft/server.go\<close> use \<open>labgob\<close> (encoding/gob) to fill it.

  A byte slice written by a gob encoder is represented by the sequence of values encoded into
  it: \<open>Encode\<close> appends one value, \<open>Decode\<close> takes the next value off the front and fails
  at the end of the data or when the value has another type. The length in bytes of an encoded
  sequence, which only \<open>RaftStateSize\<close> and \<open>SnapshotSize\<close> read, is given by a function
  argument \<open>sz\<close>.
\<close>

section \<open>Log entries and encoded data\<close>

text \<open>\<open>LogEntry\<close> of \<open>raft.go\<close>; the command of the placeholder entry is \<open>nil\<close>.\<close>

record 'c LogEntry =
  eTerm :: int
  eCommand :: "'c option"

datatype ('c, 'v) gobval =
    GInt int
  | GLogs "'c LogEntry list"
  | GVal 'v

type_synonym ('c, 'v) bytes = "('c, 'v) gobval list"

fun decodeInt :: "('c, 'v) bytes \<Rightarrow> (int \<times> ('c, 'v) bytes) option" where
  "decodeInt (GInt i # r) = Some (i, r)"
| "decodeInt _ = None"

fun decodeLogs :: "('c, 'v) bytes \<Rightarrow> ('c LogEntry list \<times> ('c, 'v) bytes) option" where
  "decodeLogs (GLogs es # r) = Some (es, r)"
| "decodeLogs _ = None"

fun decodeVal :: "('c, 'v) bytes \<Rightarrow> ('v \<times> ('c, 'v) bytes) option" where
  "decodeVal (GVal v # r) = Some (v, r)"
| "decodeVal _ = None"

section \<open>The persister\<close>

record ('c, 'v) Persister =
  raftstate :: "('c, 'v) bytes"
  snapshot :: "('c, 'v) bytes"

definition MakePersister :: "('c, 'v) Persister" where
  "MakePersister = \<lparr>raftstate = [], snapshot = []\<rparr>"

text \<open>\<open>clone\<close> allocates a slice of the same length and copies the elements into it.\<close>

definition clone :: "'a list \<Rightarrow> 'a list" where
  "clone orig = map (\<lambda>i. orig ! i) [0..<length orig]"

definition Copy :: "('c, 'v) Persister \<Rightarrow> ('c, 'v) Persister" where
  "Copy ps = MakePersister\<lparr>raftstate := raftstate ps, snapshot := snapshot ps\<rparr>"

definition SaveRaftState :: "('c, 'v) bytes \<Rightarrow> ('c, 'v) Persister \<Rightarrow> ('c, 'v) Persister" where
  "SaveRaftState st ps = ps\<lparr>raftstate := clone st\<rparr>"

definition ReadRaftState :: "('c, 'v) Persister \<Rightarrow> ('c, 'v) bytes" where
  "ReadRaftState ps = clone (raftstate ps)"

definition RaftStateSize :: "(('c, 'v) bytes \<Rightarrow> int) \<Rightarrow> ('c, 'v) Persister \<Rightarrow> int" where
  "RaftStateSize sz ps = sz (raftstate ps)"

definition SaveStateAndSnapshot ::
  "('c, 'v) bytes \<Rightarrow> ('c, 'v) bytes \<Rightarrow> ('c, 'v) Persister \<Rightarrow> ('c, 'v) Persister" where
  "SaveStateAndSnapshot st snap ps = ps\<lparr>raftstate := clone st, snapshot := clone snap\<rparr>"

definition ReadSnapshot :: "('c, 'v) Persister \<Rightarrow> ('c, 'v) bytes" where
  "ReadSnapshot ps = clone (snapshot ps)"

definition SnapshotSize :: "(('c, 'v) bytes \<Rightarrow> int) \<Rightarrow> ('c, 'v) Persister \<Rightarrow> int" where
  "SnapshotSize sz ps = sz (snapshot ps)"

lemma clone_id [simp]: "clone xs = xs"
  by (simp add: clone_def map_nth)

lemmas persister_defs = MakePersister_def Copy_def SaveRaftState_def ReadRaftState_def
  SaveStateAndSnapshot_def ReadSnapshot_def RaftStateSize_def SnapshotSize_def

section \<open>The contract of stable storage\<close>

text \<open>
  What the Raft peer and the key/value server rely on: what is read back is what was saved last,
  saving the Raft state alone leaves the snapshot in place, saving both is one action, and a copy
  made for a restarted server reads the same.
\<close>

locale stable_storage =
  fixes save :: "'b \<Rightarrow> 'p \<Rightarrow> 'p"
    and saveBoth :: "'b \<Rightarrow> 'b \<Rightarrow> 'p \<Rightarrow> 'p"
    and readState :: "'p \<Rightarrow> 'b"
    and readSnap :: "'p \<Rightarrow> 'b"
    and copy :: "'p \<Rightarrow> 'p"
  assumes read_save [simp]: "readState (save st ps) = st"
    and snap_save [simp]: "readSnap (save st ps) = readSnap ps"
    and read_saveBoth [simp]: "readState (saveBoth st sn ps) = st"
    and snap_saveBoth [simp]: "readSnap (saveBoth st sn ps) = sn"
    and read_copy [simp]: "readState (copy ps) = readState ps"
    and snap_copy [simp]: "readSnap (copy ps) = readSnap ps"
begin

text \<open>A crash between two saves leaves a copy that reads as the last completed save.\<close>

fun replay :: "('b \<times> 'b option) list \<Rightarrow> 'p \<Rightarrow> 'p" where
  "replay [] ps = ps"
| "replay ((st, None) # ws) ps = replay ws (save st ps)"
| "replay ((st, Some sn) # ws) ps = replay ws (saveBoth st sn ps)"

lemma replay_append: "replay (ws @ vs) ps = replay vs (replay ws ps)"
  by (induction ws ps rule: replay.induct) simp_all

lemma read_after_crash:
  "readState (copy (replay (ws @ [w]) ps)) = fst w"
  by (cases w; cases "snd w") (auto simp: replay_append)

lemma snap_after_state_saves:
  "\<forall>w \<in> set ws. snd w = None \<Longrightarrow> readSnap (copy (replay ws ps)) = readSnap ps"
  by (induction ws ps rule: replay.induct) auto

end

interpretation pst: stable_storage SaveRaftState SaveStateAndSnapshot ReadRaftState ReadSnapshot Copy
  by unfold_locales (simp_all add: persister_defs)

end
