(* ===== verification/Raft_Node.thy ===== *)
theory Raft_Node
  imports Persister
begin

text \<open>
  One Raft peer: \<open>src/raft/raft.go\<close>. Each definition is one critical section of the code
  (what runs between \<open>rf.mu.Lock()\<close> and \<open>rf.mu.Unlock()\<close>), as a function from the
  peer's state to its new state and the values it returns; \<open>None\<close> is a run-time panic.
  \<open>time.Now()\<close> is the argument \<open>now\<close>. Goroutines that are started, RPCs that are sent and
  messages put on \<open>applyCh\<close> are returned as values; \<open>Raft_Cluster\<close> schedules them.
\<close>

section \<open>State and messages\<close>

record ('c, 'v) Raft =
  npeers :: nat \<comment> \<open>\<open>len(rf.peers)\<close>\<close>
  persister :: "('c, 'v) Persister"
  me :: int
  dead :: bool
  currLeader :: int
  currTerm :: int
  votedFor :: int
  rstate :: int \<comment> \<open>field \<open>state\<close>: 0 leader, 1 candidate, 2 follower\<close>
  logs :: "'c LogEntry list"
  timer :: int
  lastIncludedIndex :: int
  lastIncludedTerm :: int
  commitIndex :: int
  lastApplied :: int
  nextIndex :: "int list"
  matchIndex :: "int list"

record ('c, 'v) ApplyMsg =
  CommandValid :: bool
  Command :: "'c option"
  CommandIndex :: int
  SnapshotValid :: bool
  SnapshotData :: "('c, 'v) bytes"
  SnapshotTerm :: int
  SnapshotIndex :: int

record RequestVoteArgs =
  rvTerm :: int
  rvCandidateId :: int
  rvLastLogIndex :: int
  rvLastLogTerm :: int

record RequestVoteReply =
  rvrTerm :: int
  rvrVoteGranted :: bool

record 'c AppendEntriesArgs =
  aeTerm :: int
  aeLeaderId :: int
  aePrevLogIndex :: int
  aePrevLogTerm :: int
  aeEntries :: "'c LogEntry list"
  aeLeaderCommit :: int

record AppendEntriesReply =
  aerSuccess :: bool
  aerTerm :: int
  aerConflictIndex :: int
  aerConflictTerm :: int

record ('c, 'v) InstallSnapshotArgs =
  isTerm :: int
  isLeaderId :: int
  isLastIncludedIndex :: int
  isLastIncludedTerm :: int
  isOffset :: int
  isData :: "('c, 'v) bytes"
  isDone :: bool

record InstallSnapshotReply =
  isrTerm :: int

text \<open>The zero values that callers allocate before an RPC.\<close>

definition zeroVoteReply :: RequestVoteReply where
  "zeroVoteReply = \<lparr>rvrTerm = 0, rvrVoteGranted = False\<rparr>"

definition zeroAppendReply :: AppendEntriesReply where
  "zeroAppendReply = \<lparr>aerSuccess = False, aerTerm = 0, aerConflictIndex = 0, aerConflictTerm = 0\<rparr>"

definition zeroApplyMsg :: "('c, 'v) ApplyMsg" where
  "zeroApplyMsg = \<lparr>CommandValid = False, Command = None, CommandIndex = 0,
     SnapshotValid = False, SnapshotData = [], SnapshotTerm = 0, SnapshotIndex = 0\<rparr>"

section \<open>Index arithmetic\<close>

definition getPhysicalIndex :: "('c, 'v) Raft \<Rightarrow> int \<Rightarrow> int" where
  "getPhysicalIndex rf logicalIndex = logicalIndex - lastIncludedIndex rf"

definition getLogicalIndex :: "('c, 'v) Raft \<Rightarrow> int \<Rightarrow> int" where
  "getLogicalIndex rf physicalIndex = physicalIndex + lastIncludedIndex rf"

definition lastLogicalIndex :: "('c, 'v) Raft \<Rightarrow> int" where
  "lastLogicalIndex rf = lastIncludedIndex rf + int (length (logs rf)) - 1"

definition goMin :: "int \<Rightarrow> int \<Rightarrow> int" where
  "goMin a b = (if a < b then a else b)"

definition goMax :: "int \<Rightarrow> int \<Rightarrow> int" where
  "goMax a b = (if a > b then a else b)"

lemma goMin_min [simp]: "goMin a b = min a b"
  by (simp add: goMin_def min_def)

lemma goMax_max [simp]: "goMax a b = max a b"
  by (simp add: goMax_def max_def)

lemmas index_defs = getPhysicalIndex_def getLogicalIndex_def lastLogicalIndex_def

section \<open>Persistence\<close>

definition GetState :: "('c, 'v) Raft \<Rightarrow> int \<times> bool" where
  "GetState rf = (currTerm rf, rstate rf = 0)"

text \<open>The data \<open>persist\<close>, \<open>Snapshot\<close> and \<open>InstallSnapshot\<close> write.\<close>

definition encodeState :: "('c, 'v) Raft \<Rightarrow> ('c, 'v) bytes" where
  "encodeState rf = [GInt (currTerm rf), GInt (votedFor rf), GLogs (logs rf),
     GInt (lastIncludedIndex rf), GInt (lastIncludedTerm rf)]"

definition persist :: "('c, 'v) Raft \<Rightarrow> ('c, 'v) Raft" where
  "persist rf = rf\<lparr>persister := SaveRaftState (encodeState rf) (persister rf)\<rparr>"

definition decodeState ::
  "('c, 'v) bytes \<Rightarrow> (int \<times> int \<times> 'c LogEntry list \<times> int \<times> int) option" where
  "decodeState d = do {
     (term, d) \<leftarrow> decodeInt d;
     (vf, d) \<leftarrow> decodeInt d;
     (ls, d) \<leftarrow> decodeLogs d;
     (lii, d) \<leftarrow> decodeInt d;
     (lit, d) \<leftarrow> decodeInt d;
     Some (term, vf, ls, lii, lit) }"

definition readPersist :: "('c, 'v) bytes \<Rightarrow> ('c, 'v) Raft \<Rightarrow> ('c, 'v) Raft" where
  "readPersist d rf =
    (if d = [] then rf
     else
       let rf1 = (case decodeState d of
           None \<Rightarrow> rf
         | Some (term, vf, ls, lii, lit) \<Rightarrow>
             rf\<lparr>currTerm := term, votedFor := vf, logs := ls,
                lastIncludedIndex := lii, lastIncludedTerm := lit\<rparr>)
       in if lastIncludedIndex rf1 > 0
          then rf1\<lparr>commitIndex := lastIncludedIndex rf1, lastApplied := lastIncludedIndex rf1\<rparr>
          else rf1)"

definition PersistCall :: "('c, 'v) Raft \<Rightarrow> ('c, 'v) Raft" where
  "PersistCall rf = persist rf"

definition CondInstallSnapshot :: "int \<Rightarrow> int \<Rightarrow> ('c, 'v) bytes \<Rightarrow> ('c, 'v) Raft \<Rightarrow> bool" where
  "CondInstallSnapshot lit lii snap rf = True"

text \<open>\<open>Snapshot\<close>: the service has a snapshot through \<open>index\<close>; the log before it is dropped.\<close>

definition Snapshot :: "int \<Rightarrow> ('c, 'v) bytes \<Rightarrow> ('c, 'v) Raft \<Rightarrow> ('c, 'v) Raft option" where
  "Snapshot index snap rf =
    (if index \<le> lastIncludedIndex rf then Some rf
     else do {
       e \<leftarrow> idx (logs rf) (getPhysicalIndex rf index);
       rest \<leftarrow> (if getPhysicalIndex rf index + 1 < int (length (logs rf))
                then sliceFrom (logs rf) (getPhysicalIndex rf (index + 1)) else Some []);
       let rf1 = rf\<lparr>lastIncludedTerm := eTerm e,
                    logs := \<lparr>eTerm = eTerm e, eCommand = None\<rparr> # rest,
                    lastIncludedIndex := index,
                    lastApplied := goMax index (lastApplied rf)\<rparr>;
       Some (rf1\<lparr>persister := SaveStateAndSnapshot (encodeState rf1) snap (persister rf1)\<rparr>) })"

section \<open>RPC handlers\<close>

definition RequestVote ::
  "int \<Rightarrow> RequestVoteArgs \<Rightarrow> ('c, 'v) Raft \<Rightarrow> (('c, 'v) Raft \<times> RequestVoteReply) option" where
  "RequestVote now args rf =
    (let rf1 = (if rvTerm args > currTerm rf
                then persist (rf\<lparr>rstate := 2, votedFor := -1, currTerm := rvTerm args\<rparr>)
                else rf)
     in if rvTerm args < currTerm rf1
        then Some (rf1, \<lparr>rvrTerm = currTerm rf1, rvrVoteGranted = False\<rparr>)
        else if votedFor rf1 = -1 \<or> votedFor rf1 = rvCandidateId args
        then do {
          lastlog \<leftarrow> idx (logs rf1) (getPhysicalIndex rf1 (lastLogicalIndex rf1));
          if rvLastLogTerm args > eTerm lastlog \<or>
             (rvLastLogTerm args = eTerm lastlog \<and> rvLastLogIndex args \<ge> lastLogicalIndex rf1)
          then Some ((persist (rf1\<lparr>votedFor := rvCandidateId args\<rparr>))\<lparr>timer := now, rstate := 2\<rparr>,
                     \<lparr>rvrTerm = currTerm rf1, rvrVoteGranted = True\<rparr>)
          else Some (rf1, \<lparr>rvrTerm = currTerm rf1, rvrVoteGranted = False\<rparr>) }
        else Some (rf1, \<lparr>rvrTerm = currTerm rf1, rvrVoteGranted = False\<rparr>))"

text \<open>
  The loop of \<open>AppendEntries\<close> that walks down from \<open>PrevLogIndex\<close> over the entries of the
  conflicting term; \<open>ci\<close> is \<open>reply.ConflictIndex\<close>.
\<close>

function conflictScan ::
  "'c LogEntry list \<Rightarrow> int \<Rightarrow> int \<Rightarrow> int \<Rightarrow> int \<Rightarrow> int option" where
  "conflictScan ls lii ct i ci =
    (if i > lii
     then (case idx ls (i - lii) of
             None \<Rightarrow> None
           | Some e \<Rightarrow> if eTerm e = ct then conflictScan ls lii ct (i - 1) i else Some ci)
     else Some ci)"
  by pat_completeness auto
termination
  by (relation "measure (\<lambda>(ls, lii, ct, i, ci). nat (i - lii))") auto

declare conflictScan.simps [simp del]

text \<open>
  The loop of \<open>AppendEntries\<close> over \<open>args.Entries\<close>: entries already present are skipped, the
  first one that differs truncates the log, and the rest is appended.
\<close>

fun syncEntries ::
  "int \<Rightarrow> 'c LogEntry list \<Rightarrow> int \<Rightarrow> 'c LogEntry list \<Rightarrow> 'c LogEntry list option" where
  "syncEntries lii ls currIndex [] = Some ls"
| "syncEntries lii ls currIndex (e # es) =
    (if currIndex \<le> lii + int (length ls) - 1
     then do {
       old \<leftarrow> idx ls (currIndex - lii);
       if eTerm old \<noteq> eTerm e
       then do { pre \<leftarrow> sliceTo ls (currIndex - lii); Some (pre @ e # es) }
       else syncEntries lii ls (currIndex + 1) es }
     else Some (ls @ e # es))"

definition AppendEntries ::
  "int \<Rightarrow> 'c AppendEntriesArgs \<Rightarrow> ('c, 'v) Raft \<Rightarrow> (('c, 'v) Raft \<times> AppendEntriesReply) option" where
  "AppendEntries now args rf =
    (if aeTerm args < currTerm rf
     then Some (rf, zeroAppendReply\<lparr>aerSuccess := False, aerTerm := currTerm rf\<rparr>)
     else
       let rf1 = rf\<lparr>rstate := 2, timer := now, currLeader := aeLeaderId args\<rparr>;
           rf2 = (if aeTerm args > currTerm rf1
                  then persist (rf1\<lparr>votedFor := -1, currTerm := aeTerm args\<rparr>) else rf1)
       in if aePrevLogIndex args > lastLogicalIndex rf2
          then Some (rf2, zeroAppendReply\<lparr>aerSuccess := False, aerConflictTerm := -1,
                            aerConflictIndex := lastLogicalIndex rf2 + 1\<rparr>)
          else if aePrevLogIndex args < lastIncludedIndex rf2
          then Some (rf2, zeroAppendReply\<lparr>aerSuccess := False, aerTerm := currTerm rf2,
                            aerConflictIndex := lastIncludedIndex rf2 + 1, aerConflictTerm := -1\<rparr>)
          else do {
            prev \<leftarrow> idx (logs rf2) (getPhysicalIndex rf2 (aePrevLogIndex args));
            if aePrevLogTerm args \<noteq> eTerm prev
            then do {
              ci \<leftarrow> conflictScan (logs rf2) (lastIncludedIndex rf2) (eTerm prev) (aePrevLogIndex args) 0;
              Some (rf2, zeroAppendReply\<lparr>aerSuccess := False, aerConflictTerm := eTerm prev,
                           aerConflictIndex := ci\<rparr>) }
            else do {
              ls \<leftarrow> syncEntries (lastIncludedIndex rf2) (logs rf2) (aePrevLogIndex args + 1) (aeEntries args);
              let rf3 = persist (rf2\<lparr>logs := ls\<rparr>);
              let rf4 = (if aeLeaderCommit args > commitIndex rf3
                         then rf3\<lparr>commitIndex := goMin (aeLeaderCommit args) (lastLogicalIndex rf3)\<rparr>
                         else rf3);
              Some (rf4, zeroAppendReply\<lparr>aerSuccess := True\<rparr>) } })"

text \<open>\<open>hasFound\<close> and \<open>splitIdx\<close> of \<open>InstallSnapshot\<close>: \<open>None\<close> is \<open>hasFound = false\<close>.\<close>

fun findSplit ::
  "int \<Rightarrow> int \<Rightarrow> int \<Rightarrow> nat \<Rightarrow> 'c LogEntry list \<Rightarrow> nat option \<Rightarrow> nat option" where
  "findSplit lii index term i [] acc = acc"
| "findSplit lii index term i (e # es) acc =
     findSplit lii index term (Suc i) es
       (if int i + lii = index \<and> eTerm e = term then Some i else acc)"

definition InstallSnapshot ::
  "int \<Rightarrow> ('c, 'v) InstallSnapshotArgs \<Rightarrow> ('c, 'v) Raft \<Rightarrow>
   ('c, 'v) Raft \<times> InstallSnapshotReply \<times> ('c, 'v) ApplyMsg option" where
  "InstallSnapshot now args rf =
    (if currTerm rf > isTerm args
     then (rf, \<lparr>isrTerm = currTerm rf\<rparr>, None)
     else
       let rf1 = rf\<lparr>rstate := 2, timer := now, currLeader := isLeaderId args\<rparr>;
           rf2 = (if isTerm args > currTerm rf1
                  then persist (rf1\<lparr>currTerm := isTerm args, votedFor := -1\<rparr>) else rf1);
           reply = \<lparr>isrTerm = currTerm rf2\<rparr>
       in if lastIncludedIndex rf2 \<ge> isLastIncludedIndex args then (rf2, reply, None)
          else
            let ls = (case findSplit (lastIncludedIndex rf2) (isLastIncludedIndex args)
                             (isLastIncludedTerm args) 0 (logs rf2) None of
                        Some splitIdx \<Rightarrow>
                          \<lparr>eTerm = isLastIncludedTerm args, eCommand = None\<rparr> # drop (Suc splitIdx) (logs rf2)
                      | None \<Rightarrow> [\<lparr>eTerm = isLastIncludedTerm args, eCommand = None\<rparr>]);
                rf3 = rf2\<lparr>logs := ls, currTerm := isTerm args,
                          lastIncludedIndex := isLastIncludedIndex args,
                          lastIncludedTerm := isLastIncludedTerm args,
                          commitIndex := goMax (isLastIncludedIndex args) (commitIndex rf2),
                          lastApplied := goMax (isLastIncludedIndex args) (lastApplied rf2)\<rparr>;
                rf4 = rf3\<lparr>persister := SaveStateAndSnapshot (encodeState rf3) (isData args) (persister rf3)\<rparr>
            in (rf4, reply,
                Some (zeroApplyMsg\<lparr>SnapshotValid := True, SnapshotData := isData args,
                        SnapshotIndex := lastIncludedIndex rf3, SnapshotTerm := lastIncludedTerm rf3\<rparr>)))"

section \<open>Service interface and start-up\<close>

text \<open>\<open>Start\<close>: returns \<open>(index, term, isLeader)\<close>; a leader then starts \<open>replicationLog\<close>.\<close>

definition Start :: "'c \<Rightarrow> ('c, 'v) Raft \<Rightarrow> (int \<times> int \<times> bool) \<times> ('c, 'v) Raft" where
  "Start command rf =
    (if rstate rf \<noteq> 0 then ((-1, -1, False), rf)
     else ((lastLogicalIndex rf + 1, currTerm rf, True),
           persist (rf\<lparr>logs := logs rf @ [\<lparr>eTerm = currTerm rf, eCommand = Some command\<rparr>]\<rparr>)))"

definition Kill :: "('c, 'v) Raft \<Rightarrow> ('c, 'v) Raft" where
  "Kill rf = rf\<lparr>dead := True\<rparr>"

definition killed :: "('c, 'v) Raft \<Rightarrow> bool" where
  "killed rf = dead rf"

text \<open>
  One iteration of \<open>ticker\<close>: whether an election is to be started. The loop tests \<open>killed\<close> before it sleeps, so that a peer killed
  meanwhile still finishes its round.
\<close>

definition tickerNeed :: "int \<Rightarrow> int \<Rightarrow> ('c, 'v) Raft \<Rightarrow> bool" where
  "tickerNeed now timeout rf \<longleftrightarrow> rstate rf \<noteq> 0 \<and> now - timer rf > timeout"

text \<open>\<open>r\<close> is the value of \<open>rand.Intn(500)\<close>; milliseconds.\<close>

definition randomElectionTimeout :: "int \<Rightarrow> int" where
  "randomElectionTimeout r = 500 + r"

definition Make ::
  "nat \<Rightarrow> int \<Rightarrow> ('c, 'v) Persister \<Rightarrow> int \<Rightarrow> ('c, 'v) Raft \<times> ('c, 'v) ApplyMsg option" where
  "Make n i ps now =
    (let rf = \<lparr>npeers = n, persister = ps, me = i, dead = False, currLeader = 0, currTerm = 0,
               votedFor = -1, rstate = 2, logs = [\<lparr>eTerm = 0, eCommand = None\<rparr>], timer = now,
               lastIncludedIndex = 0, lastIncludedTerm = 0, commitIndex = 0, lastApplied = 0,
               nextIndex = replicate n 0, matchIndex = replicate n 0\<rparr>;
         rf1 = readPersist (ReadRaftState ps) rf;
         snap = ReadSnapshot ps;
         rf2 = (if lastIncludedIndex rf1 > 0
                then rf1\<lparr>commitIndex := lastIncludedIndex rf1, lastApplied := lastIncludedIndex rf1\<rparr>
                else rf1)
     in (rf2, if snap \<noteq> []
              then Some (zeroApplyMsg\<lparr>SnapshotValid := True, SnapshotData := snap,
                           SnapshotIndex := lastIncludedIndex rf2, SnapshotTerm := lastIncludedTerm rf2\<rparr>)
              else None))"

section \<open>Elections\<close>

definition startElection :: "int \<Rightarrow> ('c, 'v) Raft \<Rightarrow> (('c, 'v) Raft \<times> RequestVoteArgs) option" where
  "startElection now rf =
    (let rf1 = persist (rf\<lparr>currTerm := currTerm rf + 1, votedFor := me rf, timer := now, rstate := 1\<rparr>)
     in do {
       lastlog \<leftarrow> idx (logs rf1) (getPhysicalIndex rf1 (lastLogicalIndex rf1));
       Some (rf1, \<lparr>rvTerm = currTerm rf1, rvCandidateId = me rf1,
                   rvLastLogIndex = lastLogicalIndex rf1, rvLastLogTerm = eTerm lastlog\<rparr>) })"

text \<open>
  The goroutine of \<open>startElection\<close> after the RPC returned. \<open>voteStale\<close> is its first test;
  \<open>voteCount\<close> counts the vote and tells whether \<open>becomeLeader\<close> is called (the lock is
  released around that call); \<open>voteStepDown\<close> is the rest of the goroutine.
\<close>

definition voteStale :: "int \<Rightarrow> ('c, 'v) Raft \<Rightarrow> bool" where
  "voteStale startTerm rf \<longleftrightarrow> rstate rf \<noteq> 1 \<or> currTerm rf \<noteq> startTerm"

definition voteCount :: "RequestVoteReply \<Rightarrow> int \<Rightarrow> ('c, 'v) Raft \<Rightarrow> int \<times> bool" where
  "voteCount reply votes rf =
    (if rvrVoteGranted reply then (votes + 1, votes + 1 > int (npeers rf) div 2) else (votes, False))"

definition voteStepDown :: "RequestVoteReply \<Rightarrow> ('c, 'v) Raft \<Rightarrow> ('c, 'v) Raft" where
  "voteStepDown reply rf =
    (if rvrTerm reply > currTerm rf
     then persist (rf\<lparr>currTerm := rvrTerm reply, rstate := 2, votedFor := -1\<rparr>) else rf)"

text \<open>\<open>becomeLeader\<close>; the boolean tells whether \<open>broadcastHeartbeat\<close> is started.\<close>

definition becomeLeader :: "int \<Rightarrow> ('c, 'v) Raft \<Rightarrow> ('c, 'v) Raft \<times> bool" where
  "becomeLeader electionTerm rf =
    (if rstate rf \<noteq> 1 \<or> electionTerm \<noteq> currTerm rf then (rf, False)
     else (rf\<lparr>rstate := 0,
              nextIndex := map (\<lambda>p. if int p = me rf then nextIndex rf ! p else lastLogicalIndex rf + 1)
                             [0..<npeers rf]\<rparr>, True))"

section \<open>Replication\<close>

text \<open>
  One round of \<open>broadcastHeartbeat\<close> after the test of \<open>killed\<close>, which is made without the lock, and \<open>replicationLog\<close>: whether
  \<open>makeAppendEntry\<close> runs.
\<close>

definition heartbeatRound :: "('c, 'v) Raft \<Rightarrow> bool" where
  "heartbeatRound rf \<longleftrightarrow> rstate rf = 0"

definition replicationLog :: "('c, 'v) Raft \<Rightarrow> bool" where
  "replicationLog rf \<longleftrightarrow> rstate rf = 0"

text \<open>
  The goroutine of \<open>makeAppendEntry\<close> for one peer, before the RPC: \<open>None\<close> inside is the call
  of \<open>sendInstallSnapshotToPeers\<close> for a peer that lags behind the snapshot.
\<close>

definition buildAppendEntry :: "int \<Rightarrow> ('c, 'v) Raft \<Rightarrow> 'c AppendEntriesArgs option option" where
  "buildAppendEntry peer rf = do {
     ni \<leftarrow> idx (nextIndex rf) peer;
     if ni \<le> lastIncludedIndex rf then Some None
     else do {
       entries \<leftarrow> sliceFrom (logs rf) (getPhysicalIndex rf ni);
       prev \<leftarrow> idx (logs rf) (getPhysicalIndex rf ni - 1);
       Some (Some \<lparr>aeTerm = currTerm rf, aeLeaderId = me rf, aePrevLogIndex = ni - 1,
                   aePrevLogTerm = eTerm prev, aeEntries = entries,
                   aeLeaderCommit = commitIndex rf\<rparr>) } }"

definition matchCount :: "('c, 'v) Raft \<Rightarrow> int \<Rightarrow> int" where
  "matchCount rf N =
     1 + int (length (filter (\<lambda>p. int p \<noteq> me rf \<and> matchIndex rf ! p \<ge> N) [0..<npeers rf]))"

text \<open>\<open>commitIndexUpdate\<close>: the loop over \<open>N\<close>, from the end of the log down.\<close>

function commitScan :: "int \<Rightarrow> ('c, 'v) Raft \<Rightarrow> ('c, 'v) Raft option" where
  "commitScan N rf =
    (if N > commitIndex rf
     then (case idx (logs rf) (getPhysicalIndex rf N) of
             None \<Rightarrow> None
           | Some e \<Rightarrow>
               if eTerm e \<noteq> currTerm rf then commitScan (N - 1) rf
               else if matchCount rf N > int (npeers rf) div 2 then Some (rf\<lparr>commitIndex := N\<rparr>)
               else commitScan (N - 1) rf)
     else Some rf)"
  by pat_completeness auto
termination
  by (relation "measure (\<lambda>(N, rf). nat (N - commitIndex rf))") auto

declare commitScan.simps [simp del]

definition commitIndexUpdate :: "('c, 'v) Raft \<Rightarrow> ('c, 'v) Raft option" where
  "commitIndexUpdate rf = commitScan (lastLogicalIndex rf) rf"

text \<open>The leader's search for its last entry of the conflicting term: the highest \<open>i < n\<close>.\<close>

fun lastOfTerm :: "'c LogEntry list \<Rightarrow> int \<Rightarrow> nat \<Rightarrow> nat option" where
  "lastOfTerm ls t 0 = None"
| "lastOfTerm ls t (Suc i) = (if eTerm (ls ! i) = t then Some i else lastOfTerm ls t i)"

definition setNext :: "int \<Rightarrow> int \<Rightarrow> ('c, 'v) Raft \<Rightarrow> ('c, 'v) Raft option" where
  "setNext peer v rf = do { ns \<leftarrow> setIdx (nextIndex rf) peer v; Some (rf\<lparr>nextIndex := ns\<rparr>) }"

text \<open>The last statement of the reply branch: \<open>nextIndex[peer]\<close> is at least 1.\<close>

definition clampNext :: "int \<Rightarrow> ('c, 'v) Raft \<Rightarrow> ('c, 'v) Raft option" where
  "clampNext peer rf = do {
     ni \<leftarrow> idx (nextIndex rf) peer;
     if ni < 1 then setNext peer 1 rf else Some rf }"

text \<open>
  The same goroutine after a successful RPC; the boolean tells whether
  \<open>sendInstallSnapshotToPeers\<close> is started for the peer.
\<close>

definition appendReply ::
  "int \<Rightarrow> int \<Rightarrow> 'c AppendEntriesArgs \<Rightarrow> AppendEntriesReply \<Rightarrow> ('c, 'v) Raft \<Rightarrow>
   (('c, 'v) Raft \<times> bool) option" where
  "appendReply now peer args reply rf =
    (if currTerm rf \<noteq> aeTerm args then Some (rf, False)
     else if aerTerm reply > currTerm rf
     then Some ((persist (rf\<lparr>currTerm := aerTerm reply, votedFor := -1\<rparr>))\<lparr>rstate := 2, timer := now\<rparr>, False)
     else if rstate rf \<noteq> 0 then Some (rf, False)
     else if aerSuccess reply then do {
       m \<leftarrow> idx (matchIndex rf) peer;
       ms \<leftarrow> setIdx (matchIndex rf) peer
               (goMax (aePrevLogIndex args + int (length (aeEntries args))) m);
       m' \<leftarrow> idx ms peer;
       rf1 \<leftarrow> setNext peer (m' + 1) (rf\<lparr>matchIndex := ms\<rparr>);
       rf2 \<leftarrow> commitIndexUpdate rf1;
       rf3 \<leftarrow> clampNext peer rf2;
       Some (rf3, False) }
     else if aerConflictTerm reply = -1 then do {
       rf1 \<leftarrow> setNext peer (aerConflictIndex reply) rf;
       rf2 \<leftarrow> clampNext peer rf1;
       Some (rf2, False) }
     else if aerConflictIndex reply < lastIncludedIndex rf then Some (rf, True)
     else do {
       rf1 \<leftarrow> setNext peer
                (case lastOfTerm (logs rf) (aerConflictTerm reply) (length (logs rf)) of
                   Some i \<Rightarrow> getLogicalIndex rf (int i) + 1
                 | None \<Rightarrow> aerConflictIndex reply) rf;
       rf2 \<leftarrow> clampNext peer rf1;
       Some (rf2, False) })"

text \<open>\<open>sendInstallSnapshotToPeers\<close> before and after its RPC.\<close>

definition buildInstallSnapshot :: "('c, 'v) Raft \<Rightarrow> ('c, 'v) InstallSnapshotArgs" where
  "buildInstallSnapshot rf =
    \<lparr>isTerm = currTerm rf, isLeaderId = me rf, isLastIncludedIndex = lastIncludedIndex rf,
     isLastIncludedTerm = lastIncludedTerm rf, isOffset = 0,
     isData = ReadSnapshot (persister rf), isDone = True\<rparr>"

definition installReply ::
  "int \<Rightarrow> int \<Rightarrow> ('c, 'v) InstallSnapshotArgs \<Rightarrow> InstallSnapshotReply \<Rightarrow> ('c, 'v) Raft \<Rightarrow>
   ('c, 'v) Raft option" where
  "installReply now peer args reply rf =
    (if isrTerm reply > currTerm rf
     then Some ((persist (rf\<lparr>currTerm := isrTerm reply, rstate := 2, votedFor := -1\<rparr>))\<lparr>timer := now\<rparr>)
     else if rstate rf \<noteq> 0 \<or> currTerm rf \<noteq> isTerm args then Some rf
     else do {
       m \<leftarrow> idx (matchIndex rf) peer;
       ms \<leftarrow> setIdx (matchIndex rf) peer (goMax (isLastIncludedIndex args) m);
       m' \<leftarrow> idx ms peer;
       ni \<leftarrow> idx (nextIndex rf) peer;
       setNext peer (goMax (m' + 1) ni) (rf\<lparr>matchIndex := ms\<rparr>) })"

section \<open>Applying committed entries\<close>

text \<open>One iteration of the inner loop of \<open>sendApplyMsg\<close>.\<close>

definition applyNext :: "('c, 'v) Raft \<Rightarrow> (('c, 'v) Raft \<times> ('c, 'v) ApplyMsg option) option" where
  "applyNext rf =
    (if lastApplied rf < commitIndex rf
     then if lastApplied rf + 1 > lastLogicalIndex rf then Some (rf, None)
          else do {
            e \<leftarrow> idx (logs rf) (getPhysicalIndex rf (lastApplied rf + 1));
            Some (rf\<lparr>lastApplied := lastApplied rf + 1\<rparr>,
                  Some (zeroApplyMsg\<lparr>CommandValid := True, Command := eCommand e,
                          CommandIndex := lastApplied rf + 1\<rparr>)) }
     else Some (rf, None))"

end
