(* ===== verification/Raft_Invariants.thy ===== *)
theory Raft_Invariants
  imports Raft_Node
begin

text \<open>
  The representation invariant \<open>node_wf\<close> of one Raft peer, that the handlers keep it and do not
  panic on it, and what the log operations do to the log.
\<close>

section \<open>Representation invariant\<close>

definition node_wf :: "('c, 'v) Raft \<Rightarrow> bool" where
  "node_wf rf \<longleftrightarrow>
     logs rf \<noteq> [] \<and> eTerm (hd (logs rf)) = lastIncludedTerm rf \<and>
     0 \<le> lastIncludedIndex rf \<and> lastIncludedIndex rf \<le> lastApplied rf \<and>
     length (nextIndex rf) = npeers rf \<and> length (matchIndex rf) = npeers rf"

text \<open>The entry at a logical index, if the log still holds one there.\<close>

definition entryAt :: "('c, 'v) Raft \<Rightarrow> int \<Rightarrow> 'c LogEntry option" where
  "entryAt rf i = idx (logs rf) (getPhysicalIndex rf i)"

named_theorems raft_defs \<open>definitions of the critical sections of a peer\<close>

lemmas [raft_defs] = RequestVote_def AppendEntries_def InstallSnapshot_def Start_def Snapshot_def
  Kill_def startElection_def voteStepDown_def becomeLeader_def appendReply_def installReply_def
  applyNext_def setNext_def clampNext_def commitIndexUpdate_def

lemma persist_sel [simp]:
  "npeers (persist rf) = npeers rf" "me (persist rf) = me rf" "dead (persist rf) = dead rf"
  "currLeader (persist rf) = currLeader rf" "currTerm (persist rf) = currTerm rf"
  "votedFor (persist rf) = votedFor rf" "rstate (persist rf) = rstate rf"
  "logs (persist rf) = logs rf" "timer (persist rf) = timer rf"
  "lastIncludedIndex (persist rf) = lastIncludedIndex rf"
  "lastIncludedTerm (persist rf) = lastIncludedTerm rf"
  "commitIndex (persist rf) = commitIndex rf" "lastApplied (persist rf) = lastApplied rf"
  "nextIndex (persist rf) = nextIndex rf" "matchIndex (persist rf) = matchIndex rf"
  "persister (persist rf) = SaveRaftState (encodeState rf) (persister rf)"
  by (simp_all add: persist_def)

lemma lastLogicalIndex_cong:
  "lastIncludedIndex rf' = lastIncludedIndex rf \<Longrightarrow> length (logs rf') = length (logs rf) \<Longrightarrow>
   lastLogicalIndex rf' = lastLogicalIndex rf"
  by (simp add: lastLogicalIndex_def)

lemma last_entry_exists:
  assumes "logs rf \<noteq> []"
  shows "idx (logs rf) (getPhysicalIndex rf (lastLogicalIndex rf)) = Some (last (logs rf))"
proof -
  have "nat (int (length (logs rf)) - 1) = length (logs rf) - 1"
    using assms by (simp add: nat_diff_distrib')
  then show ?thesis
    using assms by (simp add: idx_def index_defs last_conv_nth)
qed

lemma node_wf_idx:
  assumes "node_wf rf" and "lastIncludedIndex rf \<le> i" and "i \<le> lastLogicalIndex rf"
  shows "idx (logs rf) (getPhysicalIndex rf i) = Some (logs rf ! nat (i - lastIncludedIndex rf))"
  using assms by (auto simp: idx_def index_defs)

section \<open>The log operations\<close>

text \<open>The conflict scan never leaves the log.\<close>

lemma conflictScan_total:
  assumes "i - lii < int (length ls)"
  shows "\<exists>r. conflictScan ls lii ct i ci = Some r"
  using assms
proof (induction ls lii ct i ci rule: conflictScan.induct)
  case (1 ls lii ct i ci)
  show ?case
  proof (cases "i > lii")
    case True
    with "1.prems" obtain e where e: "idx ls (i - lii) = Some e"
      by (auto simp: idx_def)
    show ?thesis
      using "1.IH" [OF True e] "1.prems" True e
      by (auto simp: conflictScan.simps [of ls lii ct i ci])
  next
    case False
    then show ?thesis by (simp add: conflictScan.simps)
  qed
qed

text \<open>
  The index it reports opens a run of entries of the conflicting term that reaches up to
  \<open>PrevLogIndex\<close>.
\<close>

lemma conflictScan_run:
  assumes "conflictScan ls lii ct i ci = Some r" and "r \<noteq> ci"
  shows "lii < r \<and> r \<le> i \<and> (\<forall>j. r \<le> j \<and> j \<le> i \<longrightarrow> (\<exists>e. idx ls (j - lii) = Some e \<and> eTerm e = ct))"
  using assms
proof (induction ls lii ct i ci rule: conflictScan.induct)
  case (1 ls lii ct i ci)
  from "1.prems" obtain e where e: "i > lii" "idx ls (i - lii) = Some e" "eTerm e = ct"
    and rec: "conflictScan ls lii ct (i - 1) i = Some r"
    by (auto simp: conflictScan.simps [of ls lii ct i ci] split: if_splits option.splits)
  show ?case
  proof (cases "r = i")
    case True
    with e show ?thesis by auto
  next
    case False
    have IH: "lii < r \<and> r \<le> i - 1 \<and>
        (\<forall>j. r \<le> j \<and> j \<le> i - 1 \<longrightarrow> (\<exists>e. idx ls (j - lii) = Some e \<and> eTerm e = ct))"
      using "1.IH" [OF e(1,2,3) rec False] .
    then show ?thesis
      using e by (metis add.commute add_left_cancel diff_add_cancel order_le_less zle_diff1_eq)
  qed
qed

text \<open>
  \<open>syncEntries\<close> returns for every index inside or just after the log; it keeps everything
  before that index and afterwards holds, position by position, the terms of the leader's entries.
\<close>

lemma syncEntries_total:
  assumes "lii \<le> i"
  shows "\<exists>r. syncEntries lii ls i es = Some r"
  using assms
  by (induction es arbitrary: i) (auto simp: idx_def sliceTo_def bind_Some_iff)

lemma syncEntries_spec:
  assumes "syncEntries lii ls (lii + int k) es = Some r" and "k \<le> length ls"
  shows "take k r = take k ls
       \<and> k + length es \<le> length r
       \<and> map eTerm (take (length es) (drop k r)) = map eTerm es
       \<and> (r = ls \<or> (\<exists>m. m < length es \<and> r = take (k + m) ls @ drop m es
            \<and> map eTerm (take m (drop k ls)) = map eTerm (take m es)
            \<and> (k + m = length ls \<or> k + m < length ls \<and> eTerm (ls ! (k + m)) \<noteq> eTerm (es ! m))))"
  using assms
proof (induction es arbitrary: k)
  case Nil
  then show ?case by auto
next
  case (Cons e es)
  show ?case
  proof (cases "k < length ls")
    case False
    with Cons.prems have k: "k = length ls" and r: "r = ls @ e # es" by auto
    show ?thesis
      using k r by (auto intro: exI [of _ 0])
  next
    case True
    then have old: "idx ls (lii + int k - lii) = Some (ls ! k)"
      by (simp add: idx_def)
    show ?thesis
    proof (cases "eTerm (ls ! k) = eTerm e")
      case False
      with Cons.prems True old have r: "r = take k ls @ e # es"
        by (auto simp: sliceTo_def)
      show ?thesis
        using True r False by (auto intro!: exI [of _ 0])
    next
      case eq: True
      have "syncEntries lii ls (lii + int (Suc k)) es = Some r"
        using Cons.prems(1) True old eq by (simp add: algebra_simps)
      from Cons.IH [OF this] True
      have IH: "take (Suc k) r = take (Suc k) ls" "Suc k + length es \<le> length r"
        "map eTerm (take (length es) (drop (Suc k) r)) = map eTerm es"
        "r = ls \<or> (\<exists>m. m < length es \<and> r = take (Suc k + m) ls @ drop m es
            \<and> map eTerm (take m (drop (Suc k) ls)) = map eTerm (take m es)
            \<and> (Suc k + m = length ls \<or> Suc k + m < length ls \<and> eTerm (ls ! (Suc k + m)) \<noteq> eTerm (es ! m)))"
        by simp_all
      have rk: "r ! k = ls ! k" "k < length r"
        using IH(1,2) by (metis lessI nth_take) (use IH(2) in simp)
      have dr: "drop k r = r ! k # drop (Suc k) r"
        using rk(2) by (rule Cons_nth_drop_Suc [symmetric])
      have dl: "drop k ls = ls ! k # drop (Suc k) ls"
        using True by (rule Cons_nth_drop_Suc [symmetric])
      have t: "take k r = take k ls"
        using IH(1) by (metis le_add2 min.absorb1 plus_1_eq_Suc take_take)
      have terms: "map eTerm (take (length (e # es)) (drop k r)) = map eTerm (e # es)"
        using IH(3) dr rk(1) eq by simp
      show ?thesis
      proof (cases "r = ls")
        case True
        then show ?thesis using t terms IH(2) by simp
      next
        case False
        with IH(4) obtain m where m: "m < length es" "r = take (Suc k + m) ls @ drop m es"
          "map eTerm (take m (drop (Suc k) ls)) = map eTerm (take m es)"
          "Suc k + m = length ls \<or> Suc k + m < length ls \<and> eTerm (ls ! (Suc k + m)) \<noteq> eTerm (es ! m)"
          by blast
        have "\<exists>m. m < length (e # es) \<and> r = take (k + m) ls @ drop m (e # es)
            \<and> map eTerm (take m (drop k ls)) = map eTerm (take m (e # es))
            \<and> (k + m = length ls \<or> k + m < length ls \<and> eTerm (ls ! (k + m)) \<noteq> eTerm ((e # es) ! m))"
          using m dl eq by (intro exI [of _ "Suc m"]) auto
        then show ?thesis using t terms IH(2) by simp
      qed
    qed
  qed
qed


section \<open>The shape of the handlers' results\<close>

text \<open>The state after the first half of \<open>AppendEntries\<close> and of \<open>InstallSnapshot\<close>: the sender is accepted.\<close>

definition adopt :: "int \<Rightarrow> int \<Rightarrow> int \<Rightarrow> ('c, 'v) Raft \<Rightarrow> ('c, 'v) Raft" where
  "adopt now leader t rf =
    (let rf1 = rf\<lparr>rstate := 2, timer := now, currLeader := leader\<rparr>
     in if t > currTerm rf1 then persist (rf1\<lparr>votedFor := -1, currTerm := t\<rparr>) else rf1)"

lemma adopt_sel [simp]:
  "npeers (adopt now l t rf) = npeers rf" "me (adopt now l t rf) = me rf"
  "rstate (adopt now l t rf) = 2" "logs (adopt now l t rf) = logs rf"
  "lastIncludedIndex (adopt now l t rf) = lastIncludedIndex rf"
  "lastIncludedTerm (adopt now l t rf) = lastIncludedTerm rf"
  "commitIndex (adopt now l t rf) = commitIndex rf" "lastApplied (adopt now l t rf) = lastApplied rf"
  "nextIndex (adopt now l t rf) = nextIndex rf" "matchIndex (adopt now l t rf) = matchIndex rf"
  "currTerm (adopt now l t rf) = max t (currTerm rf)"
  "votedFor (adopt now l t rf) = (if t > currTerm rf then -1 else votedFor rf)"
  by (simp_all add: adopt_def Let_def)

lemma adopt_wf: "node_wf rf \<Longrightarrow> node_wf (adopt now l t rf)"
  by (simp add: node_wf_def)

definition commitUpTo :: "int \<Rightarrow> ('c, 'v) Raft \<Rightarrow> ('c, 'v) Raft" where
  "commitUpTo c rf = (if c > commitIndex rf then rf\<lparr>commitIndex := min c (lastLogicalIndex rf)\<rparr> else rf)"

lemma commitUpTo_sel [simp]:
  "npeers (commitUpTo c rf) = npeers rf" "me (commitUpTo c rf) = me rf"
  "rstate (commitUpTo c rf) = rstate rf" "logs (commitUpTo c rf) = logs rf"
  "lastIncludedIndex (commitUpTo c rf) = lastIncludedIndex rf"
  "lastIncludedTerm (commitUpTo c rf) = lastIncludedTerm rf" "lastApplied (commitUpTo c rf) = lastApplied rf"
  "nextIndex (commitUpTo c rf) = nextIndex rf" "matchIndex (commitUpTo c rf) = matchIndex rf"
  "currTerm (commitUpTo c rf) = currTerm rf" "votedFor (commitUpTo c rf) = votedFor rf"
  "persister (commitUpTo c rf) = persister rf"
  by (simp_all add: commitUpTo_def)

text \<open>
  \<open>AppendEntries\<close> refuses a stale sender, or accepts the sender and refuses the entries, or takes
  the entries because the previous entry matches.
\<close>

lemma AppendEntries_eq:
  "AppendEntries now args rf =
    (if aeTerm args < currTerm rf
     then Some (rf, zeroAppendReply\<lparr>aerSuccess := False, aerTerm := currTerm rf\<rparr>)
     else
       let rf2 = adopt now (aeLeaderId args) (aeTerm args) rf
       in if aePrevLogIndex args > lastLogicalIndex rf2
          then Some (rf2, zeroAppendReply\<lparr>aerSuccess := False, aerConflictTerm := -1,
                            aerConflictIndex := lastLogicalIndex rf2 + 1\<rparr>)
          else if aePrevLogIndex args < lastIncludedIndex rf2
          then Some (rf2, zeroAppendReply\<lparr>aerSuccess := False, aerTerm := currTerm rf2,
                            aerConflictIndex := lastIncludedIndex rf2 + 1, aerConflictTerm := -1\<rparr>)
          else do {
            prev \<leftarrow> entryAt rf2 (aePrevLogIndex args);
            if aePrevLogTerm args \<noteq> eTerm prev
            then do {
              ci \<leftarrow> conflictScan (logs rf2) (lastIncludedIndex rf2) (eTerm prev) (aePrevLogIndex args) 0;
              Some (rf2, zeroAppendReply\<lparr>aerSuccess := False, aerConflictTerm := eTerm prev,
                           aerConflictIndex := ci\<rparr>) }
            else do {
              ls \<leftarrow> syncEntries (lastIncludedIndex rf2) (logs rf2) (aePrevLogIndex args + 1) (aeEntries args);
              Some (commitUpTo (aeLeaderCommit args) (persist (rf2\<lparr>logs := ls\<rparr>)),
                    zeroAppendReply\<lparr>aerSuccess := True\<rparr>) } })"
  unfolding AppendEntries_def adopt_def commitUpTo_def entryAt_def Let_def goMin_min ..

lemma AppendEntries_cases:
  assumes "AppendEntries now args rf = Some (rf', reply)"
  obtains (stale) "aeTerm args < currTerm rf" "rf' = rf" "\<not> aerSuccess reply" "aerTerm reply = currTerm rf"
  | (refuse) "currTerm rf \<le> aeTerm args" "rf' = adopt now (aeLeaderId args) (aeTerm args) rf"
      "\<not> aerSuccess reply"
  | (accept) ls prev where "currTerm rf \<le> aeTerm args" "aerSuccess reply"
      "lastIncludedIndex rf \<le> aePrevLogIndex args" "aePrevLogIndex args \<le> lastLogicalIndex rf"
      "entryAt rf (aePrevLogIndex args) = Some prev" "eTerm prev = aePrevLogTerm args"
      "syncEntries (lastIncludedIndex rf) (logs rf) (aePrevLogIndex args + 1) (aeEntries args) = Some ls"
      "rf' = commitUpTo (aeLeaderCommit args)
               (persist ((adopt now (aeLeaderId args) (aeTerm args) rf)\<lparr>logs := ls\<rparr>))"
proof -
  define rf2 where "rf2 = adopt now (aeLeaderId args) (aeTerm args) rf"
  have same: "lastLogicalIndex rf2 = lastLogicalIndex rf" "lastIncludedIndex rf2 = lastIncludedIndex rf"
    "logs rf2 = logs rf" "\<And>i. entryAt rf2 i = entryAt rf i"
    by (simp_all add: rf2_def index_defs entryAt_def)
  show thesis
  proof (cases "aeTerm args < currTerm rf")
    case True
    then show thesis using stale assms by (auto simp: AppendEntries_eq zeroAppendReply_def)
  next
    case False
    then have le: "currTerm rf \<le> aeTerm args" by simp
    show thesis
    proof (cases "aerSuccess reply")
      case True
      obtain prev ls where "entryAt rf2 (aePrevLogIndex args) = Some prev"
          "aePrevLogTerm args = eTerm prev" "\<not> aePrevLogIndex args > lastLogicalIndex rf2"
          "\<not> aePrevLogIndex args < lastIncludedIndex rf2"
          "syncEntries (lastIncludedIndex rf2) (logs rf2) (aePrevLogIndex args + 1) (aeEntries args) = Some ls"
          "rf' = commitUpTo (aeLeaderCommit args) (persist (rf2\<lparr>logs := ls\<rparr>))"
        using assms False True unfolding AppendEntries_eq rf2_def [symmetric] Let_def
        by (auto simp: bind_Some_iff zeroAppendReply_def split: if_splits)
      then show thesis using accept [of prev ls] le True same rf2_def by simp
    next
      case s: False
      have "rf' = rf2"
        using assms False s unfolding AppendEntries_eq rf2_def [symmetric] Let_def
        by (auto simp: bind_Some_iff split: if_splits)
      then show thesis using refuse le s rf2_def by simp
    qed
  qed
qed

text \<open>The log a peer has after it took a snapshot from the leader.\<close>

definition snapLog :: "('c, 'v) InstallSnapshotArgs \<Rightarrow> ('c, 'v) Raft \<Rightarrow> 'c LogEntry list" where
  "snapLog args rf =
    \<lparr>eTerm = isLastIncludedTerm args, eCommand = None\<rparr> #
      (case findSplit (lastIncludedIndex rf) (isLastIncludedIndex args) (isLastIncludedTerm args) 0 (logs rf) None of
         Some k \<Rightarrow> drop (Suc k) (logs rf) | None \<Rightarrow> [])"

definition takeSnapshot :: "('c, 'v) InstallSnapshotArgs \<Rightarrow> ('c, 'v) Raft \<Rightarrow> ('c, 'v) Raft" where
  "takeSnapshot args rf =
    (let rf3 = rf\<lparr>logs := snapLog args rf, currTerm := isTerm args,
                  lastIncludedIndex := isLastIncludedIndex args,
                  lastIncludedTerm := isLastIncludedTerm args,
                  commitIndex := max (isLastIncludedIndex args) (commitIndex rf),
                  lastApplied := max (isLastIncludedIndex args) (lastApplied rf)\<rparr>
     in rf3\<lparr>persister := SaveStateAndSnapshot (encodeState rf3) (isData args) (persister rf3)\<rparr>)"

lemma InstallSnapshot_eq:
  fixes rf :: "('c, 'v) Raft"
  shows "InstallSnapshot now args rf =
    (if isTerm args < currTerm rf then (rf, \<lparr>isrTerm = currTerm rf\<rparr>, None)
     else
       let rf2 = adopt now (isLeaderId args) (isTerm args) rf
       in if isLastIncludedIndex args \<le> lastIncludedIndex rf then (rf2, \<lparr>isrTerm = currTerm rf2\<rparr>, None)
          else (takeSnapshot args rf2, \<lparr>isrTerm = currTerm rf2\<rparr>,
                Some (zeroApplyMsg\<lparr>SnapshotValid := True, SnapshotData := isData args,
                        SnapshotIndex := isLastIncludedIndex args,
                        SnapshotTerm := isLastIncludedTerm args\<rparr>)))"
proof -
  have swap: "r\<lparr>currTerm := t, votedFor := v\<rparr> = r\<lparr>votedFor := v, currTerm := t\<rparr>" for r :: "('c, 'v) Raft" and t v
    by simp
  show ?thesis
    by (simp add: InstallSnapshot_def adopt_def takeSnapshot_def snapLog_def Let_def swap split: option.split)
qed

lemma takeSnapshot_sel [simp]:
  "npeers (takeSnapshot args rf) = npeers rf" "me (takeSnapshot args rf) = me rf"
  "rstate (takeSnapshot args rf) = rstate rf" "logs (takeSnapshot args rf) = snapLog args rf"
  "lastIncludedIndex (takeSnapshot args rf) = isLastIncludedIndex args"
  "lastIncludedTerm (takeSnapshot args rf) = isLastIncludedTerm args"
  "commitIndex (takeSnapshot args rf) = max (isLastIncludedIndex args) (commitIndex rf)"
  "lastApplied (takeSnapshot args rf) = max (isLastIncludedIndex args) (lastApplied rf)"
  "nextIndex (takeSnapshot args rf) = nextIndex rf" "matchIndex (takeSnapshot args rf) = matchIndex rf"
  "currTerm (takeSnapshot args rf) = isTerm args" "votedFor (takeSnapshot args rf) = votedFor rf"
  by (simp_all add: takeSnapshot_def Let_def)

lemma InstallSnapshot_cases:
  assumes "InstallSnapshot now args rf = (rf', reply, msg)"
  obtains (stale) "isTerm args < currTerm rf" "rf' = rf" "msg = None"
  | (old) "currTerm rf \<le> isTerm args" "isLastIncludedIndex args \<le> lastIncludedIndex rf"
      "rf' = adopt now (isLeaderId args) (isTerm args) rf" "msg = None"
  | (install) "currTerm rf \<le> isTerm args" "lastIncludedIndex rf < isLastIncludedIndex args"
      "rf' = takeSnapshot args (adopt now (isLeaderId args) (isTerm args) rf)"
  using assms unfolding InstallSnapshot_eq Let_def
  by (auto split: if_splits)

section \<open>Handlers keep the invariant and do not panic\<close>

lemma syncEntries_wf:
  assumes "syncEntries lii ls i es = Some r" and "lii < i" and "i \<le> lii + int (length ls)" and "ls \<noteq> []"
  shows "r \<noteq> [] \<and> hd r = hd ls"
proof -
  obtain k where k: "i = lii + int k"
    using assms(2) by (metis add.commute diff_add_cancel le_less nonneg_int_cases zle_iff_zadd)
  have sp: "take k r = take k ls" and len: "k + length es \<le> length r"
    using syncEntries_spec [OF assms(1) [unfolded k]] assms(3) k by auto
  have k0: "0 < k" "k \<le> length ls" using assms(2,3) k by auto
  then have "take k ls \<noteq> []" using assms(4) by simp
  then have "r \<noteq> []" using sp by auto
  moreover have "hd r = hd (take k r)" using k0 by simp
  ultimately show ?thesis using sp k0 by simp
qed

lemma RequestVote_wf:
  assumes "node_wf rf"
  obtains rf' reply where "RequestVote now args rf = Some (rf', reply)" and "node_wf rf'"
proof -
  let ?rf1 = "if rvTerm args > currTerm rf
    then persist (rf\<lparr>rstate := 2, votedFor := -1, currTerm := rvTerm args\<rparr>) else rf"
  have l: "idx (logs ?rf1) (getPhysicalIndex ?rf1 (lastLogicalIndex ?rf1)) = Some (last (logs ?rf1))"
    using assms by (intro last_entry_exists) (simp add: node_wf_def)
  have "\<exists>rf' reply. RequestVote now args rf = Some (rf', reply) \<and> node_wf rf'"
    using l assms by (auto simp: RequestVote_def Let_def node_wf_def)
  then show thesis using that by blast
qed

lemma AppendEntries_wf:
  assumes "node_wf rf" and "AppendEntries now args rf = Some (rf', reply)"
  shows "node_wf rf'"
  using assms(2)
proof (cases rule: AppendEntries_cases)
  case (accept ls prev)
  have "ls \<noteq> [] \<and> hd ls = hd (logs rf)"
    using syncEntries_wf [OF accept(7)] accept(3,4) assms(1)
    by (auto simp: lastLogicalIndex_def node_wf_def)
  then show ?thesis using accept(8) assms(1) by (auto simp: node_wf_def)
qed (use assms(1) adopt_wf in auto)

lemma AppendEntries_total:
  assumes "node_wf rf"
  shows "AppendEntries now args rf \<noteq> None"
proof -
  define rf2 where "rf2 = adopt now (aeLeaderId args) (aeTerm args) rf"
  have wf2: "node_wf rf2" using assms adopt_wf rf2_def by simp
  let ?p = "aePrevLogIndex args" and ?lii = "lastIncludedIndex rf2"
  show ?thesis
  proof (cases "?lii \<le> ?p \<and> ?p \<le> lastLogicalIndex rf2")
    case True
    obtain prev where prev: "entryAt rf2 ?p = Some prev"
      using node_wf_idx [OF wf2] True by (auto simp: entryAt_def)
    obtain ci where ci: "conflictScan (logs rf2) ?lii (eTerm prev) ?p 0 = Some ci"
      using conflictScan_total [of ?p ?lii "logs rf2"] True by (auto simp: lastLogicalIndex_def)
    obtain ls where ls: "syncEntries ?lii (logs rf2) (?p + 1) (aeEntries args) = Some ls"
      using syncEntries_total [of ?lii "?p + 1"] True by auto
    show ?thesis
      using prev ci ls unfolding AppendEntries_eq rf2_def [symmetric] Let_def by simp
  next
    case False
    then show ?thesis unfolding AppendEntries_eq rf2_def [symmetric] Let_def by auto
  qed
qed

lemma findSplit_Some:
  "findSplit lii index term i es acc = Some k \<Longrightarrow>
     acc = Some k \<or> (\<exists>j < length es. k = i + j \<and> int k + lii = index \<and> eTerm (es ! j) = term)"
proof (induction es arbitrary: i acc)
  case Nil
  then show ?case by simp
next
  case (Cons e es)
  from Cons.IH [OF Cons.prems [simplified]] show ?case
    by (fastforce split: if_splits)
qed

lemma InstallSnapshot_wf:
  assumes "node_wf rf" and "InstallSnapshot now args rf = (rf', reply, msg)"
  shows "node_wf rf'"
  using assms(2)
proof (cases rule: InstallSnapshot_cases)
  case install
  then show ?thesis using assms(1) by (simp add: node_wf_def snapLog_def)
qed (use assms(1) adopt_wf in auto)

lemma Start_wf: "node_wf rf \<Longrightarrow> node_wf (snd (Start c rf))"
  by (auto simp: Start_def node_wf_def hd_append)

lemma Snapshot_wf:
  assumes "node_wf rf" and "index \<le> lastLogicalIndex rf"
  obtains rf' where "Snapshot index snap rf = Some rf'" and "node_wf rf'"
proof (cases "index \<le> lastIncludedIndex rf")
  case True
  then show thesis using that assms(1) by (simp add: Snapshot_def)
next
  case False
  then obtain e where e: "idx (logs rf) (getPhysicalIndex rf index) = Some e"
    using node_wf_idx [OF assms(1), of index] assms(2) by auto
  have "\<exists>rest. (if getPhysicalIndex rf index + 1 < int (length (logs rf))
      then sliceFrom (logs rf) (getPhysicalIndex rf (index + 1)) else Some []) = Some rest"
    using False by (simp add: sliceFrom_def index_defs)
  then obtain rest where rest: "(if getPhysicalIndex rf index + 1 < int (length (logs rf))
      then sliceFrom (logs rf) (getPhysicalIndex rf (index + 1)) else Some []) = Some rest"
    by blast
  show thesis
    using that assms(1) False e rest by (auto simp: Snapshot_def node_wf_def Let_def)
qed

lemma startElection_wf:
  assumes "node_wf rf"
  obtains rf' args where "startElection now rf = Some (rf', args)" and "node_wf rf'"
proof -
  let ?rf1 = "persist (rf\<lparr>currTerm := currTerm rf + 1, votedFor := me rf, timer := now, rstate := 1\<rparr>)"
  have "idx (logs ?rf1) (getPhysicalIndex ?rf1 (lastLogicalIndex ?rf1)) = Some (last (logs ?rf1))"
    using assms by (intro last_entry_exists) (simp add: node_wf_def)
  then show thesis using that assms by (auto simp: startElection_def Let_def node_wf_def)
qed

lemma voteStepDown_wf: "node_wf rf \<Longrightarrow> node_wf (voteStepDown reply rf)"
  by (simp add: voteStepDown_def node_wf_def)

lemma becomeLeader_wf: "node_wf rf \<Longrightarrow> node_wf (fst (becomeLeader t rf))"
  by (simp add: becomeLeader_def node_wf_def)

text \<open>What \<open>commitIndexUpdate\<close> asks of an index before it commits it.\<close>

definition committable :: "('c, 'v) Raft \<Rightarrow> int \<Rightarrow> bool" where
  "committable rf N \<longleftrightarrow>
     (case entryAt rf N of Some e \<Rightarrow> eTerm e = currTerm rf | None \<Rightarrow> False) \<and>
     matchCount rf N > int (npeers rf) div 2"

lemma commitScan_step:
  assumes "commitIndex rf < N" and "idx (logs rf) (getPhysicalIndex rf N) = Some e"
  shows "commitScan N rf =
    (if committable rf N then Some (rf\<lparr>commitIndex := N\<rparr>) else commitScan (N - 1) rf)"
  using assms by (subst commitScan.simps) (simp add: committable_def entryAt_def)

lemma commitScan_stop: "N \<le> commitIndex rf \<Longrightarrow> commitScan N rf = Some rf"
  by (subst commitScan.simps) simp

lemma commitScan_spec:
  assumes "node_wf rf" and "lastIncludedIndex rf \<le> commitIndex rf" and "N \<le> lastLogicalIndex rf"
  shows "\<exists>rf'. commitScan N rf = Some rf'
      \<and> (rf' = rf \<or> (\<exists>M. rf' = rf\<lparr>commitIndex := M\<rparr> \<and> commitIndex rf < M \<and> M \<le> N \<and> committable rf M))
      \<and> (\<forall>K. commitIndex rf' < K \<and> K \<le> N \<longrightarrow> \<not> committable rf K)"
  using assms(3)
proof (induction "nat (N - commitIndex rf)" arbitrary: N)
  case 0
  then show ?case by (auto simp: commitScan_stop)
next
  case (Suc d)
  then have gt: "commitIndex rf < N" by simp
  then obtain e where e: "idx (logs rf) (getPhysicalIndex rf N) = Some e"
    using node_wf_idx [OF assms(1), of N] assms(2) Suc.prems by auto
  show ?case
  proof (cases "committable rf N")
    case True
    then show ?thesis using commitScan_step [OF gt e] gt by auto
  next
    case False
    have "d = nat (N - 1 - commitIndex rf)" "N - 1 \<le> lastLogicalIndex rf"
      using Suc by auto
    from Suc.hyps(1) [OF this] obtain rf' where rf': "commitScan (N - 1) rf = Some rf'"
      "rf' = rf \<or> (\<exists>M. rf' = rf\<lparr>commitIndex := M\<rparr> \<and> commitIndex rf < M \<and> M \<le> N - 1 \<and> committable rf M)"
      "\<forall>K. commitIndex rf' < K \<and> K \<le> N - 1 \<longrightarrow> \<not> committable rf K"
      by blast
    have "\<forall>K. commitIndex rf' < K \<and> K \<le> N \<longrightarrow> \<not> committable rf K"
    proof (intro allI impI)
      fix K assume "commitIndex rf' < K \<and> K \<le> N"
      then show "\<not> committable rf K" using rf'(3) False by (cases "K = N") auto
    qed
    moreover have "commitScan N rf = Some rf'"
      using commitScan_step [OF gt e] False rf'(1) by simp
    moreover have "rf' = rf \<or> (\<exists>M. rf' = rf\<lparr>commitIndex := M\<rparr> \<and> commitIndex rf < M \<and> M \<le> N \<and> committable rf M)"
      using rf'(2) by (elim disjE exE conjE) (simp, intro disjI2 exI conjI, auto)
    ultimately show ?thesis by blast
  qed
qed

text \<open>
  The reply handlers of a leader either step down to the higher term of the reply or change
  nothing but the leader's bookkeeping.
\<close>

definition bookkeeping :: "('c, 'v) Raft \<Rightarrow> ('c, 'v) Raft \<Rightarrow> bool" where
  "bookkeeping rf rf' \<longleftrightarrow>
     rf'\<lparr>nextIndex := [], matchIndex := [], commitIndex := 0\<rparr> =
       rf\<lparr>nextIndex := [], matchIndex := [], commitIndex := 0\<rparr>
     \<and> length (nextIndex rf') = length (nextIndex rf)
     \<and> length (matchIndex rf') = length (matchIndex rf) \<and> commitIndex rf \<le> commitIndex rf'"

lemma bookkeeping_refl [simp]: "bookkeeping rf rf"
  by (simp add: bookkeeping_def)

lemma bookkeeping_trans: "bookkeeping rf rf' \<Longrightarrow> bookkeeping rf' rf'' \<Longrightarrow> bookkeeping rf rf''"
  by (simp add: bookkeeping_def)

lemma bookkeeping_sel:
  assumes "bookkeeping rf rf'"
  shows "npeers rf' = npeers rf"
    "persister rf' = persister rf"
    "me rf' = me rf"
    "dead rf' = dead rf"
    "currLeader rf' = currLeader rf"
    "currTerm rf' = currTerm rf"
    "votedFor rf' = votedFor rf"
    "rstate rf' = rstate rf"
    "logs rf' = logs rf"
    "timer rf' = timer rf"
    "lastIncludedIndex rf' = lastIncludedIndex rf"
    "lastIncludedTerm rf' = lastIncludedTerm rf"
    "lastApplied rf' = lastApplied rf"
proof -
  have eq: "rf'\<lparr>nextIndex := [], matchIndex := [], commitIndex := 0\<rparr> =
      rf\<lparr>nextIndex := [], matchIndex := [], commitIndex := 0\<rparr>"
    using assms by (simp add: bookkeeping_def)
  show "npeers rf' = npeers rf" using arg_cong [OF eq, of npeers] by simp
  show "persister rf' = persister rf" using arg_cong [OF eq, of persister] by simp
  show "me rf' = me rf" using arg_cong [OF eq, of me] by simp
  show "dead rf' = dead rf" using arg_cong [OF eq, of dead] by simp
  show "currLeader rf' = currLeader rf" using arg_cong [OF eq, of currLeader] by simp
  show "currTerm rf' = currTerm rf" using arg_cong [OF eq, of currTerm] by simp
  show "votedFor rf' = votedFor rf" using arg_cong [OF eq, of votedFor] by simp
  show "rstate rf' = rstate rf" using arg_cong [OF eq, of rstate] by simp
  show "logs rf' = logs rf" using arg_cong [OF eq, of logs] by simp
  show "timer rf' = timer rf" using arg_cong [OF eq, of timer] by simp
  show "lastIncludedIndex rf' = lastIncludedIndex rf" using arg_cong [OF eq, of lastIncludedIndex] by simp
  show "lastIncludedTerm rf' = lastIncludedTerm rf" using arg_cong [OF eq, of lastIncludedTerm] by simp
  show "lastApplied rf' = lastApplied rf" using arg_cong [OF eq, of lastApplied] by simp
qed

lemma bookkeeping_wf: "node_wf rf \<Longrightarrow> bookkeeping rf rf' \<Longrightarrow> node_wf rf'"
  using bookkeeping_sel [of rf rf'] by (auto simp: node_wf_def bookkeeping_def)

lemma setNext_bookkeeping: "setNext peer v rf = Some rf' \<Longrightarrow> bookkeeping rf rf'"
  by (auto simp: setNext_def bookkeeping_def bind_Some_iff setIdx_Some_iff)

lemma clampNext_bookkeeping: "clampNext peer rf = Some rf' \<Longrightarrow> bookkeeping rf rf'"
  by (auto simp: clampNext_def bind_Some_iff setNext_bookkeeping split: if_splits)

lemma commitScan_bookkeeping:
  "commitScan N rf = Some rf' \<Longrightarrow> bookkeeping rf rf'"
proof (induction N rf rule: commitScan.induct)
  case (1 N rf)
  show ?case
  proof (cases "commitIndex rf < N")
    case False
    then show ?thesis using "1.prems" by (simp add: commitScan_stop)
  next
    case True
    with "1.prems" obtain e where e: "idx (logs rf) (getPhysicalIndex rf N) = Some e"
      by (subst (asm) commitScan.simps) (auto split: option.splits)
    show ?thesis
    proof (cases "committable rf N")
      case c: True
      then show ?thesis
        using "1.prems" commitScan_step [OF True e] True by (auto simp: bookkeeping_def)
    next
      case c: False
      then have "commitScan (N - 1) rf = Some rf'" using "1.prems" commitScan_step [OF True e] by simp
      then show ?thesis using "1.IH" True e by (cases "eTerm e = currTerm rf") (use c in \<open>auto simp: committable_def entryAt_def\<close>)
    qed
  qed
qed

lemma commitIndexUpdate_bookkeeping: "commitIndexUpdate rf = Some rf' \<Longrightarrow> bookkeeping rf rf'"
  by (simp add: commitIndexUpdate_def commitScan_bookkeeping)

lemma matchIndex_bookkeeping:
  "setIdx (matchIndex rf) peer v = Some ms \<Longrightarrow> bookkeeping rf (rf\<lparr>matchIndex := ms\<rparr>)"
  by (auto simp: bookkeeping_def setIdx_Some_iff)

lemma appendReply_cases:
  assumes "appendReply now peer args reply rf = Some (rf', b)"
  obtains (down) "currTerm rf < aerTerm reply" "currTerm rf = aeTerm args" "\<not> b"
      "rf' = (persist (rf\<lparr>currTerm := aerTerm reply, votedFor := -1\<rparr>))\<lparr>rstate := 2, timer := now\<rparr>"
  | (book) "bookkeeping rf rf'"
proof (cases "currTerm rf = aeTerm args \<and> aerTerm reply > currTerm rf")
  case True
  then show thesis using down assms by (simp add: appendReply_def)
next
  case False
  have "bookkeeping rf rf'"
    using assms False
    by (auto simp: appendReply_def bind_Some_iff split: if_splits
        dest!: setNext_bookkeeping clampNext_bookkeeping commitIndexUpdate_bookkeeping matchIndex_bookkeeping
        intro: bookkeeping_trans)
  then show thesis by (rule book)
qed

lemma installReply_cases:
  assumes "installReply now peer args reply rf = Some rf'"
  obtains (down) "currTerm rf < isrTerm reply"
      "rf' = (persist (rf\<lparr>currTerm := isrTerm reply, rstate := 2, votedFor := -1\<rparr>))\<lparr>timer := now\<rparr>"
  | (book) "bookkeeping rf rf'"
proof (cases "isrTerm reply > currTerm rf")
  case True
  then show thesis using down assms by (simp add: installReply_def)
next
  case False
  have "bookkeeping rf rf'"
    using assms False
    by (auto simp: installReply_def bind_Some_iff split: if_splits
        dest!: setNext_bookkeeping matchIndex_bookkeeping intro: bookkeeping_trans)
  then show thesis by (rule book)
qed

lemma appendReply_wf: "node_wf rf \<Longrightarrow> appendReply now peer args reply rf = Some (rf', b) \<Longrightarrow> node_wf rf'"
  by (erule appendReply_cases) (simp add: node_wf_def, rule bookkeeping_wf)

lemma installReply_wf: "node_wf rf \<Longrightarrow> installReply now peer args reply rf = Some rf' \<Longrightarrow> node_wf rf'"
  by (erule installReply_cases) (simp add: node_wf_def, rule bookkeeping_wf)

lemma applyNext_cases:
  assumes "applyNext rf = Some (rf', msg)"
  obtains (idle) "rf' = rf" "msg = None"
  | (send) e where "entryAt rf (lastApplied rf + 1) = Some e" "lastApplied rf < commitIndex rf"
      "rf' = rf\<lparr>lastApplied := lastApplied rf + 1\<rparr>"
      "msg = Some (zeroApplyMsg\<lparr>CommandValid := True, Command := eCommand e,
                     CommandIndex := lastApplied rf + 1\<rparr>)"
proof (cases "lastApplied rf < commitIndex rf \<and> lastApplied rf + 1 \<le> lastLogicalIndex rf")
  case True
  with assms obtain e where "entryAt rf (lastApplied rf + 1) = Some e"
      "rf' = rf\<lparr>lastApplied := lastApplied rf + 1\<rparr>"
      "msg = Some (zeroApplyMsg\<lparr>CommandValid := True, Command := eCommand e,
                     CommandIndex := lastApplied rf + 1\<rparr>)"
    unfolding applyNext_def entryAt_def [symmetric] by (auto simp: bind_Some_iff)
  then show thesis using send True by blast
next
  case False
  then have "rf' = rf" "msg = None" using assms unfolding applyNext_def by (auto split: if_splits)
  then show thesis by (rule idle)
qed

lemma applyNext_wf: "node_wf rf \<Longrightarrow> applyNext rf = Some (rf', msg) \<Longrightarrow> node_wf rf'"
  by (erule applyNext_cases) (simp_all add: node_wf_def)

text \<open>
  The remaining critical sections do not panic either: the reply handlers for the index of a peer,
  as long as what is committed is not behind the snapshot, and the apply loop always.
\<close>

lemma applyNext_total: "node_wf rf \<Longrightarrow> applyNext rf \<noteq> None"
  using node_wf_idx [of rf "lastApplied rf + 1"] by (auto simp: applyNext_def node_wf_def)

lemma setNext_total: "node_wf rf \<Longrightarrow> p < npeers rf \<Longrightarrow> \<exists>rf'. setNext (int p) v rf = Some rf'"
  by (simp add: setNext_def node_wf_def go_simps)

lemma clampNext_total: "node_wf rf \<Longrightarrow> p < npeers rf \<Longrightarrow> \<exists>rf'. clampNext (int p) rf = Some rf'"
  using setNext_total [of rf p 1] by (simp add: clampNext_def node_wf_def go_simps)

lemma appendReply_total:
  assumes "node_wf rf" and "lastIncludedIndex rf \<le> commitIndex rf" and p: "p < npeers rf"
  shows "appendReply now (int p) args reply rf \<noteq> None"
proof -
  have fin: "\<exists>q. clampNext (int p) r = Some q" if "bookkeeping rf r" for r
    using clampNext_total [of r p] bookkeeping_wf [OF assms(1) that] bookkeeping_sel(1) [OF that] p by simp
  have next_fin: "\<exists>r q. setNext (int p) v rf = Some r \<and> clampNext (int p) r = Some q" for v
    using setNext_total [OF assms(1) p, of v] fin setNext_bookkeeping by blast
  have succ: "\<exists>r s q. setNext (int p) v (rf\<lparr>matchIndex := ms\<rparr>) = Some r \<and> commitIndexUpdate r = Some s
      \<and> clampNext (int p) s = Some q" if "bookkeeping rf (rf\<lparr>matchIndex := ms\<rparr>)" for v ms
  proof -
    have wf: "node_wf (rf\<lparr>matchIndex := ms\<rparr>)" using bookkeeping_wf [OF assms(1) that] .
    obtain r where r: "setNext (int p) v (rf\<lparr>matchIndex := ms\<rparr>) = Some r"
      using setNext_total [OF wf] p by auto
    have b: "bookkeeping rf r" using bookkeeping_trans [OF that setNext_bookkeeping [OF r]] .
    have "lastIncludedIndex r \<le> commitIndex r"
      using b bookkeeping_sel(11) [OF b] assms(2) by (simp add: bookkeeping_def)
    then obtain s where s: "commitIndexUpdate r = Some s"
      using commitScan_spec [OF bookkeeping_wf [OF assms(1) b] _ order.refl]
      by (auto simp: commitIndexUpdate_def)
    show ?thesis
      using r s fin [OF bookkeeping_trans [OF b commitIndexUpdate_bookkeeping [OF s]]] by blast
  qed
  have m: "idx (matchIndex rf) (int p) = Some (matchIndex rf ! p)"
      "\<And>v. setIdx (matchIndex rf) (int p) v = Some ((matchIndex rf)[p := v])"
      "\<And>v. idx ((matchIndex rf)[p := v]) (int p) = Some v"
    using assms(1) p by (simp_all add: node_wf_def go_simps)
  let ?v = "max (aePrevLogIndex args + int (length (aeEntries args))) (matchIndex rf ! p)"
  have "bookkeeping rf (rf\<lparr>matchIndex := (matchIndex rf)[p := ?v]\<rparr>)"
    by (simp add: bookkeeping_def)
  from succ [OF this, of "?v + 1"] obtain r s q where rsq:
    "setNext (int p) (?v + 1) (rf\<lparr>matchIndex := (matchIndex rf)[p := ?v]\<rparr>) = Some r"
    "commitIndexUpdate r = Some s" "clampNext (int p) s = Some q" by blast
  obtain r1 q1 where f1: "setNext (int p) (aerConflictIndex reply) rf = Some r1" "clampNext (int p) r1 = Some q1"
    using next_fin by blast
  let ?w = "case lastOfTerm (logs rf) (aerConflictTerm reply) (length (logs rf)) of
      Some i \<Rightarrow> getLogicalIndex rf (int i) + 1 | None \<Rightarrow> aerConflictIndex reply"
  obtain r2 q2 where f2: "setNext (int p) ?w rf = Some r2" "clampNext (int p) r2 = Some q2"
    using next_fin by blast
  have ex: "Ex Not" by (rule exI [of _ False]) simp
  have ex1: "Ex (\<lambda>b. b)" by (rule exI [of _ True]) simp
  show ?thesis
    unfolding appendReply_def goMax_max m rsq f1 f2 by (simp add: m rsq f1 f2 ex ex1)
qed

end
