(* ===== verification/Raft_Promises.thy ===== *)
theory Raft_Promises
  imports Raft_Invariants
begin

text \<open>
  What a peer may promise over time and what survives a crash: \<open>node_mono\<close> (terms never go back,
  one vote per term, roles within a term) and \<open>durable\<close> (the persisted state is the current one),
  shown for every critical section of \<open>raft.go\<close>.
\<close>

section \<open>What a peer may promise over time\<close>

text \<open>
  \<open>node_mono rf rf'\<close>: \<open>rf'\<close> is a later state of the same peer. Its term has not gone back;
  within one term a vote that was cast stands, a follower stays a follower and a leader never turns
  into a candidate.
\<close>

definition node_mono :: "('c, 'v) Raft \<Rightarrow> ('c, 'v) Raft \<Rightarrow> bool" where
  "node_mono rf rf' \<longleftrightarrow>
     me rf' = me rf \<and> npeers rf' = npeers rf \<and> currTerm rf \<le> currTerm rf' \<and>
     (currTerm rf' = currTerm rf \<longrightarrow>
        (votedFor rf \<noteq> -1 \<longrightarrow> votedFor rf' = votedFor rf) \<and>
        (rstate rf' = 1 \<longrightarrow> rstate rf = 1) \<and>
        (rstate rf' = 0 \<longrightarrow> rstate rf = 0 \<or> rstate rf = 1))"

lemma node_mono_refl [simp]: "node_mono rf rf"
  by (simp add: node_mono_def)

lemma node_mono_trans: "node_mono a b \<Longrightarrow> node_mono b c \<Longrightarrow> node_mono a c"
  by (auto simp: node_mono_def)

lemma RequestVote_mono: "RequestVote now args rf = Some (rf', reply) \<Longrightarrow> node_mono rf rf'"
  by (auto simp: RequestVote_def node_mono_def Let_def bind_Some_iff split: if_splits)

lemma adopt_mono: "currTerm rf \<le> t \<Longrightarrow> node_mono rf (adopt now l t rf)"
  by (simp add: node_mono_def)

lemma AppendEntries_mono: "AppendEntries now args rf = Some (rf', reply) \<Longrightarrow> node_mono rf rf'"
  by (erule AppendEntries_cases) (simp_all add: node_mono_def)

lemma InstallSnapshot_mono: "InstallSnapshot now args rf = (rf', reply, msg) \<Longrightarrow> node_mono rf rf'"
  by (erule InstallSnapshot_cases) (simp_all add: node_mono_def)

lemma Start_mono: "node_mono rf (snd (Start c rf))"
  by (simp add: Start_def node_mono_def)

lemma Snapshot_mono: "Snapshot index snap rf = Some rf' \<Longrightarrow> node_mono rf rf'"
  by (auto simp: Snapshot_def node_mono_def Let_def bind_Some_iff split: if_splits)

lemma Kill_mono: "node_mono rf (Kill rf)"
  by (simp add: Kill_def node_mono_def)

lemma startElection_mono: "startElection now rf = Some (rf', args) \<Longrightarrow> node_mono rf rf'"
  by (auto simp: startElection_def node_mono_def Let_def bind_Some_iff)

lemma voteStepDown_mono: "node_mono rf (voteStepDown reply rf)"
  by (simp add: voteStepDown_def node_mono_def)

lemma becomeLeader_mono: "node_mono rf (fst (becomeLeader t rf))"
  by (simp add: becomeLeader_def node_mono_def)

lemma bookkeeping_mono: "bookkeeping rf rf' \<Longrightarrow> node_mono rf rf'"
  using bookkeeping_sel [of rf rf'] by (simp add: node_mono_def)

lemma appendReply_mono: "appendReply now peer args reply rf = Some (rf', b) \<Longrightarrow> node_mono rf rf'"
  by (erule appendReply_cases) (simp add: node_mono_def, rule bookkeeping_mono)

lemma installReply_mono: "installReply now peer args reply rf = Some rf' \<Longrightarrow> node_mono rf rf'"
  by (erule installReply_cases) (simp add: node_mono_def, rule bookkeeping_mono)

lemma applyNext_mono: "applyNext rf = Some (rf', msg) \<Longrightarrow> node_mono rf rf'"
  by (auto simp: applyNext_def node_mono_def bind_Some_iff split: if_splits)

text \<open>A vote is granted only in the candidate's own term, and it is recorded.\<close>

lemma RequestVote_granted:
  assumes "RequestVote now args rf = Some (rf', reply)" and "rvrVoteGranted reply"
  shows "currTerm rf' = rvTerm args" and "votedFor rf' = rvCandidateId args" and "rvrTerm reply = rvTerm args"
    and "currTerm rf = rvTerm args \<Longrightarrow> votedFor rf = -1 \<or> votedFor rf = rvCandidateId args"
  using assms by (auto simp: RequestVote_def Let_def bind_Some_iff split: if_splits)

section \<open>Durability\<close>

text \<open>
  What \<open>Make\<close> reads back after a crash is the term, the vote, the log and the snapshot position
  the peer had: either the encoded state, or nothing was ever written and the state is still the
  initial one.
\<close>

definition pristine :: "('c, 'v) Raft \<Rightarrow> bool" where
  "pristine rf \<longleftrightarrow> currTerm rf = 0 \<and> votedFor rf = -1 \<and> logs rf = [\<lparr>eTerm = 0, eCommand = None\<rparr>] \<and>
     lastIncludedIndex rf = 0 \<and> lastIncludedTerm rf = 0"

definition durable :: "('c, 'v) Raft \<Rightarrow> bool" where
  "durable rf \<longleftrightarrow> ReadRaftState (persister rf) = encodeState rf \<or>
     ReadRaftState (persister rf) = [] \<and> pristine rf"

lemma decode_encode [simp]:
  "decodeState (encodeState rf) =
     Some (currTerm rf, votedFor rf, logs rf, lastIncludedIndex rf, lastIncludedTerm rf)"
  by (simp add: decodeState_def encodeState_def)

lemma encodeState_eq_iff:
  "encodeState rf = encodeState rf' \<longleftrightarrow>
     currTerm rf = currTerm rf' \<and> votedFor rf = votedFor rf' \<and> logs rf = logs rf' \<and>
     lastIncludedIndex rf = lastIncludedIndex rf' \<and> lastIncludedTerm rf = lastIncludedTerm rf'"
  by (simp add: encodeState_def)

lemma encodeState_not_Nil [simp]: "encodeState rf \<noteq> []" "[] \<noteq> encodeState rf"
  by (simp_all add: encodeState_def)

lemma durable_persist [simp]: "durable (persist rf)"
  by (simp add: durable_def encodeState_eq_iff)

lemma durable_saveBoth [simp]:
  "durable (rf\<lparr>persister := SaveStateAndSnapshot (encodeState rf) snap ps\<rparr>)"
  by (simp add: durable_def encodeState_eq_iff)

text \<open>Fields that are not persistent do not matter.\<close>

lemma durable_cong:
  assumes "ReadRaftState (persister rf') = ReadRaftState (persister rf)"
    and "currTerm rf' = currTerm rf" "votedFor rf' = votedFor rf" "logs rf' = logs rf"
    and "lastIncludedIndex rf' = lastIncludedIndex rf" "lastIncludedTerm rf' = lastIncludedTerm rf"
  shows "durable rf' \<longleftrightarrow> durable rf"
  using assms by (simp add: durable_def pristine_def encodeState_def)

lemma durable_volatile [simp]:
  "durable (rf\<lparr>timer := x\<rparr>) = durable rf" "durable (rf\<lparr>rstate := y\<rparr>) = durable rf"
  "durable (rf\<lparr>currLeader := z\<rparr>) = durable rf" "durable (rf\<lparr>commitIndex := z\<rparr>) = durable rf"
  "durable (rf\<lparr>lastApplied := z\<rparr>) = durable rf" "durable (rf\<lparr>nextIndex := n\<rparr>) = durable rf"
  "durable (rf\<lparr>dead := d\<rparr>) = durable rf"
  by (rule durable_cong; simp)+

lemma RequestVote_durable:
  "durable rf \<Longrightarrow> RequestVote now args rf = Some (rf', reply) \<Longrightarrow> durable rf'"
  by (auto simp: RequestVote_def Let_def bind_Some_iff split: if_splits)

lemma adopt_durable: "durable rf \<Longrightarrow> durable (adopt now l t rf)"
  by (simp add: adopt_def Let_def)

lemma commitUpTo_durable [simp]: "durable (commitUpTo c rf) = durable rf"
  by (simp add: commitUpTo_def)

lemma takeSnapshot_durable [simp]: "durable (takeSnapshot args rf)"
  unfolding takeSnapshot_def Let_def by (rule durable_saveBoth)

lemma AppendEntries_durable:
  "durable rf \<Longrightarrow> AppendEntries now args rf = Some (rf', reply) \<Longrightarrow> durable rf'"
  by (erule AppendEntries_cases) (simp_all add: adopt_durable)

lemma InstallSnapshot_durable:
  "durable rf \<Longrightarrow> InstallSnapshot now args rf = (rf', reply, msg) \<Longrightarrow> durable rf'"
  by (erule InstallSnapshot_cases) (simp_all add: adopt_durable)

lemma Start_durable: "durable rf \<Longrightarrow> durable (snd (Start c rf))"
  by (simp add: Start_def)

lemma Snapshot_durable: "durable rf \<Longrightarrow> Snapshot index snap rf = Some rf' \<Longrightarrow> durable rf'"
  by (auto simp: Snapshot_def Let_def bind_Some_iff split: if_splits)

lemma startElection_durable: "startElection now rf = Some (rf', args) \<Longrightarrow> durable rf'"
  by (auto simp: startElection_def Let_def bind_Some_iff)

lemma voteStepDown_durable: "durable rf \<Longrightarrow> durable (voteStepDown reply rf)"
  by (simp add: voteStepDown_def)

lemma becomeLeader_durable: "durable rf \<Longrightarrow> durable (fst (becomeLeader t rf))"
  by (simp add: becomeLeader_def durable_cong [of "rf\<lparr>rstate := 0, nextIndex := ns\<rparr>" rf for ns])

lemma bookkeeping_durable: "durable rf \<Longrightarrow> bookkeeping rf rf' \<Longrightarrow> durable rf'"
  using bookkeeping_sel [of rf rf'] durable_cong [of rf' rf] by simp

lemma appendReply_durable:
  "durable rf \<Longrightarrow> appendReply now peer args reply rf = Some (rf', b) \<Longrightarrow> durable rf'"
  by (erule appendReply_cases) (simp, rule bookkeeping_durable)

lemma installReply_durable:
  "durable rf \<Longrightarrow> installReply now peer args reply rf = Some rf' \<Longrightarrow> durable rf'"
  by (erule installReply_cases) (simp, rule bookkeeping_durable)

lemma applyNext_durable: "durable rf \<Longrightarrow> applyNext rf = Some (rf', msg) \<Longrightarrow> durable rf'"
  by (auto simp: applyNext_def bind_Some_iff split: if_splits)

text \<open>A restart from the peer's own storage.\<close>

lemma readPersist_recovers:
  assumes "durable rf" and "0 \<le> lastIncludedIndex rf"
    and "pristine r0" and "commitIndex r0 = 0" and "lastApplied r0 = 0"
  shows "readPersist (ReadRaftState (persister rf)) r0 =
    r0\<lparr>currTerm := currTerm rf, votedFor := votedFor rf, logs := logs rf,
       lastIncludedIndex := lastIncludedIndex rf, lastIncludedTerm := lastIncludedTerm rf,
       commitIndex := lastIncludedIndex rf, lastApplied := lastIncludedIndex rf\<rparr>"
proof (cases "ReadRaftState (persister rf) = []")
  case True
  then have "pristine rf" using assms(1) by (simp add: durable_def)
  then show ?thesis using True assms(3-5) by (cases r0) (simp add: readPersist_def pristine_def)
next
  case False
  then have "ReadRaftState (persister rf) = encodeState rf" using assms(1) by (simp add: durable_def)
  then show ?thesis using assms(2,4,5) by (cases r0) (simp add: readPersist_def Let_def)
qed

lemma Make_recovers:
  assumes "durable rf" and "node_wf rf" and "npeers rf = n" and "me rf = i"
    and "Make n i (persister rf) now = (rf', msg)"
  shows "currTerm rf' = currTerm rf" "votedFor rf' = votedFor rf" "logs rf' = logs rf"
    "lastIncludedIndex rf' = lastIncludedIndex rf" "lastIncludedTerm rf' = lastIncludedTerm rf"
    "rstate rf' = 2" "persister rf' = persister rf" "npeers rf' = npeers rf" "me rf' = me rf"
    "node_wf rf'" "durable rf'" "commitIndex rf' = lastIncludedIndex rf"
proof -
  define r0 :: "('a, 'b) Raft" where
    "r0 = \<lparr>npeers = n, persister = persister rf, me = i, dead = False, currLeader = 0, currTerm = 0,
           votedFor = -1, rstate = 2, logs = [\<lparr>eTerm = 0, eCommand = None\<rparr>], timer = now,
           lastIncludedIndex = 0, lastIncludedTerm = 0, commitIndex = 0, lastApplied = 0,
           nextIndex = replicate n 0, matchIndex = replicate n 0\<rparr>"
  have lii: "0 \<le> lastIncludedIndex rf" using assms(2) by (simp add: node_wf_def)
  have "rf' = r0\<lparr>currTerm := currTerm rf, votedFor := votedFor rf, logs := logs rf,
       lastIncludedIndex := lastIncludedIndex rf, lastIncludedTerm := lastIncludedTerm rf,
       commitIndex := lastIncludedIndex rf, lastApplied := lastIncludedIndex rf\<rparr>"
    using assms(5) readPersist_recovers [OF assms(1) lii, of r0]
    unfolding Make_def r0_def [symmetric] Let_def
    by (simp add: r0_def pristine_def split: if_splits)
  then show "currTerm rf' = currTerm rf" "votedFor rf' = votedFor rf" "logs rf' = logs rf"
    "lastIncludedIndex rf' = lastIncludedIndex rf" "lastIncludedTerm rf' = lastIncludedTerm rf"
    "rstate rf' = 2" "persister rf' = persister rf" "npeers rf' = npeers rf" "me rf' = me rf"
    "node_wf rf'" "durable rf'" "commitIndex rf' = lastIncludedIndex rf"
    using assms by (simp_all add: r0_def node_wf_def durable_def pristine_def encodeState_def)
qed

lemma Make_recovers_mono:
  assumes "durable rf" and "node_wf rf" and "npeers rf = n" and "me rf = i"
    and "Make n i (persister rf) now = (rf', msg)"
  shows "node_mono rf rf'"
  using Make_recovers [OF assms] by (simp add: node_mono_def)

lemma Make_fresh:
  "Make n i MakePersister now = (rf, msg) \<Longrightarrow> node_wf rf \<and> durable rf \<and> pristine rf \<and> rstate rf = 2
     \<and> npeers rf = n \<and> me rf = i \<and> msg = None \<and> commitIndex rf = 0 \<and> lastApplied rf = 0"
  by (auto simp: Make_def readPersist_def durable_def pristine_def node_wf_def Let_def persister_defs)

end
