(* ===== verification/Raft_Cluster.thy ===== *)
theory Raft_Cluster
  imports Raft_Promises
begin

text \<open>
  The peers of \<open>raft.go\<close> running together. A cluster state holds the peers, the goroutines and
  remote calls that are under way, and what each peer has sent on its \<open>applyCh\<close>. An event picks
  one of them and runs its next critical section; the peers' mutexes make critical sections atomic,
  and between two of them anything else may happen. The network is that of \<open>labrpc\<close>: a call is
  executed at most once, replies at most once, in any order, and either the request or the reply
  may be lost, in which case \<open>Call\<close> returns false and the reply struct keeps its zero value.
  A peer may crash at any moment and restart from its persister. The loops of a killed peer finish
  the round they are in; here they may make any number of further rounds. A panic ends the execution
  (\<open>None\<close>).
\<close>

section \<open>Goroutines and calls under way\<close>

datatype ('c, 'v) task =
    ElectionTask nat \<comment> \<open>\<open>go rf.startElection()\<close>\<close>
  | VoteCall nat nat RequestVoteArgs \<comment> \<open>candidate, peer: \<open>sendRequestVote\<close> under way\<close>
  | VoteRet nat nat int RequestVoteReply \<comment> \<open>the call returned to the goroutine of election \<open>startTerm\<close>\<close>
  | LeadTask nat int RequestVoteReply \<comment> \<open>about to run \<open>becomeLeader(startTerm)\<close>\<close>
  | StepDownTask nat RequestVoteReply \<comment> \<open>the rest of the goroutine after \<open>becomeLeader\<close>\<close>
  | HeartbeatTask nat \<comment> \<open>\<open>broadcastHeartbeat\<close>\<close>
  | ReplTask nat \<comment> \<open>\<open>go rf.replicationLog()\<close>\<close>
  | AppendTask nat nat \<comment> \<open>goroutine of \<open>makeAppendEntry\<close> for a peer\<close>
  | AppendCall nat nat "'c AppendEntriesArgs"
  | AppendRet nat nat "'c AppendEntriesArgs" AppendEntriesReply
  | SnapTask nat nat \<comment> \<open>\<open>sendInstallSnapshotToPeers(peer)\<close>\<close>
  | SnapCall nat nat "('c, 'v) InstallSnapshotArgs"
  | SnapRet nat nat "('c, 'v) InstallSnapshotArgs" InstallSnapshotReply
  | DeliverTask nat "('c, 'v) ApplyMsg" \<comment> \<open>\<open>go func() { rf.applyCh <- msg }\<close>\<close>
  | OrphanVote nat RequestVoteArgs \<comment> \<open>request whose sender has crashed\<close>
  | OrphanAppend nat "'c AppendEntriesArgs"
  | OrphanSnap nat "('c, 'v) InstallSnapshotArgs"

record ('c, 'v) cluster =
  nodes :: "nat \<Rightarrow> ('c, 'v) Raft"
  votes :: "nat \<Rightarrow> int \<Rightarrow> int" \<comment> \<open>the variable \<open>votes\<close> of the election of a peer in a term\<close>
  pool :: "('c, 'v) task list"
  applying :: "nat \<Rightarrow> ('c, 'v) ApplyMsg option" \<comment> \<open>message \<open>sendApplyMsg\<close> is about to send\<close>
  applyCh :: "nat \<Rightarrow> ('c, 'v) ApplyMsg list"

definition peersOf :: "nat \<Rightarrow> nat \<Rightarrow> nat list" where
  "peersOf n p = filter (\<lambda>q. q \<noteq> p) [0..<n]"

abbreviation setNode :: "nat \<Rightarrow> ('c, 'v) Raft \<Rightarrow> ('c, 'v) cluster \<Rightarrow> ('c, 'v) cluster" where
  "setNode p rf s \<equiv> s\<lparr>nodes := (nodes s)(p := rf)\<rparr>"

abbreviation spawn :: "('c, 'v) task list \<Rightarrow> ('c, 'v) cluster \<Rightarrow> ('c, 'v) cluster" where
  "spawn ts s \<equiv> s\<lparr>pool := pool s @ ts\<rparr>"

text \<open>The next critical section of a task, in a cluster from whose pool it has been taken.\<close>

fun runTask :: "nat \<Rightarrow> int \<Rightarrow> ('c, 'v) task \<Rightarrow> ('c, 'v) cluster \<Rightarrow> ('c, 'v) cluster option" where
  "runTask n now (ElectionTask p) s = do {
     (rf, args) \<leftarrow> startElection now (nodes s p);
     Some (spawn (map (\<lambda>q. VoteCall p q args) (peersOf n p))
            (setNode p rf (s\<lparr>votes := (votes s)(p := (votes s p)(currTerm rf := 1))\<rparr>))) }"
| "runTask n now (VoteCall p q args) s = do {
     (rf, reply) \<leftarrow> RequestVote now args (nodes s q);
     Some (spawn [VoteRet p q (rvTerm args) reply] (setNode q rf s)) }"
| "runTask n now (VoteRet p q t reply) s =
     (if voteStale t (nodes s p) then Some s
      else let (v, lead) = voteCount reply (votes s p t) (nodes s p);
               s1 = s\<lparr>votes := (votes s)(p := (votes s p)(t := v))\<rparr>
           in if lead then Some (spawn [LeadTask p t reply] s1)
              else Some (setNode p (voteStepDown reply (nodes s p)) s1))"
| "runTask n now (LeadTask p t reply) s =
     (let (rf, started) = becomeLeader t (nodes s p)
      in Some (spawn (StepDownTask p reply # (if started then [HeartbeatTask p] else [])) (setNode p rf s)))"
| "runTask n now (StepDownTask p reply) s = Some (setNode p (voteStepDown reply (nodes s p)) s)"
| "runTask n now (HeartbeatTask p) s =
     Some (if heartbeatRound (nodes s p)
           then spawn (map (AppendTask p) (peersOf n p) @ [HeartbeatTask p]) s else s)"
| "runTask n now (ReplTask p) s =
     Some (if replicationLog (nodes s p) then spawn (map (AppendTask p) (peersOf n p)) s else s)"
| "runTask n now (AppendTask p q) s = do {
     r \<leftarrow> buildAppendEntry (int q) (nodes s p);
     Some (spawn [case r of None \<Rightarrow> SnapTask p q | Some args \<Rightarrow> AppendCall p q args] s) }"
| "runTask n now (AppendCall p q args) s = do {
     (rf, reply) \<leftarrow> AppendEntries now args (nodes s q);
     Some (spawn [AppendRet p q args reply] (setNode q rf s)) }"
| "runTask n now (AppendRet p q args reply) s = do {
     (rf, snap) \<leftarrow> appendReply now (int q) args reply (nodes s p);
     Some (spawn (if snap then [SnapTask p q] else []) (setNode p rf s)) }"
| "runTask n now (SnapTask p q) s = Some (spawn [SnapCall p q (buildInstallSnapshot (nodes s p))] s)"
| "runTask n now (SnapCall p q args) s =
     (let (rf, reply, msg) = InstallSnapshot now args (nodes s q)
      in Some (spawn (SnapRet p q args reply # (case msg of None \<Rightarrow> [] | Some m \<Rightarrow> [DeliverTask q m]))
                 (setNode q rf s)))"
| "runTask n now (SnapRet p q args reply) s = do {
     rf \<leftarrow> installReply now (int q) args reply (nodes s p);
     Some (setNode p rf s) }"
| "runTask n now (DeliverTask q m) s = Some (s\<lparr>applyCh := (applyCh s)(q := applyCh s q @ [m])\<rparr>)"
| "runTask n now (OrphanVote q args) s = do {
     (rf, reply) \<leftarrow> RequestVote now args (nodes s q);
     Some (setNode q rf s) }"
| "runTask n now (OrphanAppend q args) s = do {
     (rf, reply) \<leftarrow> AppendEntries now args (nodes s q);
     Some (setNode q rf s) }"
| "runTask n now (OrphanSnap q args) s =
     (let (rf, reply, msg) = InstallSnapshot now args (nodes s q)
      in Some (spawn (case msg of None \<Rightarrow> [] | Some m \<Rightarrow> [DeliverTask q m]) (setNode q rf s)))"

text \<open>
  \<open>Call\<close> returns false: the request or the reply was lost. The vote goroutine does not look at
  the result of \<open>Call\<close> and goes on with the zero reply; the others stop.
\<close>

fun loseTask :: "('c, 'v) task \<Rightarrow> ('c, 'v) task list option" where
  "loseTask (VoteCall p q args) = Some [VoteRet p q (rvTerm args) zeroVoteReply]"
| "loseTask (VoteRet p q t reply) = Some [VoteRet p q t zeroVoteReply]"
| "loseTask (AppendCall p q args) = Some []"
| "loseTask (AppendRet p q args reply) = Some []"
| "loseTask (SnapCall p q args) = Some []"
| "loseTask (SnapRet p q args reply) = Some []"
| "loseTask (OrphanVote q args) = Some []"
| "loseTask (OrphanAppend q args) = Some []"
| "loseTask (OrphanSnap q args) = Some []"
| "loseTask _ = None"

text \<open>What is left of a task when peer \<open>p\<close> crashes: its goroutines end, its requests may arrive.\<close>

fun orphan :: "nat \<Rightarrow> ('c, 'v) task \<Rightarrow> ('c, 'v) task list" where
  "orphan p (ElectionTask p') = (if p' = p then [] else [ElectionTask p'])"
| "orphan p (VoteCall p' q args) = (if p' = p then [OrphanVote q args] else [VoteCall p' q args])"
| "orphan p (VoteRet p' q t r) = (if p' = p then [] else [VoteRet p' q t r])"
| "orphan p (LeadTask p' t r) = (if p' = p then [] else [LeadTask p' t r])"
| "orphan p (StepDownTask p' r) = (if p' = p then [] else [StepDownTask p' r])"
| "orphan p (HeartbeatTask p') = (if p' = p then [] else [HeartbeatTask p'])"
| "orphan p (ReplTask p') = (if p' = p then [] else [ReplTask p'])"
| "orphan p (AppendTask p' q) = (if p' = p then [] else [AppendTask p' q])"
| "orphan p (AppendCall p' q args) = (if p' = p then [OrphanAppend q args] else [AppendCall p' q args])"
| "orphan p (AppendRet p' q args r) = (if p' = p then [] else [AppendRet p' q args r])"
| "orphan p (SnapTask p' q) = (if p' = p then [] else [SnapTask p' q])"
| "orphan p (SnapCall p' q args) = (if p' = p then [OrphanSnap q args] else [SnapCall p' q args])"
| "orphan p (SnapRet p' q args r) = (if p' = p then [] else [SnapRet p' q args r])"
| "orphan p (DeliverTask q m) = (if q = p then [] else [DeliverTask q m])"
| "orphan p (OrphanVote q args) = [OrphanVote q args]"
| "orphan p (OrphanAppend q args) = [OrphanAppend q args]"
| "orphan p (OrphanSnap q args) = [OrphanSnap q args]"

section \<open>Events and executions\<close>

datatype ('c, 'v) event =
    Tick nat int int \<comment> \<open>one round of \<open>ticker\<close> of a peer: time, timeout\<close>
  | Run nat int \<comment> \<open>the next critical section of a task of the pool\<close>
  | Lose nat
  | ClientStart nat 'c \<comment> \<open>the service calls \<open>Start\<close>\<close>
  | TakeSnapshot nat int "('c, 'v) bytes" \<comment> \<open>the service calls \<open>Snapshot\<close>\<close>
  | ApplyStep nat \<comment> \<open>one round of the inner loop of \<open>sendApplyMsg\<close> up to the send\<close>
  | ApplySend nat
  | KillPeer nat
  | Crash nat int

fun stepc :: "nat \<Rightarrow> ('c, 'v) event \<Rightarrow> ('c, 'v) cluster \<Rightarrow> ('c, 'v) cluster option" where
  "stepc n (Tick p now timeout) s =
     (if p < n then Some (if tickerNeed now timeout (nodes s p) then spawn [ElectionTask p] s else s) else None)"
| "stepc n (Run k now) s =
     (if k < length (pool s)
      then runTask n now (pool s ! k) (s\<lparr>pool := take k (pool s) @ drop (Suc k) (pool s)\<rparr>) else None)"
| "stepc n (Lose k) s =
     (if k < length (pool s)
      then do {
        ts \<leftarrow> loseTask (pool s ! k);
        Some (spawn ts (s\<lparr>pool := take k (pool s) @ drop (Suc k) (pool s)\<rparr>)) } else None)"
| "stepc n (ClientStart p c) s =
     (if p < n
      then let ((index, term, isLeader), rf) = Start c (nodes s p)
           in Some (spawn (if isLeader then [ReplTask p] else []) (setNode p rf s)) else None)"
| "stepc n (TakeSnapshot p index snap) s =
     (if p < n \<and> index \<le> lastApplied (nodes s p)
      then do { rf \<leftarrow> Snapshot index snap (nodes s p); Some (setNode p rf s) } else None)"
| "stepc n (ApplyStep p) s =
     (if p < n \<and> applying s p = None
      then do {
        (rf, msg) \<leftarrow> applyNext (nodes s p);
        Some (setNode p rf (s\<lparr>applying := (applying s)(p := msg)\<rparr>)) } else None)"
| "stepc n (ApplySend p) s =
     (case applying s p of
        None \<Rightarrow> None
      | Some m \<Rightarrow> Some (s\<lparr>applying := (applying s)(p := None),
                         applyCh := (applyCh s)(p := applyCh s p @ [m])\<rparr>))"
| "stepc n (KillPeer p) s = (if p < n then Some (setNode p (Kill (nodes s p)) s) else None)"
| "stepc n (Crash p now) s =
     (if p < n
      then let (rf, msg) = Make n (int p) (Copy (persister (nodes s p))) now
           in Some (setNode p rf (s\<lparr>votes := (votes s)(p := (\<lambda>_. 0)),
                      pool := concat (map (orphan p) (pool s)) @
                        (case msg of None \<Rightarrow> [] | Some m \<Rightarrow> [DeliverTask p m]),
                      applying := (applying s)(p := None), applyCh := (applyCh s)(p := [])\<rparr>))
      else None)"

definition initCluster :: "nat \<Rightarrow> ('c, 'v) cluster" where
  "initCluster n = \<lparr>nodes = (\<lambda>p. fst (Make n (int p) MakePersister 0)), votes = (\<lambda>_ _. 0), pool = [],
     applying = (\<lambda>_. None), applyCh = (\<lambda>_. [])\<rparr>"

text \<open>An execution is the list of its states, the latest first.\<close>

inductive exec :: "nat \<Rightarrow> ('c, 'v) cluster list \<Rightarrow> bool" for n where
  start: "exec n [initCluster n]"
| step: "exec n (s # tr) \<Longrightarrow> stepc n e s = Some s' \<Longrightarrow> exec n (s' # s # tr)"

inductive_cases exec_ConsE: "exec n (s # tr)"

lemma exec_nonempty: "exec n tr \<Longrightarrow> tr \<noteq> []"
  by (cases rule: exec.cases) auto

end
