(* ===== verification/Raft_Election.thy ===== *)
theory Raft_Election
  imports Raft_Cluster
begin

text \<open>
  Election safety of the cluster: in one term at most one peer is ever leader, over a whole
  execution with lost messages, crashes and any interleaving of the goroutines. The argument is
  the one of the protocol, on the code's own bookkeeping: a vote stands for its term
  (\<open>node_mono\<close>) and survives a crash (\<open>durable\<close>), each goroutine of an election counts its
  peer once, and two majorities share a peer.
\<close>

section \<open>Every step respects the promises of every peer\<close>

definition node_step :: "('c, 'v) Raft \<Rightarrow> ('c, 'v) Raft \<Rightarrow> bool" where
  "node_step rf rf' \<longleftrightarrow> (node_wf rf \<and> durable rf \<longrightarrow> node_wf rf' \<and> durable rf' \<and> node_mono rf rf')"

lemma node_step_refl [simp]: "node_step rf rf"
  by (simp add: node_step_def)

named_theorems node_steps \<open>handlers as node steps\<close>

lemma RequestVote_step [node_steps]: "RequestVote now args rf = Some (rf', r) \<Longrightarrow> node_step rf rf'"
  unfolding node_step_def
  by (metis RequestVote_wf RequestVote_mono RequestVote_durable option.inject prod.inject)

lemma AppendEntries_step [node_steps]: "AppendEntries now args rf = Some (rf', r) \<Longrightarrow> node_step rf rf'"
  unfolding node_step_def by (metis AppendEntries_wf AppendEntries_mono AppendEntries_durable)

lemma InstallSnapshot_step [node_steps]: "InstallSnapshot now args rf = (rf', r, m) \<Longrightarrow> node_step rf rf'"
  unfolding node_step_def by (metis InstallSnapshot_wf InstallSnapshot_mono InstallSnapshot_durable)

lemma Start_step [node_steps]: "Start c rf = (r, rf') \<Longrightarrow> node_step rf rf'"
  unfolding node_step_def by (metis Start_wf Start_mono Start_durable snd_conv)

lemma Snapshot_step [node_steps]: "Snapshot index snap rf = Some rf' \<Longrightarrow> node_step rf rf'"
proof -
  assume s: "Snapshot index snap rf = Some rf'"
  have "index \<le> lastIncludedIndex rf \<or> index \<le> lastLogicalIndex rf"
    using s by (auto simp: Snapshot_def bind_Some_iff idx_def index_defs split: if_splits)
  then have "node_wf rf \<Longrightarrow> node_wf rf'"
  proof
    assume "index \<le> lastIncludedIndex rf"
    then show "node_wf rf \<Longrightarrow> node_wf rf'" using s by (simp add: Snapshot_def)
  next
    assume "index \<le> lastLogicalIndex rf"
    then show "node_wf rf \<Longrightarrow> node_wf rf'" using s by (metis Snapshot_wf option.inject)
  qed
  then show ?thesis
    unfolding node_step_def using Snapshot_mono [OF s] Snapshot_durable [OF _ s] by blast
qed

lemma startElection_step [node_steps]: "startElection now rf = Some (rf', args) \<Longrightarrow> node_step rf rf'"
  unfolding node_step_def
  by (metis startElection_wf startElection_mono startElection_durable option.inject prod.inject)

lemma voteStepDown_step [simp]: "node_step rf (voteStepDown r rf)"
  by (simp add: node_step_def voteStepDown_wf voteStepDown_mono voteStepDown_durable)

lemma becomeLeader_step [node_steps]: "becomeLeader t rf = (rf', b) \<Longrightarrow> node_step rf rf'"
  unfolding node_step_def by (metis becomeLeader_wf becomeLeader_mono becomeLeader_durable fst_conv)

lemma appendReply_step [node_steps]: "appendReply now peer args r rf = Some (rf', b) \<Longrightarrow> node_step rf rf'"
  unfolding node_step_def by (metis appendReply_wf appendReply_mono appendReply_durable)

lemma installReply_step [node_steps]: "installReply now peer args r rf = Some rf' \<Longrightarrow> node_step rf rf'"
  unfolding node_step_def by (metis installReply_wf installReply_mono installReply_durable)

lemma applyNext_step [node_steps]: "applyNext rf = Some (rf', m) \<Longrightarrow> node_step rf rf'"
  unfolding node_step_def by (metis applyNext_wf applyNext_mono applyNext_durable)

lemma Kill_step [simp]: "node_step rf (Kill rf)"
  by (simp add: node_step_def Kill_def node_wf_def node_mono_def)

lemma runTask_node_step:
  "runTask n now t s = Some s' \<Longrightarrow> node_step (nodes s p) (nodes s' p)"
  by (cases t)
     (auto simp: bind_Some_iff Let_def split: if_splits prod.splits dest: node_steps)

text \<open>A peer that restarts does so from its own storage, as the peer it was.\<close>

lemma Make_restart_step:
  assumes "Make n i (Copy (persister rf)) now = (rf', msg)" and "npeers rf = n" and "me rf = i"
  shows "node_step rf rf'"
proof -
  have "Copy (persister rf) = persister rf"
    by (cases "persister rf") (simp add: Copy_def MakePersister_def)
  then show ?thesis
    using assms Make_recovers Make_recovers_mono unfolding node_step_def by metis
qed

section \<open>Static well-formedness of the cluster\<close>

fun task_ok :: "nat \<Rightarrow> ('c, 'v) task \<Rightarrow> bool" where
  "task_ok n (ElectionTask p) = (p < n)"
| "task_ok n (VoteCall p q args) = (p < n \<and> q < n \<and> p \<noteq> q \<and> rvCandidateId args = int p)"
| "task_ok n (VoteRet p q t r) = (p < n \<and> q < n \<and> p \<noteq> q)"
| "task_ok n (LeadTask p t r) = (p < n)"
| "task_ok n (StepDownTask p r) = (p < n)"
| "task_ok n (HeartbeatTask p) = (p < n)"
| "task_ok n (ReplTask p) = (p < n)"
| "task_ok n (AppendTask p q) = (p < n \<and> q < n \<and> p \<noteq> q)"
| "task_ok n (AppendCall p q args) = (p < n \<and> q < n \<and> p \<noteq> q \<and> aeLeaderId args = int p)"
| "task_ok n (AppendRet p q args r) = (p < n \<and> q < n \<and> p \<noteq> q)"
| "task_ok n (SnapTask p q) = (p < n \<and> q < n \<and> p \<noteq> q)"
| "task_ok n (SnapCall p q args) = (p < n \<and> q < n \<and> p \<noteq> q \<and> isLeaderId args = int p)"
| "task_ok n (SnapRet p q args r) = (p < n \<and> q < n \<and> p \<noteq> q)"
| "task_ok n (DeliverTask q m) = (q < n)"
| "task_ok n (OrphanVote q args) = (q < n)"
| "task_ok n (OrphanAppend q args) = (q < n)"
| "task_ok n (OrphanSnap q args) = (q < n)"

definition node_ok :: "nat \<Rightarrow> nat \<Rightarrow> ('c, 'v) Raft \<Rightarrow> bool" where
  "node_ok n p rf \<longleftrightarrow> node_wf rf \<and> durable rf \<and> npeers rf = n \<and> me rf = int p"

definition cluster_ok :: "nat \<Rightarrow> ('c, 'v) cluster \<Rightarrow> bool" where
  "cluster_ok n s \<longleftrightarrow> (\<forall>p < n. node_ok n p (nodes s p)) \<and> (\<forall>t \<in> set (pool s). task_ok n t)"

lemma node_ok_step: "node_ok n p rf \<Longrightarrow> node_step rf rf' \<Longrightarrow> node_ok n p rf'"
  by (auto simp: node_ok_def node_step_def node_mono_def)

lemma node_ok_mono: "node_ok n p rf \<Longrightarrow> node_step rf rf' \<Longrightarrow> node_mono rf rf'"
  by (auto simp: node_ok_def node_step_def)

lemma Make_fresh_ok: "Make n (int p) MakePersister now = (rf, msg) \<Longrightarrow> node_ok n p rf"
  using Make_fresh unfolding node_ok_def by blast

lemma cluster_ok_init: "cluster_ok n (initCluster n)"
  unfolding cluster_ok_def initCluster_def by (simp add: Make_fresh_ok [OF prod.collapse [symmetric]])

lemma set_take_drop: "set (take k xs @ drop (Suc k) xs) \<subseteq> set xs"
  by (auto dest: in_set_takeD in_set_dropD)

lemma peersOf_iff [simp]: "q \<in> set (peersOf n p) \<longleftrightarrow> q < n \<and> q \<noteq> p"
  by (auto simp: peersOf_def)

lemma startElection_sel:
  assumes "startElection now rf = Some (rf', args)"
  shows "currTerm rf' = currTerm rf + 1" "votedFor rf' = me rf" "rstate rf' = 1"
    "rvTerm args = currTerm rf + 1" "rvCandidateId args = me rf"
    "rvLastLogIndex args = lastLogicalIndex rf" "logs rf' = logs rf"
    "lastIncludedIndex rf' = lastIncludedIndex rf" "me rf' = me rf"
  using assms by (auto simp: startElection_def Let_def bind_Some_iff index_defs)

lemma buildAppendEntry_sel:
  "buildAppendEntry peer rf = Some (Some args) \<Longrightarrow>
     aeTerm args = currTerm rf \<and> aeLeaderId args = me rf \<and> aeLeaderCommit args = commitIndex rf"
  by (auto simp: buildAppendEntry_def bind_Some_iff split: if_splits)

lemma runTask_pool_ok:
  assumes "\<forall>p < n. node_ok n p (nodes s p)" and "\<forall>t \<in> set (pool s). task_ok n t" and "task_ok n t"
    and "runTask n now t s = Some s'"
  shows "\<forall>t \<in> set (pool s'). task_ok n t"
proof (cases t)
  case (ElectionTask p)
  then show ?thesis using assms
    by (auto simp: bind_Some_iff node_ok_def startElection_sel(5))
next
  case (AppendTask p q)
  then show ?thesis using assms
    by (auto simp: bind_Some_iff node_ok_def dest!: buildAppendEntry_sel split: option.splits)
next
  case (SnapTask p q)
  then show ?thesis using assms by (auto simp: buildInstallSnapshot_def node_ok_def)
qed (use assms in \<open>auto simp: bind_Some_iff Let_def split: if_splits prod.splits option.splits\<close>)

lemma orphan_ok: "task_ok n t \<Longrightarrow> u \<in> set (orphan p t) \<Longrightarrow> task_ok n u"
  by (cases t) (auto split: if_splits)

lemma loseTask_ok: "task_ok n t \<Longrightarrow> loseTask t = Some ts \<Longrightarrow> u \<in> set ts \<Longrightarrow> task_ok n u"
  by (cases t) auto

text \<open>Every event keeps the cluster well formed and respects the promises of every peer.\<close>

lemma stepc_node_step:
  assumes "cluster_ok n s" and "stepc n e s = Some s'" and "p < n"
  shows "node_step (nodes s p) (nodes s' p)"
proof (cases e)
  case (Run k now)
  then show ?thesis
    using assms runTask_node_step [of n now "pool s ! k" _ s' p] by (fastforce split: if_splits)
next
  case (Crash q now)
  have "npeers (nodes s p) = n" "me (nodes s p) = int p"
    using assms(1,3) by (auto simp: cluster_ok_def node_ok_def)
  then show ?thesis
    using Crash assms(2) Make_restart_step [of n "int p" "nodes s p" now]
    by (auto simp: Let_def split: if_splits prod.splits)
qed (use assms in \<open>auto simp: bind_Some_iff Let_def split: if_splits prod.splits option.splits dest: node_steps\<close>)

lemma stepc_pool_ok:
  assumes "cluster_ok n s" and "stepc n e s = Some s'"
  shows "\<forall>t \<in> set (pool s'). task_ok n t"
proof (cases e)
  case (Run k now)
  have "task_ok n (pool s ! k)" if "k < length (pool s)"
    using assms(1) that by (auto simp: cluster_ok_def)
  then show ?thesis
    using Run assms runTask_pool_ok [of n "s\<lparr>pool := take k (pool s) @ drop (Suc k) (pool s)\<rparr>" "pool s ! k" now s']
      set_take_drop [of k "pool s"] by (fastforce simp: cluster_ok_def split: if_splits)
next
  case (Lose k)
  then show ?thesis
    using assms set_take_drop [of k "pool s"] loseTask_ok [of n "pool s ! k"]
    by (fastforce simp: cluster_ok_def bind_Some_iff split: if_splits)
next
  case (Crash p now)
  then show ?thesis
    using assms orphan_ok by (fastforce simp: cluster_ok_def Let_def split: if_splits prod.splits option.splits)
qed (use assms in \<open>auto simp: cluster_ok_def bind_Some_iff Let_def split: if_splits prod.splits option.splits\<close>)

lemma stepc_cluster_ok: "cluster_ok n s \<Longrightarrow> stepc n e s = Some s' \<Longrightarrow> cluster_ok n s'"
  using stepc_node_step [of n s e s'] stepc_pool_ok [of n s e s'] node_ok_step
  unfolding cluster_ok_def by blast

lemma exec_cluster_ok: "exec n tr \<Longrightarrow> s \<in> set tr \<Longrightarrow> cluster_ok n s"
  by (induction arbitrary: s rule: exec.induct) (auto simp: cluster_ok_init intro: stepc_cluster_ok)

text \<open>The latest state of an execution is later than every other one, for every peer.\<close>

lemma exec_node_mono:
  "exec n tr \<Longrightarrow> s0 \<in> set tr \<Longrightarrow> p < n \<Longrightarrow> node_mono (nodes s0 p) (nodes (hd tr) p)"
proof (induction rule: exec.induct)
  case start
  then show ?case by simp
next
  case (step s tr e s')
  have ok: "cluster_ok n s" using exec_cluster_ok [OF step.hyps(1)] by simp
  have "node_mono (nodes s p) (nodes s' p)"
    using stepc_node_step [OF ok step.hyps(2)] ok step.prems(2)
    by (auto simp: cluster_ok_def intro: node_ok_mono)
  then show ?case
    using step.IH step.prems node_mono_trans by auto
qed

section \<open>How roles change\<close>

text \<open>
  Only \<open>becomeLeader\<close> makes a leader: every other critical section leaves a leader only where there
  was one, in its term. A candidate has voted for itself.
\<close>

definition cand_ok :: "('c, 'v) Raft \<Rightarrow> bool" where
  "cand_ok rf \<longleftrightarrow> (rstate rf = 1 \<longrightarrow> votedFor rf = me rf)"

definition role_step :: "('c, 'v) Raft \<Rightarrow> ('c, 'v) Raft \<Rightarrow> bool" where
  "role_step rf rf' \<longleftrightarrow>
     (rstate rf' = 0 \<longrightarrow> rstate rf = 0 \<and> currTerm rf' = currTerm rf) \<and> (cand_ok rf \<longrightarrow> cand_ok rf')"

named_theorems role_steps \<open>critical sections that make no leader\<close>

lemma role_step_refl [simp]: "role_step rf rf"
  by (simp add: role_step_def)

lemma role_step_follower: "rstate rf' = 2 \<Longrightarrow> role_step rf rf'"
  by (simp add: role_step_def cand_ok_def)

lemma role_step_same:
  "rstate rf' = rstate rf \<Longrightarrow> currTerm rf' = currTerm rf \<Longrightarrow> votedFor rf' = votedFor rf \<Longrightarrow>
   me rf' = me rf \<Longrightarrow> role_step rf rf'"
  by (simp add: role_step_def cand_ok_def)

lemma RequestVote_role [role_steps]: "RequestVote now args rf = Some (rf', r) \<Longrightarrow> role_step rf rf'"
  by (auto simp: RequestVote_def Let_def bind_Some_iff split: if_splits intro: role_step_follower)

lemma AppendEntries_role [role_steps]: "AppendEntries now args rf = Some (rf', r) \<Longrightarrow> role_step rf rf'"
  by (erule AppendEntries_cases) (auto intro: role_step_follower)

lemma InstallSnapshot_role [role_steps]: "InstallSnapshot now args rf = (rf', r, m) \<Longrightarrow> role_step rf rf'"
  by (erule InstallSnapshot_cases) (auto intro: role_step_follower)

lemma Start_role [role_steps]: "Start c rf = (r, rf') \<Longrightarrow> role_step rf rf'"
  by (auto simp: Start_def split: if_splits intro: role_step_same)

lemma Snapshot_role [role_steps]: "Snapshot index snap rf = Some rf' \<Longrightarrow> role_step rf rf'"
  by (auto simp: Snapshot_def Let_def bind_Some_iff split: if_splits intro!: role_step_same)

lemma startElection_role [role_steps]: "startElection now rf = Some (rf', args) \<Longrightarrow> role_step rf rf'"
  using startElection_sel [of now rf rf' args] by (simp add: role_step_def cand_ok_def)

lemma voteStepDown_role [simp]: "role_step rf (voteStepDown r rf)"
  by (simp add: voteStepDown_def role_step_follower)

lemma appendReply_role [role_steps]: "appendReply now peer args r rf = Some (rf', b) \<Longrightarrow> role_step rf rf'"
  by (erule appendReply_cases) (simp add: role_step_follower, simp add: role_step_same bookkeeping_sel)

lemma installReply_role [role_steps]: "installReply now peer args r rf = Some rf' \<Longrightarrow> role_step rf rf'"
  by (erule installReply_cases) (simp add: role_step_follower, simp add: role_step_same bookkeeping_sel)

lemma applyNext_role [role_steps]: "applyNext rf = Some (rf', m) \<Longrightarrow> role_step rf rf'"
  by (auto simp: applyNext_def bind_Some_iff split: if_splits intro!: role_step_same)

lemma Kill_role [simp]: "role_step rf (Kill rf)"
  by (simp add: Kill_def role_step_same)

lemma Make_role [role_steps]: "Make n i ps now = (rf', m) \<Longrightarrow> role_step rf rf'"
  by (rule role_step_follower) (auto simp: Make_def readPersist_def Let_def split: option.splits)

lemma becomeLeader_role:
  assumes "becomeLeader t rf = (rf', b)" and "rstate rf' = 0"
  shows "rstate rf = 0 \<or> currTerm rf' = t" and "currTerm rf' = currTerm rf" and "cand_ok rf'"
  using assms by (auto simp: becomeLeader_def cand_ok_def split: if_splits)

text \<open>The task an event runs, if it runs one.\<close>

fun isLead :: "('c, 'v) task \<Rightarrow> bool" where
  "isLead (LeadTask p t r) = True"
| "isLead _ = False"

lemma runTask_role:
  "runTask n now t s = Some s' \<Longrightarrow> \<not> isLead t \<Longrightarrow> role_step (nodes s p) (nodes s' p)"
  by (cases t) (auto simp: bind_Some_iff Let_def split: if_splits prod.splits dest: role_steps)

lemma stepc_role:
  assumes "stepc n e s = Some s'" and "\<And>k now. e = Run k now \<Longrightarrow> \<not> isLead (pool s ! k)"
  shows "role_step (nodes s p) (nodes s' p)"
proof (cases e)
  case (Run k now)
  then show ?thesis
    using assms runTask_role [of n now "pool s ! k" _ s' p] by (fastforce split: if_splits)
qed (use assms in \<open>auto simp: bind_Some_iff Let_def split: if_splits prod.splits option.splits dest: role_steps\<close>)

section \<open>The votes of an election\<close>

text \<open>
  \<open>voted tr q t p\<close>: somewhere in the execution, peer \<open>q\<close> has given its vote of term \<open>t\<close> to \<open>p\<close>.
  A vote goroutine of an election is identified by the candidate, the peer and the term.
\<close>

definition voted :: "('c, 'v) cluster list \<Rightarrow> nat \<Rightarrow> int \<Rightarrow> nat \<Rightarrow> bool" where
  "voted tr q t p \<longleftrightarrow> (\<exists>s \<in> set tr. currTerm (nodes s q) = t \<and> votedFor (nodes s q) = int p)"

definition elected :: "nat \<Rightarrow> (nat \<Rightarrow> int \<Rightarrow> nat \<Rightarrow> bool) \<Rightarrow> int \<Rightarrow> nat \<Rightarrow> bool" where
  "elected n V t p \<longleftrightarrow> (\<exists>Q. majority n Q \<and> (\<forall>q \<in> Q. V q t p))"

fun voteKey :: "('c, 'v) task \<Rightarrow> (nat \<times> nat \<times> int) option" where
  "voteKey (VoteCall p q args) = Some (p, q, rvTerm args)"
| "voteKey (VoteRet p q t r) = Some (p, q, t)"
| "voteKey _ = None"

definition voteKeys :: "('c, 'v) task list \<Rightarrow> (nat \<times> nat \<times> int) list" where
  "voteKeys ts = List.map_filter voteKey ts"

definition tally :: "nat \<Rightarrow> (nat \<Rightarrow> int \<Rightarrow> nat \<Rightarrow> bool) \<Rightarrow> ('c, 'v) cluster \<Rightarrow> nat \<Rightarrow> int \<Rightarrow> nat set \<Rightarrow> bool" where
  "tally n V s p t C \<longleftrightarrow> C \<subseteq> {..<n} - {p} \<and> votes s p t \<le> 1 + int (card C) \<and>
     (\<forall>q \<in> C. V q t p \<and> (p, q, t) \<notin> set (voteKeys (pool s)))"

definition elect_inv :: "nat \<Rightarrow> (nat \<Rightarrow> int \<Rightarrow> nat \<Rightarrow> bool) \<Rightarrow> ('c, 'v) cluster \<Rightarrow> bool" where
  "elect_inv n V s \<longleftrightarrow>
     distinct (voteKeys (pool s)) \<and>
     (\<forall>(p, q, t) \<in> set (voteKeys (pool s)). t \<le> currTerm (nodes s p)) \<and>
     (\<forall>p q t r. VoteRet p q t r \<in> set (pool s) \<and> rvrVoteGranted r \<longrightarrow> V q t p) \<and>
     (\<forall>p t. \<exists>C. tally n V s p t C) \<and>
     (\<forall>p < n. cand_ok (nodes s p)) \<and>
     (\<forall>p t r. LeadTask p t r \<in> set (pool s) \<longrightarrow> elected n V t p) \<and>
     (\<forall>p < n. rstate (nodes s p) = 0 \<longrightarrow> elected n V (currTerm (nodes s p)) p)"

lemma elect_invD:
  assumes "elect_inv n V s"
  shows "distinct (voteKeys (pool s))"
    and "\<And>p q t. (p, q, t) \<in> set (voteKeys (pool s)) \<Longrightarrow> t \<le> currTerm (nodes s p)"
    and "\<And>p q t r. VoteRet p q t r \<in> set (pool s) \<Longrightarrow> rvrVoteGranted r \<Longrightarrow> V q t p"
    and "\<And>p t. \<exists>C. tally n V s p t C"
    and "\<And>p. p < n \<Longrightarrow> cand_ok (nodes s p)"
    and "\<And>p t r. LeadTask p t r \<in> set (pool s) \<Longrightarrow> elected n V t p"
    and "\<And>p. p < n \<Longrightarrow> rstate (nodes s p) = 0 \<Longrightarrow> elected n V (currTerm (nodes s p)) p"
  using assms unfolding elect_inv_def by blast+

lemma voteKeys_simps [simp]:
  "voteKeys [] = []"
  "voteKeys (t # ts) = (case voteKey t of None \<Rightarrow> voteKeys ts | Some k \<Rightarrow> k # voteKeys ts)"
  "voteKeys (ts @ us) = voteKeys ts @ voteKeys us"
  by (simp_all add: voteKeys_def map_filter_simps map_filter_def split: option.splits)

lemma in_voteKeys: "k \<in> set (voteKeys ts) \<longleftrightarrow> (\<exists>t \<in> set ts. voteKey t = Some k)"
  by (induction ts) (auto split: option.splits)

lemma voteKeys_none: "(\<And>t. t \<in> set ts \<Longrightarrow> voteKey t = None) \<Longrightarrow> voteKeys ts = []"
  by (induction ts) auto

lemma voteKeys_calls [simp]:
  "voteKeys (map (\<lambda>q. VoteCall p q args) qs) = map (\<lambda>q. (p, q, rvTerm args)) qs"
  by (induction qs) auto

lemma voteKeys_remove:
  assumes "k < length ts"
  shows "voteKeys ts = voteKeys (take k ts) @ voteKeys [ts ! k] @ voteKeys (drop (Suc k) ts)"
  using arg_cong [where f = voteKeys, OF id_take_nth_drop [OF assms]] by (simp split: option.splits)

lemma voteKeys_orphan: "voteKeys (orphan p t) = (case voteKey t of Some k \<Rightarrow> if fst k = p then [] else [k] | None \<Rightarrow> [])"
  by (cases t) auto

lemma voteKeys_orphans:
  "voteKeys (concat (map (orphan p) ts)) = filter (\<lambda>k. fst k \<noteq> p) (voteKeys ts)"
  by (induction ts) (auto simp: voteKeys_orphan split: option.splits)

lemma elected_mono: "elected n V t p \<Longrightarrow> (\<And>q. V q t p \<Longrightarrow> V' q t p) \<Longrightarrow> elected n V' t p"
  unfolding elected_def by blast

lemma voted_mono: "voted tr q t p \<Longrightarrow> voted (s # tr) q t p"
  by (auto simp: voted_def)

lemma tally_mono:
  assumes "tally n V s p t C" and "\<And>q. V q t p \<Longrightarrow> V' q t p" and "votes s' p t = votes s p t"
    and "\<And>q. (p, q, t) \<in> set (voteKeys (pool s')) \<Longrightarrow> (p, q, t) \<in> set (voteKeys (pool s))"
  shows "tally n V' s' p t C"
  using assms unfolding tally_def by auto

lemma tally_reset: "votes s p t \<le> 1 \<Longrightarrow> tally n V s p t {}"
  by (simp add: tally_def)

text \<open>
  What a step has to respect: it creates at most one goroutine per candidate, peer and term, and
  whatever it counts or makes leader is backed by votes.
\<close>

lemma elect_inv_step:
  assumes inv: "elect_inv n V s" and V: "\<And>q t p. V q t p \<Longrightarrow> V' q t p"
    and dist: "distinct (voteKeys (pool s'))"
    and keys: "\<And>p q t. (p, q, t) \<in> set (voteKeys (pool s')) \<Longrightarrow>
                (p, q, t) \<in> set (voteKeys (pool s)) \<and> p < n \<or> t \<le> currTerm (nodes s' p)"
    and ret: "\<And>p q t r. VoteRet p q t r \<in> set (pool s') \<Longrightarrow> rvrVoteGranted r \<Longrightarrow>
               VoteRet p q t r \<in> set (pool s) \<or> V' q t p"
    and lead: "\<And>p t r. LeadTask p t r \<in> set (pool s') \<Longrightarrow> LeadTask p t r \<in> set (pool s) \<or> elected n V' t p"
    and tal: "\<And>p t. votes s' p t = votes s p t \<and>
                (\<forall>q. (p, q, t) \<in> set (voteKeys (pool s')) \<longrightarrow> (p, q, t) \<in> set (voteKeys (pool s))) \<or>
                (\<exists>C. tally n V' s' p t C)"
    and role: "\<And>p. p < n \<Longrightarrow> role_step (nodes s p) (nodes s' p) \<or>
                 cand_ok (nodes s' p) \<and> elected n V' (currTerm (nodes s' p)) p"
    and tm: "\<And>p. p < n \<Longrightarrow> currTerm (nodes s p) \<le> currTerm (nodes s' p)"
  shows "elect_inv n V' s'"
proof -
  note D = elect_invD [OF inv]
  have el: "elected n V t p \<Longrightarrow> elected n V' t p" for t p
    using V by (blast intro: elected_mono)
  have "\<exists>C. tally n V' s' p t C" for p t
    using tal [of p t]
  proof
    assume same: "votes s' p t = votes s p t \<and>
      (\<forall>q. (p, q, t) \<in> set (voteKeys (pool s')) \<longrightarrow> (p, q, t) \<in> set (voteKeys (pool s)))"
    obtain C where "tally n V s p t C" using D(4) by blast
    then have "tally n V' s' p t C" using V same by (auto elim!: tally_mono)
    then show ?thesis by blast
  qed
  moreover have "t \<le> currTerm (nodes s' p)" if "(p, q, t) \<in> set (voteKeys (pool s'))" for p q t
    using keys [OF that] D(2) tm by (meson order_trans)
  moreover have "cand_ok (nodes s' p)" if "p < n" for p
    using role [OF that] D(5) [OF that] by (auto simp: role_step_def)
  moreover have "elected n V' (currTerm (nodes s' p)) p" if "p < n" "rstate (nodes s' p) = 0" for p
    using role [OF that(1)]
  proof
    assume "role_step (nodes s p) (nodes s' p)"
    then have "elected n V (currTerm (nodes s' p)) p"
      using that(2) D(7) [OF that(1)] by (simp add: role_step_def)
    then show ?thesis by (rule el)
  qed simp
  moreover have "elected n V' t p" if "LeadTask p t r \<in> set (pool s')" for p t r
    using lead [OF that] D(6) el by blast
  moreover have "V' q t p" if "VoteRet p q t r \<in> set (pool s')" "rvrVoteGranted r" for p q t r
    using ret [OF that] D(3) that(2) V by blast
  ultimately show ?thesis
    unfolding elect_inv_def using dist by blast
qed

lemma elect_inv_quiet:
  assumes "elect_inv n V s" and "\<And>q t p. V q t p \<Longrightarrow> V' q t p"
    and "distinct (voteKeys (pool s'))" and "set (voteKeys (pool s')) \<subseteq> set (voteKeys (pool s))"
    and "\<And>p q t. (p, q, t) \<in> set (voteKeys (pool s)) \<Longrightarrow> p < n"
    and "\<And>p q t r. VoteRet p q t r \<in> set (pool s') \<Longrightarrow> rvrVoteGranted r \<Longrightarrow>
           VoteRet p q t r \<in> set (pool s) \<or> V' q t p"
    and "\<And>p t r. LeadTask p t r \<in> set (pool s') \<Longrightarrow> LeadTask p t r \<in> set (pool s)"
    and "\<And>p t. votes s' p t = votes s p t \<or> votes s' p t \<le> 1"
    and "\<And>p. p < n \<Longrightarrow> role_step (nodes s p) (nodes s' p) \<or>
           cand_ok (nodes s' p) \<and> elected n V' (currTerm (nodes s' p)) p"
    and "\<And>p. p < n \<Longrightarrow> currTerm (nodes s p) \<le> currTerm (nodes s' p)"
  shows "elect_inv n V' s'"
  using assms(1-3)
proof (rule elect_inv_step)
  show "votes s' p t = votes s p t \<and>
      (\<forall>q. (p, q, t) \<in> set (voteKeys (pool s')) \<longrightarrow> (p, q, t) \<in> set (voteKeys (pool s))) \<or>
      (\<exists>C. tally n V' s' p t C)" for p t
    using assms(4) assms(8) [of p t] tally_reset [of s' p t n V'] by blast
qed (use assms(4-) in blast)+

text \<open>Tasks and events that touch no election.\<close>

fun isElection :: "('c, 'v) task \<Rightarrow> bool" where
  "isElection (ElectionTask p) = True"
| "isElection _ = False"

definition quietTask :: "('c, 'v) task \<Rightarrow> bool" where
  "quietTask t \<longleftrightarrow> voteKey t = None \<and> \<not> isLead t"

lemma quietTask_simps [simp]:
  "quietTask (ElectionTask p)" "quietTask (StepDownTask p r)" "quietTask (HeartbeatTask p)"
  "quietTask (ReplTask p)" "quietTask (AppendTask p q)" "quietTask (AppendCall p q a)"
  "quietTask (AppendRet p q a b)" "quietTask (SnapTask p q)" "quietTask (SnapCall p q c)"
  "quietTask (SnapRet p q c d)" "quietTask (DeliverTask p m)" "quietTask (OrphanVote q v)"
  "quietTask (OrphanAppend q a)" "quietTask (OrphanSnap q c)"
  "\<not> quietTask (VoteCall p q v)" "\<not> quietTask (VoteRet p q t r)" "\<not> quietTask (LeadTask p t r)"
  by (simp_all add: quietTask_def)

lemma voteKeys_quiet: "list_all quietTask ts \<Longrightarrow> voteKeys ts = []"
  by (rule voteKeys_none) (auto simp: list_all_iff quietTask_def)

lemma list_all_map_peers [simp]: "list_all quietTask (map (AppendTask p) qs)"
  by (simp add: list_all_iff)

lemma runTask_quiet:
  "runTask n now t s = Some s' \<Longrightarrow> quietTask t \<Longrightarrow> \<not> isElection t \<Longrightarrow>
     \<exists>ts. pool s' = pool s @ ts \<and> list_all quietTask ts \<and> votes s' = votes s"
  by (cases t) (auto simp: bind_Some_iff Let_def split: if_splits prod.splits option.splits)

lemma keys_removed:
  assumes "distinct (voteKeys ts)" and "k < length ts"
  defines "K0 \<equiv> voteKeys (take k ts @ drop (Suc k) ts)"
  shows "distinct K0" and "set K0 \<subseteq> set (voteKeys ts)"
    and "voteKey (ts ! k) = Some key \<Longrightarrow> key \<notin> set K0 \<and> key \<in> set (voteKeys ts)"
  using assms(1) voteKeys_remove [OF assms(2)] unfolding K0_def by (auto split: option.splits)

lemma cluster_ok_keys: "cluster_ok n s \<Longrightarrow> (p, q, t) \<in> set (voteKeys (pool s)) \<Longrightarrow> p < n \<and> q < n \<and> p \<noteq> q"
proof -
  assume ok: "cluster_ok n s" and "(p, q, t) \<in> set (voteKeys (pool s))"
  then obtain u where "u \<in> set (pool s)" and key: "voteKey u = Some (p, q, t)" by (auto simp: in_voteKeys)
  then have "task_ok n u" using ok by (simp add: cluster_ok_def)
  then show ?thesis using key by (cases u) auto
qed

text \<open>The four kinds of step that matter.\<close>

lemma elect_ElectionTask:
  assumes inv: "elect_inv n V s" and V: "\<And>q t p. V q t p \<Longrightarrow> V' q t p" and ok: "cluster_ok n s"
    and run: "runTask n now (ElectionTask p) s = Some s'" and "p < n"
  shows "elect_inv n V' s'"
proof -
  note D = elect_invD [OF inv]
  obtain rf args where el: "startElection now (nodes s p) = Some (rf, args)"
    and s': "s' = spawn (map (\<lambda>q. VoteCall p q args) (peersOf n p))
            (setNode p rf (s\<lparr>votes := (votes s)(p := (votes s p)(currTerm rf := 1))\<rparr>))"
    using run by (auto simp: bind_Some_iff)
  note sel = startElection_sel [OF el]
  have keys: "voteKeys (pool s') = voteKeys (pool s) @ map (\<lambda>q. (p, q, rvTerm args)) (peersOf n p)"
    by (simp add: s' voteKeys_calls)
  have new: "(p, q, rvTerm args) \<notin> set (voteKeys (pool s))" for q
    using D(2) [of p q "rvTerm args"] sel(4) by auto
  have pool: "u \<in> set (pool s)" if "u \<in> set (pool s')" "\<And>q a. u \<noteq> VoteCall p q a" for u
    using that by (auto simp: s')
  show ?thesis
  proof (rule elect_inv_step [OF inv V])
    show "distinct (voteKeys (pool s'))"
      using D(1) new by (auto simp: keys distinct_map peersOf_def inj_on_def)
    show "(p', q, t) \<in> set (voteKeys (pool s)) \<and> p' < n \<or> t \<le> currTerm (nodes s' p')"
      if "(p', q, t) \<in> set (voteKeys (pool s'))" for p' q t
      using that sel(1,4) cluster_ok_keys [OF ok] by (auto simp: keys s')
    show "votes s' p' t = votes s p' t \<and>
        (\<forall>q. (p', q, t) \<in> set (voteKeys (pool s')) \<longrightarrow> (p', q, t) \<in> set (voteKeys (pool s))) \<or>
        (\<exists>C. tally n V' s' p' t C)" for p' t
      using sel(1,4) tally_reset [of s' p "rvTerm args" n V'] by (auto simp: keys s')
    show "role_step (nodes s q) (nodes s' q) \<or> cand_ok (nodes s' q) \<and> elected n V' (currTerm (nodes s' q)) q" for q
      using runTask_role [OF run, of q] by simp
    show "currTerm (nodes s q) \<le> currTerm (nodes s' q)" for q
      using sel(1) by (simp add: s')
  qed (use pool in blast)+
qed

text \<open>In the following the task is number \<open>k\<close> of the pool of \<open>s\<close>, and \<open>rest k s\<close> is the cluster without it.\<close>

definition rest :: "nat \<Rightarrow> ('c, 'v) cluster \<Rightarrow> ('c, 'v) cluster" where
  "rest k s = s\<lparr>pool := take k (pool s) @ drop (Suc k) (pool s)\<rparr>"

lemma rest_sel [simp]:
  "nodes (rest k s) = nodes s" "votes (rest k s) = votes s"
  "pool (rest k s) = take k (pool s) @ drop (Suc k) (pool s)"
  by (simp_all add: rest_def)

lemma elect_VoteCall:
  assumes inv: "elect_inv n V s" and V: "\<And>q t p. V q t p \<Longrightarrow> V' q t p" and ok: "cluster_ok n s"
    and k: "k < length (pool s)" "pool s ! k = VoteCall p q args"
    and run: "runTask n now (VoteCall p q args) (rest k s) = Some s'"
    and now: "\<And>q p. votedFor (nodes s' q) = int p \<Longrightarrow> V' q (currTerm (nodes s' q)) p"
  shows "elect_inv n V' s'"
proof -
  note D = elect_invD [OF inv] and K = keys_removed [OF elect_invD(1) [OF inv] k(1)]
  obtain rf reply where rv: "RequestVote now args (nodes s q) = Some (rf, reply)"
    and s': "s' = spawn [VoteRet p q (rvTerm args) reply] (setNode q rf (rest k s))"
    using run by (auto simp: bind_Some_iff)
  have "task_ok n (VoteCall p q args)" using ok k nth_mem [OF k(1)] by (auto simp: cluster_ok_def)
  then have cand: "rvCandidateId args = int p" by simp
  have "V' q (rvTerm args) p" if "rvrVoteGranted reply"
    using RequestVote_granted(1,2) [OF rv that] now [of q p] cand by (simp add: s')
  then show ?thesis
    using K(3) [of "(p, q, rvTerm args)"] K(1,2) k(2) cluster_ok_keys [OF ok]
      runTask_role [OF run] RequestVote_mono [OF rv]
    by (intro elect_inv_quiet [OF inv V]) (auto simp: s' node_mono_def dest: in_set_takeD in_set_dropD)
qed

lemma elect_LeadTask:
  assumes inv: "elect_inv n V s" and V: "\<And>q t p. V q t p \<Longrightarrow> V' q t p" and ok: "cluster_ok n s"
    and k: "k < length (pool s)" "pool s ! k = LeadTask p t r"
    and run: "runTask n now (LeadTask p t r) (rest k s) = Some s'"
  shows "elect_inv n V' s'"
proof -
  note D = elect_invD [OF inv] and K = keys_removed [OF elect_invD(1) [OF inv] k(1)]
  obtain rf b where bl: "becomeLeader t (nodes s p) = (rf, b)"
    and s': "s' = spawn (StepDownTask p r # (if b then [HeartbeatTask p] else [])) (setNode p rf (rest k s))"
    using run by (auto simp: Let_def split: prod.splits)
  have "elected n V t p" using D(6) k nth_mem [OF k(1)] by metis
  then have el: "elected n V' t p" by (rule elected_mono) (rule V)
  have "rf = nodes s p \<or> cand_ok rf \<and> currTerm rf = t"
    using bl by (auto simp: becomeLeader_def cand_ok_def split: if_splits)
  then have role: "role_step (nodes s q) (nodes s' q) \<or> cand_ok (nodes s' q) \<and> elected n V' (currTerm (nodes s' q)) q" for q
    using el by (auto simp: s')
  show ?thesis
    using K(1,2) cluster_ok_keys [OF ok] becomeLeader_mono [of "nodes s p" t] bl
    by (intro elect_inv_quiet [OF inv V _ _ _ _ _ _ role]) (auto simp: s' node_mono_def dest: in_set_takeD in_set_dropD)
qed

lemma elect_VoteRet:
  assumes inv: "elect_inv n V s" and V: "\<And>q t p. V q t p \<Longrightarrow> V' q t p" and ok: "cluster_ok n s"
    and k: "k < length (pool s)" "pool s ! k = VoteRet p q t r"
    and run: "runTask n now (VoteRet p q t r) (rest k s) = Some s'"
    and now: "\<And>q p. votedFor (nodes s' q) = int p \<Longrightarrow> V' q (currTerm (nodes s' q)) p"
  shows "elect_inv n V' s'"
proof (cases "voteStale t (nodes s p) \<or> \<not> rvrVoteGranted r")
  case True
  then have "pool s' = pool (rest k s) \<and> votes s' = votes s"
    using run by (auto simp: voteCount_def Let_def split: if_splits prod.splits)
  moreover have "node_mono (nodes s p) (nodes s' p)" for p
    using run voteStepDown_mono by (auto simp: Let_def split: if_splits prod.splits)
  ultimately show ?thesis
    using keys_removed [OF elect_invD(1) [OF inv] k(1)] cluster_ok_keys [OF ok] runTask_role [OF run]
    by (intro elect_inv_quiet [OF inv V]) (auto simp: node_mono_def dest: in_set_takeD in_set_dropD)
next
  case False
  note D = elect_invD [OF inv] and K = keys_removed [OF elect_invD(1) [OF inv] k(1)]
  have "task_ok n (VoteRet p q t r)" using ok k nth_mem [OF k(1)] by (auto simp: cluster_ok_def)
  then have pq: "p < n" "q < n" "p \<noteq> q" by auto
  have np: "npeers (nodes s p) = n" "me (nodes s p) = int p" using ok pq by (auto simp: cluster_ok_def node_ok_def)
  have cand: "rstate (nodes s p) = 1" "currTerm (nodes s p) = t" using False by (auto simp: voteStale_def)
  have key: "(p, q, t) \<notin> set (voteKeys (pool (rest k s)))" "(p, q, t) \<in> set (voteKeys (pool s))"
    using K(3) [of "(p, q, t)"] k(2) by auto
  obtain C where C: "tally n V s p t C" using D(4) by blast
  define C' where "C' = insert q C"
  have "V q t p" using D(3) k False nth_mem [OF k(1)] by metis
  moreover have "q \<notin> C" "finite C" using C key(2) by (auto simp: tally_def intro: finite_subset)
  ultimately have C': "C' \<subseteq> {..<n} - {p}" "votes s p t + 1 \<le> 1 + int (card C')" "\<forall>q' \<in> C'. V' q' t p"
    "\<forall>q' \<in> C'. (p, q', t) \<notin> set (voteKeys (pool (rest k s)))"
    using C pq V key(1) K(2) by (auto simp: tally_def C'_def)
  have nodes: "role_step (nodes s x) (nodes s' x)" "currTerm (nodes s x) \<le> currTerm (nodes s' x)" for x
    using runTask_role [OF run, of x] run voteStepDown_mono [of "nodes s p" r]
    by (auto simp: Let_def node_mono_def split: if_splits prod.splits)
  have vts: "votes s' = (votes s)(p := (votes s p)(t := votes s p t + 1))"
    using run False by (auto simp: voteCount_def Let_def split: if_splits)
  have pool: "pool s' = pool (rest k s) \<or>
      pool s' = pool (rest k s) @ [LeadTask p t r] \<and> nodes s' = nodes s \<and> int n div 2 < votes s p t + 1"
    using run False np by (auto simp: voteCount_def Let_def split: if_splits)
  have keys: "voteKeys (pool s') = voteKeys (pool (rest k s))" using pool by auto
  have "tally n V' s' p t C'"
    using C' keys by (simp add: tally_def vts)
  moreover have el: "elected n V' t p" if "LeadTask p t r \<in> set (pool s')" "LeadTask p t r \<notin> set (pool s)"
  proof -
    have lead: "nodes s' = nodes s" "int n div 2 < votes s p t + 1"
      using pool that by (auto dest: in_set_takeD in_set_dropD)
    have "V' p t p" using now [of p p] D(5) [OF pq(1)] cand np lead(1) by (simp add: cand_ok_def)
    moreover have "finite C'" "p \<notin> C'" using C'(1) by (auto intro: finite_subset)
    ultimately show ?thesis
      using C' lead(2) pq unfolding elected_def majority_def
      by (intro exI [of _ "insert p C'"]) auto
  qed
  moreover have sub: "u \<in> set (pool s) \<or> u = LeadTask p t r" if "u \<in> set (pool s')" for u
    using pool that by (auto dest: in_set_takeD in_set_dropD)
  have lead: "LeadTask x y z \<in> set (pool s) \<or> elected n V' y x" if "LeadTask x y z \<in> set (pool s')" for x y z
    using sub [OF that] el that by auto
  have "distinct (voteKeys (pool s'))" "set (voteKeys (pool s')) \<subseteq> set (voteKeys (pool s))"
    using keys K(1,2) by auto
  ultimately show ?thesis
    using cluster_ok_keys [OF ok] nodes
    by (intro elect_inv_step [OF inv V _ _ _ lead]) (auto simp: vts dest: sub)
qed

text \<open>Every event preserves the election invariant.\<close>

lemma elect_inv_rest:
  assumes inv: "elect_inv n V s" and ok: "cluster_ok n s" and k: "k < length (pool s)"
  shows "elect_inv n V (rest k s)"
  using keys_removed(1,2) [OF elect_invD(1) [OF inv] k] cluster_ok_keys [OF ok]
  by (intro elect_inv_quiet [OF inv]) (auto dest: in_set_takeD in_set_dropD)

lemma cluster_ok_rest: "cluster_ok n s \<Longrightarrow> cluster_ok n (rest k s)"
  by (auto simp: cluster_ok_def dest: in_set_takeD in_set_dropD)

lemma elect_quietTask:
  assumes inv: "elect_inv n V s" and V: "\<And>q t p. V q t p \<Longrightarrow> V' q t p" and ok: "cluster_ok n s"
    and run: "runTask n now u s = Some s'" and u: "quietTask u" "\<not> isElection u"
  shows "elect_inv n V' s'"
proof -
  obtain ts where ts: "pool s' = pool s @ ts" "list_all quietTask ts" "votes s' = votes s"
    using runTask_quiet [OF run u] by blast
  have tm: "currTerm (nodes s p) \<le> currTerm (nodes s' p)" if "p < n" for p
    using runTask_node_step [OF run, of p] ok that node_ok_mono [of n p "nodes s p" "nodes s' p"]
    by (auto simp: cluster_ok_def node_mono_def)
  have role: "role_step (nodes s p) (nodes s' p)" for p
    using runTask_role [OF run] u(1) by (simp add: quietTask_def)
  show ?thesis
    using elect_invD(1) [OF inv] cluster_ok_keys [OF ok] voteKeys_quiet [OF ts(2)] ts tm role
    by (intro elect_inv_quiet [OF inv V]) (auto simp: list_all_iff quietTask_def)
qed

lemma elect_Run:
  assumes inv: "elect_inv n V s" and V: "\<And>q t p. V q t p \<Longrightarrow> V' q t p" and ok: "cluster_ok n s"
    and run: "stepc n (Run k now) s = Some s'"
    and now: "\<And>q p. votedFor (nodes s' q) = int p \<Longrightarrow> V' q (currTerm (nodes s' q)) p"
  shows "elect_inv n V' s'"
proof -
  have k: "k < length (pool s)" and run': "runTask n now (pool s ! k) (rest k s) = Some s'"
    using run by (auto simp: rest_def split: if_splits)
  have tok: "task_ok n (pool s ! k)" using ok k by (auto simp: cluster_ok_def)
  note rest = elect_inv_rest [OF inv ok k] V cluster_ok_rest [OF ok]
  show ?thesis
  proof (cases "pool s ! k")
    case (ElectionTask p)
    then show ?thesis using elect_ElectionTask [OF rest] run' tok by simp
  next
    case (VoteCall p q args)
    from inv V ok k VoteCall run' [unfolded VoteCall] now show ?thesis by (rule elect_VoteCall)
  next
    case (VoteRet p q t r)
    from inv V ok k VoteRet run' [unfolded VoteRet] now show ?thesis by (rule elect_VoteRet)
  next
    case (LeadTask p t r)
    from inv V ok k LeadTask run' [unfolded LeadTask] show ?thesis by (rule elect_LeadTask)
  qed (rule elect_quietTask [OF rest run']; simp)+
qed

lemma orphan_keeps: "u \<in> set (orphan p t) \<Longrightarrow> \<not> quietTask u \<Longrightarrow> u = t"
  by (cases t) (auto split: if_splits)

lemma elect_Crash:
  assumes inv: "elect_inv n V s" and V: "\<And>q t p. V q t p \<Longrightarrow> V' q t p" and ok: "cluster_ok n s"
    and st: "stepc n (Crash p now) s = Some s'"
  shows "elect_inv n V' s'"
proof -
  have pool: "\<exists>ts. pool s' = concat (map (orphan p) (pool s)) @ ts \<and> list_all quietTask ts"
    and vts: "votes s' = (votes s)(p := (\<lambda>_. 0))"
    using st by (auto simp: Let_def split: if_splits prod.splits option.splits)
  then obtain ts where ts: "pool s' = concat (map (orphan p) (pool s)) @ ts" "list_all quietTask ts" by blast
  have keys: "voteKeys (pool s') = filter (\<lambda>k. fst k \<noteq> p) (voteKeys (pool s))"
    by (simp add: ts(1) voteKeys_quiet [OF ts(2)] voteKeys_orphans)
  have sub: "u \<in> set (pool s)" if u: "u \<in> set (pool s')" "\<not> quietTask u" for u
  proof -
    obtain t where "t \<in> set (pool s)" "u \<in> set (orphan p t)"
      using u ts by (auto simp: list_all_iff)
    then show ?thesis using u(2) orphan_keeps by blast
  qed
  have "currTerm (nodes s q) \<le> currTerm (nodes s' q)" if "q < n" for q
    using stepc_node_step [OF ok st that] ok that node_ok_mono [of n q "nodes s q" "nodes s' q"]
    by (auto simp: cluster_ok_def node_mono_def)
  then show ?thesis
    using elect_invD(1) [OF inv] cluster_ok_keys [OF ok] stepc_role [OF st]
    by (intro elect_inv_quiet [OF inv V]) (auto simp: keys vts dest: sub)
qed

lemma elect_Lose:
  assumes inv: "elect_inv n V s" and V: "\<And>q t p. V q t p \<Longrightarrow> V' q t p" and ok: "cluster_ok n s"
    and st: "stepc n (Lose k) s = Some s'"
  shows "elect_inv n V' s'"
proof -
  obtain ts where k: "k < length (pool s)" and lose: "loseTask (pool s ! k) = Some ts"
    and s': "s' = spawn ts (rest k s)"
    using st by (auto simp: rest_def bind_Some_iff split: if_splits)
  note K = keys_removed [OF elect_invD(1) [OF inv] k]
  have ts: "ts = [] \<or> (\<exists>p q t. ts = [VoteRet p q t zeroVoteReply] \<and> voteKey (pool s ! k) = Some (p, q, t))"
    using lose by (cases "pool s ! k") auto
  have "distinct (voteKeys (pool s'))" "set (voteKeys (pool s')) \<subseteq> set (voteKeys (pool s))"
    using ts K by (auto simp: s')
  then show ?thesis
    using cluster_ok_keys [OF ok] ts
    by (intro elect_inv_quiet [OF inv V]) (auto simp: s' zeroVoteReply_def dest: in_set_takeD in_set_dropD)
qed

lemma elect_other:
  assumes inv: "elect_inv n V s" and V: "\<And>q t p. V q t p \<Longrightarrow> V' q t p" and ok: "cluster_ok n s"
    and st: "stepc n e s = Some s'"
    and e: "\<And>k now. e \<noteq> Run k now" "\<And>k. e \<noteq> Lose k" "\<And>p now. e \<noteq> Crash p now"
  shows "elect_inv n V' s'"
proof -
  have "\<exists>ts. pool s' = pool s @ ts \<and> list_all quietTask ts \<and> votes s' = votes s"
    using st e by (cases e) (auto simp: bind_Some_iff Let_def split: if_splits prod.splits option.splits)
  then obtain ts where ts: "pool s' = pool s @ ts" "list_all quietTask ts" "votes s' = votes s" by blast
  have tm: "currTerm (nodes s q) \<le> currTerm (nodes s' q)" if "q < n" for q
    using stepc_node_step [OF ok st that] ok that node_ok_mono [of n q "nodes s q" "nodes s' q"]
    by (auto simp: cluster_ok_def node_mono_def)
  have role: "role_step (nodes s p) (nodes s' p)" for p
    using stepc_role [OF st] e(1) by blast
  show ?thesis
    using elect_invD(1) [OF inv] cluster_ok_keys [OF ok] voteKeys_quiet [OF ts(2)] ts tm role
    by (intro elect_inv_quiet [OF inv V]) (auto simp: list_all_iff quietTask_def)
qed

lemma stepc_elect_inv:
  assumes inv: "elect_inv n V s" and V: "\<And>q t p. V q t p \<Longrightarrow> V' q t p" and ok: "cluster_ok n s"
    and st: "stepc n e s = Some s'"
    and now: "\<And>q p. votedFor (nodes s' q) = int p \<Longrightarrow> V' q (currTerm (nodes s' q)) p"
  shows "elect_inv n V' s'"
proof (cases e)
  case (Run k t)
  from inv V ok st [unfolded Run] now show ?thesis by (rule elect_Run)
next
  case (Lose k)
  from inv V ok st [unfolded Lose] show ?thesis by (rule elect_Lose)
next
  case (Crash p t)
  from inv V ok st [unfolded Crash] show ?thesis by (rule elect_Crash)
qed (rule elect_other [OF inv V ok st]; simp)+

lemma initCluster_sel [simp]:
  "pool (initCluster n) = []" "votes (initCluster n) p t = 0" "rstate (nodes (initCluster n) p) = 2"
  by (simp_all add: initCluster_def Make_def readPersist_def Let_def persister_defs)

lemma tally_init: "Ex (tally n V (initCluster n) p t)"
  using tally_reset [of "initCluster n" p t n V] by auto

lemma exec_elect_inv: "exec n tr \<Longrightarrow> elect_inv n (voted tr) (hd tr)"
proof (induction rule: exec.induct)
  case start
  then show ?case by (simp add: elect_inv_def cand_ok_def tally_init)
next
  case (step s tr e s')
  have ok: "cluster_ok n s" using exec_cluster_ok [OF step.hyps(1)] by simp
  have "elect_inv n (voted (s' # s # tr)) s'"
    using step.IH [unfolded list.sel] voted_mono ok step.hyps(2)
    by (rule stepc_elect_inv) (auto simp: voted_def)
  then show ?case by simp
qed

section \<open>Election safety\<close>

text \<open>Two states of an execution are comparable, peer by peer.\<close>

lemma exec_suffix: "exec n (tr1 @ s # tr2) \<Longrightarrow> exec n (s # tr2)"
  by (induction tr1) (auto elim: exec_ConsE intro: exec.start simp: append_eq_Cons_conv)

lemma exec_comparable:
  assumes "exec n tr" and "s1 \<in> set tr" and "s2 \<in> set tr" and "p < n"
  shows "node_mono (nodes s1 p) (nodes s2 p) \<or> node_mono (nodes s2 p) (nodes s1 p)"
proof -
  obtain tr1 tr2 where tr: "tr = tr1 @ s1 # tr2" using assms(2) by (meson split_list)
  show ?thesis
  proof (cases "s2 \<in> set (s1 # tr2)")
    case True
    then show ?thesis using exec_node_mono [OF exec_suffix [OF assms(1) [unfolded tr]] True assms(4)] by simp
  next
    case False
    then obtain us vs where "tr1 = us @ s2 # vs" using assms(3) tr by (metis Un_iff set_append split_list)
    then have "exec n (s2 # vs @ s1 # tr2)" using assms(1) tr exec_suffix [of n us s2] by simp
    from exec_node_mono [OF this, of s1 p] assms(4) show ?thesis by simp
  qed
qed

text \<open>A peer votes at most once in a term, over its crashes and restarts.\<close>

lemma voted_once:
  assumes "exec n tr" and "q < n" and "voted tr q t p" and "voted tr q t p'"
  shows "p = p'"
proof -
  obtain s1 s2 where s: "s1 \<in> set tr" "currTerm (nodes s1 q) = t" "votedFor (nodes s1 q) = int p"
      "s2 \<in> set tr" "currTerm (nodes s2 q) = t" "votedFor (nodes s2 q) = int p'"
    using assms(3,4) by (auto simp: voted_def)
  from exec_comparable [OF assms(1) s(1,4) assms(2)] show ?thesis
    using s by (auto simp: node_mono_def)
qed

lemma leader_elected:
  "exec n tr \<Longrightarrow> s \<in> set tr \<Longrightarrow> p < n \<Longrightarrow> rstate (nodes s p) = 0 \<Longrightarrow>
     elected n (voted tr) (currTerm (nodes s p)) p"
proof -
  assume ex: "exec n tr" and s: "s \<in> set tr" and p: "p < n" "rstate (nodes s p) = 0"
  obtain tr1 tr2 where tr: "tr = tr1 @ s # tr2" using s by (meson split_list)
  have "elected n (voted (s # tr2)) (currTerm (nodes s p)) p"
    using elect_invD(7) [OF exec_elect_inv [OF exec_suffix [OF ex [unfolded tr]]]] p by simp
  then show ?thesis by (rule elected_mono) (auto simp: voted_def tr)
qed

lemma leader_unique:
  assumes "exec n tr" and "s1 \<in> set tr" and "s2 \<in> set tr" and "p < n" and "q < n"
    and "rstate (nodes s1 p) = 0" and "rstate (nodes s2 q) = 0"
    and "currTerm (nodes s1 p) = currTerm (nodes s2 q)"
  shows "p = q"
proof -
  obtain Q R where "majority n Q" "\<And>v. v \<in> Q \<Longrightarrow> voted tr v (currTerm (nodes s1 p)) p"
    and "majority n R" "\<And>v. v \<in> R \<Longrightarrow> voted tr v (currTerm (nodes s1 p)) q"
    using leader_elected [OF assms(1,2,4,6)] leader_elected [OF assms(1,3,5,7)] assms(8)
    by (auto simp: elected_def)
  then show ?thesis
    using maj.unique_choice [of n Q R "\<lambda>v c. voted tr v (currTerm (nodes s1 p)) c" p q] voted_once [OF assms(1)]
    by blast
qed

end
