(* ===== verification/Raft_Log.thy ===== *)
theory Raft_Log
  imports Raft_Election
begin

text \<open>
  Log matching: over a whole execution, two logs that agree on the term of the entry at an index
  agree on everything up to it. A log is seen as the set of its links, an entry with its index and
  the term of its predecessor. A link enters the cluster only when a leader runs \<open>Start\<close>, and a
  leader never reuses an index in its term; every other step only moves links around.
\<close>

section \<open>Links of a log\<close>

fun links :: "int \<Rightarrow> 'c LogEntry list \<Rightarrow> (int \<times> int \<times> int \<times> 'c option) set" where
  "links b (e # f # es) = insert (b + 1, eTerm f, eTerm e, eCommand f) (links (b + 1) (f # es))"
| "links b [e] = {}"
| "links b [] = {}"

lemma links_iff:
  "(i, t, t', c) \<in> links b ls \<longleftrightarrow>
     (\<exists>k. Suc k < length ls \<and> i = b + 1 + int k \<and> t = eTerm (ls ! Suc k) \<and> t' = eTerm (ls ! k) \<and>
          c = eCommand (ls ! Suc k))"
proof (induction b ls rule: links.induct)
  case (1 b e f es)
  have "(\<exists>k. Suc k < length (e # f # es) \<and> P k) \<longleftrightarrow> P 0 \<or> (\<exists>k. Suc k < length (f # es) \<and> P (Suc k))" for P
    by (auto simp: less_Suc_eq_0_disj)
  with 1 show ?case by (auto simp: algebra_simps)
qed auto

lemma links_take: "links b (take k ls) \<subseteq> links b ls"
  by (auto simp: links_iff)

lemma links_drop: "links (b + int k) (drop k ls) \<subseteq> links b ls"
proof
  fix x assume "x \<in> links (b + int k) (drop k ls)"
  then obtain i t t' c j where x: "x = (i, t, t', c)" and j: "Suc j < length ls - k" "i = b + int k + 1 + int j"
      "t = eTerm (ls ! (k + Suc j))" "t' = eTerm (ls ! (k + j))" "c = eCommand (ls ! (k + Suc j))"
    by (cases x) (auto simp: links_iff)
  then show "x \<in> links b ls"
    unfolding x links_iff by (intro exI [of _ "k + j"]) auto
qed

lemma links_append:
  "xs \<noteq> [] \<Longrightarrow> links b (xs @ ys) = links b xs \<union> links (b + int (length xs) - 1) (last xs # ys)"
  by (induction b xs rule: links.induct) (auto simp: algebra_simps)

lemma links_hd: "eTerm e = eTerm f \<Longrightarrow> links b (e # es) = links b (f # es)"
  by (cases es) auto

lemma links_Cons: "links (b + 1) (f # es) \<subseteq> links b (e # f # es)"
  by auto

lemma syncEntries_links:
  assumes "syncEntries lii ls ci es = Some r" and "idx ls (ci - 1 - lii) = Some old" and "eTerm old = eTerm p"
  shows "links lii r \<subseteq> links lii ls \<union> links (ci - 1) (p # es)"
  using assms
proof (induction es arbitrary: ci p old)
  case Nil
  then show ?case by simp
next
  case (Cons e es)
  define k where "k = nat (ci - lii)"
  have k: "ci = lii + int k" "0 < k" "k \<le> length ls"
    using Cons.prems(2) by (auto simp: idx_def k_def split: if_splits)
  have "nat (ci - 1 - lii) = k - 1" using k by simp
  then have old: "old = ls ! (k - 1)" using Cons.prems(2) by (simp add: idx_def split: if_splits)
  have join: "links lii (take k ls @ e # es) \<subseteq> links lii ls \<union> links (ci - 1) (p # e # es)"
  proof -
    have "links lii (take k ls @ e # es) = links lii (take k ls) \<union> links (lii + int (length (take k ls)) - 1) (last (take k ls) # e # es)"
      using k by (intro links_append) auto
    moreover have "take k ls \<noteq> []" "length (take k ls) = k" using k by auto
    moreover then have "last (take k ls) = old" using k old by (simp add: last_conv_nth)
    ultimately show ?thesis
      using links_take [of lii k ls] links_hd [OF Cons.prems(3), of "ci - 1" "e # es"] k(1)
      by (auto simp del: links.simps)
  qed
  show ?case
  proof (cases "k < length ls")
    case False
    then have "r = take k ls @ e # es" using Cons.prems(1) k by auto
    then show ?thesis using join by simp
  next
    case True
    then have now: "idx ls (ci - lii) = Some (ls ! k)" by (simp add: idx_def k)
    show ?thesis
    proof (cases "eTerm (ls ! k) = eTerm e")
      case False
      then have "r = take k ls @ e # es"
        using Cons.prems(1) True now k by (auto simp: sliceTo_def)
      then show ?thesis using join by simp
    next
      case eq: True
      have "syncEntries lii ls (ci + 1) es = Some r" using Cons.prems(1) True now k eq by simp
      from Cons.IH [OF this _ eq] now links_Cons [of "ci - 1" e es p] show ?thesis by auto
    qed
  qed
qed

section \<open>How the critical sections move links\<close>

definition nodeLinks :: "('c, 'v) Raft \<Rightarrow> (int \<times> int \<times> int \<times> 'c option) set" where
  "nodeLinks rf = links (lastIncludedIndex rf) (logs rf)"

definition msgLinks :: "'c AppendEntriesArgs \<Rightarrow> (int \<times> int \<times> int \<times> 'c option) set" where
  "msgLinks args = links (aePrevLogIndex args) (\<lparr>eTerm = aePrevLogTerm args, eCommand = None\<rparr> # aeEntries args)"

definition log_step ::
  "(int \<times> int \<times> int \<times> 'c option) set \<Rightarrow> ('c, 'v) Raft \<Rightarrow> ('c, 'v) Raft \<Rightarrow> bool" where
  "log_step M rf rf' \<longleftrightarrow> nodeLinks rf' \<subseteq> nodeLinks rf \<union> M \<and>
     (rstate rf' = 0 \<longrightarrow> lastLogicalIndex rf \<le> lastLogicalIndex rf')"

lemma log_step_refl [simp]: "log_step M rf rf"
  by (simp add: log_step_def)

lemma log_step_same:
  "logs rf' = logs rf \<Longrightarrow> lastIncludedIndex rf' = lastIncludedIndex rf \<Longrightarrow> log_step M rf rf'"
  by (simp add: log_step_def nodeLinks_def lastLogicalIndex_def)

named_theorems log_steps \<open>critical sections as moves of links\<close>

lemma RequestVote_log [log_steps]: "RequestVote now args rf = Some (rf', r) \<Longrightarrow> log_step M rf rf'"
  by (rule log_step_same) (auto simp: RequestVote_def Let_def bind_Some_iff split: if_splits)

lemma AppendEntries_log [log_steps]:
  assumes "AppendEntries now args rf = Some (rf', r)"
  shows "log_step (msgLinks args) rf rf'"
  using assms
proof (cases rule: AppendEntries_cases)
  case (accept ls prev)
  have "links (lastIncludedIndex rf) ls \<subseteq> nodeLinks rf \<union> msgLinks args"
    using syncEntries_links [OF accept(7), of prev "\<lparr>eTerm = aePrevLogTerm args, eCommand = None\<rparr>"] accept(5,6)
    by (auto simp: nodeLinks_def msgLinks_def entryAt_def getPhysicalIndex_def)
  then show ?thesis using accept(8) by (simp add: log_step_def nodeLinks_def)
qed (auto intro: log_step_same)

lemma snapLog_links:
  "links (isLastIncludedIndex args) (snapLog args rf) \<subseteq> nodeLinks rf"
proof (cases "findSplit (lastIncludedIndex rf) (isLastIncludedIndex args) (isLastIncludedTerm args) 0 (logs rf) None")
  case None
  then show ?thesis by (simp add: snapLog_def)
next
  case (Some k)
  from findSplit_Some [OF Some] have k: "k < length (logs rf)"
    "isLastIncludedIndex args = lastIncludedIndex rf + int k" "eTerm (logs rf ! k) = isLastIncludedTerm args"
    by auto
  have "links (isLastIncludedIndex args) (snapLog args rf) =
      links (isLastIncludedIndex args) (logs rf ! k # drop (Suc k) (logs rf))"
    unfolding snapLog_def using Some k(3) by (simp del: links.simps) (rule links_hd, simp)
  then show ?thesis
    using links_drop [of "lastIncludedIndex rf" k "logs rf"] k Cons_nth_drop_Suc [OF k(1)]
    by (simp add: nodeLinks_def)
qed

lemma InstallSnapshot_log [log_steps]:
  assumes "InstallSnapshot now args rf = (rf', r, m)"
  shows "log_step M rf rf'"
  using assms
proof (cases rule: InstallSnapshot_cases)
  case install
  then show ?thesis
    using snapLog_links [of args "adopt now (isLeaderId args) (isTerm args) rf"]
    by (auto simp: log_step_def nodeLinks_def)
qed (auto intro: log_step_same)

lemma Snapshot_log [log_steps]:
  assumes "Snapshot index snap rf = Some rf'"
  shows "log_step M rf rf'"
proof (cases "index \<le> lastIncludedIndex rf")
  case True
  then show ?thesis using assms by (simp add: Snapshot_def)
next
  case False
  define k where "k = nat (getPhysicalIndex rf index)"
  have k: "index = lastIncludedIndex rf + int k" using False by (simp add: k_def getPhysicalIndex_def)
  then have k': "k < length (logs rf)" and
    rf': "logs rf' = \<lparr>eTerm = eTerm (logs rf ! k), eCommand = None\<rparr> # drop (Suc k) (logs rf)"
      "lastIncludedIndex rf' = index"
    using assms False
    by (auto simp: Snapshot_def Let_def bind_Some_iff idx_def sliceFrom_def index_defs nat_add_distrib Suc_nat_eq_nat_zadd1
        split: if_splits)
  have "nodeLinks rf' = links (lastIncludedIndex rf + int k) (logs rf ! k # drop (Suc k) (logs rf))"
    unfolding nodeLinks_def rf' k by (rule links_hd) simp
  then show ?thesis
    using links_drop [of "lastIncludedIndex rf" k "logs rf"] Cons_nth_drop_Suc [OF k'] rf' k k'
    by (simp add: log_step_def nodeLinks_def lastLogicalIndex_def le_supI1)
qed

lemma startElection_log [log_steps]: "startElection now rf = Some (rf', args) \<Longrightarrow> log_step M rf rf'"
  by (rule log_step_same) (simp_all add: startElection_sel)

lemma voteStepDown_log [simp]: "log_step M rf (voteStepDown r rf)"
  by (rule log_step_same) (simp_all add: voteStepDown_def)

lemma becomeLeader_log [log_steps]: "becomeLeader t rf = (rf', b) \<Longrightarrow> log_step M rf rf'"
  by (rule log_step_same) (auto simp: becomeLeader_def split: if_splits)

lemma appendReply_log [log_steps]: "appendReply now peer args r rf = Some (rf', b) \<Longrightarrow> log_step M rf rf'"
  by (rule log_step_same; erule appendReply_cases; simp add: bookkeeping_sel)

lemma installReply_log [log_steps]: "installReply now peer args r rf = Some rf' \<Longrightarrow> log_step M rf rf'"
  by (rule log_step_same; erule installReply_cases; simp add: bookkeeping_sel)

lemma applyNext_log [log_steps]: "applyNext rf = Some (rf', m) \<Longrightarrow> log_step M rf rf'"
  by (rule log_step_same; erule applyNext_cases; simp)

lemma Kill_log [simp]: "log_step M rf (Kill rf)"
  by (rule log_step_same) (simp_all add: Kill_def)

lemma Make_restart_log:
  assumes "Make n i (Copy (persister rf)) now = (rf', msg)" and "node_ok n p rf" and "i = int p"
  shows "log_step M rf rf'"
proof -
  have "Copy (persister rf) = persister rf"
    by (cases "persister rf") (simp add: Copy_def MakePersister_def)
  then show ?thesis
    using assms Make_recovers [of rf n i now rf' msg]
    by (intro log_step_same) (auto simp: node_ok_def)
qed

text \<open>\<open>Start\<close> on a leader adds one link, after the end of its log.\<close>

lemma Start_links:
  assumes "Start c rf = ((index, tm, isLeader), rf')" and "logs rf \<noteq> []"
  shows "if isLeader
         then rstate rf = 0 \<and> rstate rf' = 0 \<and> currTerm rf' = currTerm rf \<and>
              nodeLinks rf' = insert (lastLogicalIndex rf + 1, currTerm rf, eTerm (last (logs rf)), Some c) (nodeLinks rf) \<and>
              lastLogicalIndex rf' = lastLogicalIndex rf + 1
         else rf' = rf"
  using assms
  by (auto simp: Start_def nodeLinks_def links_append lastLogicalIndex_def split: if_splits)

text \<open>The entries a message carries are those of the log of its sender.\<close>

lemma buildAppendEntry_links:
  assumes "buildAppendEntry peer rf = Some (Some args)"
  shows "msgLinks args \<subseteq> nodeLinks rf"
proof -
  obtain ni where ni: "lastIncludedIndex rf < ni" "ni - lastIncludedIndex rf \<le> int (length (logs rf))"
    and args: "aePrevLogIndex args = ni - 1" "aeEntries args = drop (nat (ni - lastIncludedIndex rf)) (logs rf)"
      "aePrevLogTerm args = eTerm (logs rf ! nat (ni - lastIncludedIndex rf - 1))"
    using assms
    by (auto simp: buildAppendEntry_def bind_Some_iff idx_def sliceFrom_def getPhysicalIndex_def split: if_splits)
  define k where "k = nat (ni - lastIncludedIndex rf - 1)"
  have k: "k < length (logs rf)" "ni - 1 = lastIncludedIndex rf + int k" "nat (ni - lastIncludedIndex rf) = Suc k"
    using ni by (auto simp: k_def)
  have "msgLinks args = links (lastIncludedIndex rf + int k) (logs rf ! k # drop (Suc k) (logs rf))"
    unfolding msgLinks_def args(1,2) k using args(3) by (intro links_hd) (simp add: k_def)
  then show ?thesis
    using links_drop [of "lastIncludedIndex rf" k "logs rf"] Cons_nth_drop_Suc [OF k(1)]
    by (simp add: nodeLinks_def)
qed

fun taskLinks :: "('c, 'v) task \<Rightarrow> (int \<times> int \<times> int \<times> 'c option) set" where
  "taskLinks (AppendCall p q args) = msgLinks args"
| "taskLinks (OrphanAppend q args) = msgLinks args"
| "taskLinks _ = {}"

lemma runTask_log: "runTask n now t s = Some s' \<Longrightarrow> log_step (taskLinks t) (nodes s p) (nodes s' p)"
  by (cases t) (auto simp: bind_Some_iff Let_def split: if_splits prod.splits dest: log_steps)

lemma runTask_taskLinks:
  assumes "runTask n now t s = Some s'" and "u \<in> set (pool s')" and "task_ok n t"
  shows "u \<in> set (pool s) \<or> taskLinks u = {} \<or> (\<exists>p < n. taskLinks u \<subseteq> nodeLinks (nodes s p))"
proof (cases t)
  case (AppendTask p q)
  then show ?thesis
    using assms buildAppendEntry_links by (fastforce simp: bind_Some_iff split: option.splits)
qed (use assms in \<open>auto simp: bind_Some_iff Let_def split: if_splits prod.splits option.splits\<close>)

lemma orphan_taskLinks: "u \<in> set (orphan p t) \<Longrightarrow> taskLinks u = taskLinks t \<or> taskLinks u = {}"
  by (cases t) (auto split: if_splits)

section \<open>The history of links\<close>

definition hist :: "nat \<Rightarrow> ('c, 'v) cluster list \<Rightarrow> (int \<times> int \<times> int \<times> 'c option) set" where
  "hist n tr = (\<Union>s \<in> set tr. \<Union>p < n. nodeLinks (nodes s p))"

lemma hist_Cons: "hist n (s # tr) = (\<Union>p < n. nodeLinks (nodes s p)) \<union> hist n tr"
  by (auto simp: hist_def)

text \<open>
  An index and a term determine the link; messages carry known links; a leader has seen every link
  of its term at or before the end of its log; and a link has the term of some leader.
\<close>

definition log_inv :: "nat \<Rightarrow> ('c, 'v) cluster list \<Rightarrow> bool" where
  "log_inv n tr \<longleftrightarrow>
     (\<forall>i t t1 c1 t2 c2. (i, t, t1, c1) \<in> hist n tr \<longrightarrow> (i, t, t2, c2) \<in> hist n tr \<longrightarrow> t1 = t2 \<and> c1 = c2) \<and>
     (\<forall>u \<in> set (pool (hd tr)). taskLinks u \<subseteq> hist n tr) \<and>
     (\<forall>p < n. rstate (nodes (hd tr) p) = 0 \<longrightarrow>
        (\<forall>i t' c. (i, currTerm (nodes (hd tr) p), t', c) \<in> hist n tr \<longrightarrow> i \<le> lastLogicalIndex (nodes (hd tr) p))) \<and>
     (\<forall>i t t' c. (i, t, t', c) \<in> hist n tr \<longrightarrow>
        (\<exists>s \<in> set tr. \<exists>q < n. rstate (nodes s q) = 0 \<and> currTerm (nodes s q) = t))"

lemma log_invD:
  assumes "log_inv n tr"
  shows "\<And>i t t1 c1 t2 c2. (i, t, t1, c1) \<in> hist n tr \<Longrightarrow> (i, t, t2, c2) \<in> hist n tr \<Longrightarrow> t1 = t2 \<and> c1 = c2"
    and "\<And>u. u \<in> set (pool (hd tr)) \<Longrightarrow> taskLinks u \<subseteq> hist n tr"
    and "\<And>p i t' c. p < n \<Longrightarrow> rstate (nodes (hd tr) p) = 0 \<Longrightarrow>
           (i, currTerm (nodes (hd tr) p), t', c) \<in> hist n tr \<Longrightarrow> i \<le> lastLogicalIndex (nodes (hd tr) p)"
    and "\<And>i t t' c. (i, t, t', c) \<in> hist n tr \<Longrightarrow>
           \<exists>s \<in> set tr. \<exists>q < n. rstate (nodes s q) = 0 \<and> currTerm (nodes s q) = t"
  using assms unfolding log_inv_def by blast+

text \<open>A peer that has just become leader finds no link of its term anywhere.\<close>

lemma new_leader_fresh:
  assumes ex: "exec n (s' # s # tr)" and inv: "log_inv n (s # tr)"
    and p: "p < n" "rstate (nodes s' p) = 0" "\<not> (rstate (nodes s p) = 0 \<and> currTerm (nodes s p) = currTerm (nodes s' p))"
  shows "(i, currTerm (nodes s' p), t', c) \<notin> hist n (s # tr)"
proof
  assume "(i, currTerm (nodes s' p), t', c) \<in> hist n (s # tr)"
  then obtain s0 q where s0: "s0 \<in> set (s # tr)" "q < n" "rstate (nodes s0 q) = 0"
      "currTerm (nodes s0 q) = currTerm (nodes s' p)"
    using log_invD(4) [OF inv] by blast
  have ex': "exec n (s # tr)" using ex by (auto elim: exec_ConsE)
  have "q = p"
    using leader_unique [OF ex, of s0 s' q p] s0 p by auto
  have m1: "node_mono (nodes s0 p) (nodes s p)"
    using exec_node_mono [OF ex' s0(1) p(1)] by simp
  have m2: "node_mono (nodes s p) (nodes s' p)"
    using exec_node_mono [OF ex _ p(1), of s] by simp
  show False
    using m1 m2 s0 p \<open>q = p\<close> unfolding node_mono_def by auto
qed

text \<open>A step that brings in no new link.\<close>

lemma log_inv_step:
  assumes ex: "exec n (s' # s # tr)" and inv: "log_inv n (s # tr)"
    and M: "M \<subseteq> hist n (s # tr)" and step: "\<And>p. p < n \<Longrightarrow> log_step M (nodes s p) (nodes s' p)"
    and pool: "\<And>u. u \<in> set (pool s') \<Longrightarrow> taskLinks u \<subseteq> hist n (s # tr)"
  shows "log_inv n (s' # s # tr)"
proof -
  note D = log_invD [OF inv]
  have "nodeLinks (nodes s' p) \<subseteq> hist n (s # tr)" if "p < n" for p
    using step [OF that] M that by (auto simp: log_step_def hist_def)
  then have H: "hist n (s' # s # tr) = hist n (s # tr)" by (auto simp: hist_Cons)
  have "i \<le> lastLogicalIndex (nodes s' p)"
    if a: "p < n" "rstate (nodes s' p) = 0" "(i, currTerm (nodes s' p), t', c) \<in> hist n (s # tr)" for p i t' c
  proof -
    have "rstate (nodes s p) = 0" "currTerm (nodes s p) = currTerm (nodes s' p)"
      using new_leader_fresh [OF ex inv a(1,2)] a(3) by blast+
    then show ?thesis
      using D(3) [of p i t' c] a step [OF a(1)] by (auto simp: log_step_def)
  qed
  then show ?thesis
    using D(1,4) pool unfolding log_inv_def H by auto
qed

text \<open>A leader takes a command: the one step that makes a link.\<close>

lemma log_inv_Start:
  assumes ex: "exec n (s' # s # tr)" and inv: "log_inv n (s # tr)" and p: "p < n"
    and lead: "rstate (nodes s p) = 0" "rstate rf' = 0" "currTerm rf' = currTerm (nodes s p)"
    and new: "nodeLinks rf' = insert (lastLogicalIndex (nodes s p) + 1, currTerm (nodes s p), t0, c0) (nodeLinks (nodes s p))"
    and last: "lastLogicalIndex rf' = lastLogicalIndex (nodes s p) + 1"
    and nodes: "nodes s' = (nodes s)(p := rf')"
    and pool: "\<And>u. u \<in> set (pool s') \<Longrightarrow> u \<in> set (pool s) \<or> taskLinks u = {}"
  shows "log_inv n (s' # s # tr)"
proof -
  note D = log_invD [OF inv, unfolded list.sel]
  define L where "L = (lastLogicalIndex (nodes s p) + 1, currTerm (nodes s p), t0, c0)"
  have sub: "nodeLinks (nodes s q) \<subseteq> hist n (s # tr)" if "q < n" for q
    using that by (auto simp: hist_def)
  have H: "hist n (s' # s # tr) = insert L (hist n (s # tr))"
  proof -
    have "nodeLinks (nodes s' q) \<subseteq> insert L (hist n (s # tr))" if "q < n" for q
      using sub [OF that] sub [OF p] new by (cases "q = p") (auto simp: nodes L_def)
    moreover have "L \<in> nodeLinks (nodes s' p)" using new by (simp add: nodes L_def)
    ultimately show ?thesis using p by (auto simp: hist_Cons [of n s'])
  qed
  have fresh: "(lastLogicalIndex (nodes s p) + 1, currTerm (nodes s p), t', c) \<notin> hist n (s # tr)" for t' c
    using D(3) [OF p lead(1)] by fastforce
  have others: "i \<le> lastLogicalIndex (nodes s' q)"
    if q: "q < n" "rstate (nodes s' q) = 0" "(i, currTerm (nodes s' q), t', c) \<in> hist n (s' # s # tr)" for q i t' c
  proof (cases "q = p")
    case True
    then show ?thesis using q D(3) [OF p lead(1)] lead last by (fastforce simp: H L_def nodes)
  next
    case False
    have "currTerm (nodes s' q) \<noteq> currTerm (nodes s p)"
      using leader_unique [OF ex, of s' s q p] q p lead(1) False by auto
    then show ?thesis using q False D(3) [OF q(1)] by (auto simp: H L_def nodes)
  qed
  have lead4: "\<exists>s0 \<in> set (s' # s # tr). \<exists>q < n. rstate (nodes s0 q) = 0 \<and> currTerm (nodes s0 q) = t"
    if "(i, t, t', c) \<in> hist n (s' # s # tr)" for i t t' c
    using that D(4) p lead(1) by (fastforce simp: H L_def)
  have fn: "t1 = t2 \<and> c1 = c2"
    if "(i, t, t1, c1) \<in> hist n (s' # s # tr)" "(i, t, t2, c2) \<in> hist n (s' # s # tr)" for i t t1 c1 t2 c2
    using that fresh D(1) unfolding H L_def by blast
  have "taskLinks u \<subseteq> hist n (s' # s # tr)" if "u \<in> set (pool s')" for u
    using pool [OF that] D(2) unfolding H by blast
  then show ?thesis
    unfolding log_inv_def list.sel using others lead4 fn by blast
qed

lemma stepc_log:
  assumes ok: "cluster_ok n s" and st: "stepc n e s = Some s'" and e: "\<And>p c. e \<noteq> ClientStart p c"
    and inv: "log_inv n (s # tr)"
  shows "\<exists>M \<subseteq> hist n (s # tr). \<forall>p < n. log_step M (nodes s p) (nodes s' p)"
proof (cases e)
  case (Run k now)
  then have k: "k < length (pool s)" and run: "runTask n now (pool s ! k) (rest k s) = Some s'"
    using st by (auto simp: rest_def split: if_splits)
  have "taskLinks (pool s ! k) \<subseteq> hist n (s # tr)" using log_invD(2) [OF inv] k by simp
  then show ?thesis using runTask_log [OF run] by auto
next
  case (Crash q now)
  then have "log_step {} (nodes s p) (nodes s' p)" if "p < n" for p
    using st ok that Make_restart_log [of n "int q" "nodes s q" now _ _ q "{}"]
    by (auto simp: cluster_ok_def Let_def split: if_splits prod.splits)
  then show ?thesis by blast
qed (use st e in \<open>auto simp: bind_Some_iff Let_def split: if_splits prod.splits option.splits
      intro!: exI [of _ "{}"] dest: log_steps\<close>)

lemma stepc_taskLinks:
  assumes ok: "cluster_ok n s" and st: "stepc n e s = Some s'" and u: "u \<in> set (pool s')"
    and inv: "log_inv n (s # tr)"
  shows "taskLinks u \<subseteq> hist n (s # tr)"
proof -
  have old: "taskLinks v \<subseteq> hist n (s # tr)" if "v \<in> set (pool s)" for v
    using log_invD(2) [OF inv] that by simp
  have "u \<in> set (pool s) \<or> taskLinks u = {} \<or> (\<exists>v \<in> set (pool s). taskLinks u = taskLinks v) \<or>
      (\<exists>p < n. taskLinks u \<subseteq> nodeLinks (nodes s p))"
  proof (cases e)
    case (Run k now)
    then have k: "k < length (pool s)" and run: "runTask n now (pool s ! k) (rest k s) = Some s'"
      using st by (auto simp: rest_def split: if_splits)
    have "task_ok n (pool s ! k)" using ok k by (auto simp: cluster_ok_def)
    then show ?thesis using runTask_taskLinks [OF run u] by (auto dest: in_set_takeD in_set_dropD)
  next
    case (Lose k)
    then obtain ts where ts: "k < length (pool s)" "loseTask (pool s ! k) = Some ts"
        "pool s' = take k (pool s) @ drop (Suc k) (pool s) @ ts"
      using st by (auto simp: bind_Some_iff split: if_splits)
    have "taskLinks v = {}" if "v \<in> set ts" for v
      using ts(2) that by (cases "pool s ! k") auto
    then show ?thesis using u ts by (auto dest: in_set_takeD in_set_dropD)
  next
    case (Crash p now)
    then show ?thesis
      using st u orphan_taskLinks by (fastforce simp: Let_def split: if_splits prod.splits option.splits)
  qed (use st u in \<open>auto simp: bind_Some_iff Let_def split: if_splits prod.splits option.splits\<close>)
  then show ?thesis using old by (fastforce simp: hist_def)
qed

lemma log_inv_init: "log_inv n [initCluster n]"
  by (simp add: log_inv_def hist_def nodeLinks_def initCluster_def Make_def readPersist_def Let_def persister_defs)

lemma exec_log_inv: "exec n tr \<Longrightarrow> log_inv n tr"
proof (induction rule: exec.induct)
  case start
  show ?case by (rule log_inv_init)
next
  case (step s tr e s')
  have ex: "exec n (s' # s # tr)" using step.hyps by (rule exec.step)
  have ok: "cluster_ok n s" using exec_cluster_ok [OF step.hyps(1)] by simp
  show ?case
  proof (cases "\<exists>p c. e = ClientStart p c \<and> rstate (nodes s p) = 0")
    case False
    have "\<exists>M \<subseteq> hist n (s # tr). \<forall>p < n. log_step M (nodes s p) (nodes s' p)"
    proof (cases "\<exists>p c. e = ClientStart p c")
      case True
      then have "nodes s' = nodes s"
        using False step.hyps(2) by (auto simp: Start_def split: if_splits)
      then show ?thesis by auto
    next
      case False
      then show ?thesis using stepc_log [OF ok step.hyps(2) _ step.IH] by blast
    qed
    then show ?thesis
      using log_inv_step [OF ex step.IH] stepc_taskLinks [OF ok step.hyps(2) _ step.IH] by blast
  next
    case True
    then obtain p c where e: "e = ClientStart p c" and lead: "rstate (nodes s p) = 0" by blast
    obtain index tm b rf' where st: "Start c (nodes s p) = ((index, tm, b), rf')" by (metis prod.exhaust)
    have p: "p < n" using step.hyps(2) e by (auto split: if_splits)
    have ne: "logs (nodes s p) \<noteq> []" using ok p by (auto simp: cluster_ok_def node_ok_def node_wf_def)
    have b: "b" using st lead by (simp add: Start_def)
    have s': "nodes s' = (nodes s)(p := rf')" "pool s' = pool s @ [ReplTask p]"
      using step.hyps(2) e st b p by auto
    show ?thesis
      using Start_links [OF st ne] b s'
      by (intro log_inv_Start [OF ex step.IH p]) auto
  qed
qed

section \<open>Log matching\<close>

lemma entryAt_range:
  "entryAt rf i = Some e \<longleftrightarrow>
     lastIncludedIndex rf \<le> i \<and> i \<le> lastLogicalIndex rf \<and> e = logs rf ! nat (i - lastIncludedIndex rf)"
  by (auto simp: entryAt_def idx_def index_defs)

lemma entryAt_link:
  assumes "entryAt rf i = Some e" and "lastIncludedIndex rf < i"
  shows "\<exists>d. entryAt rf (i - 1) = Some d \<and> (i, eTerm e, eTerm d, eCommand e) \<in> nodeLinks rf"
proof -
  define k where "k = nat (i - lastIncludedIndex rf - 1)"
  have k: "i = lastIncludedIndex rf + 1 + int k" "nat (i - lastIncludedIndex rf) = Suc k"
      "nat (i - 1 - lastIncludedIndex rf) = k"
    using assms(2) by (auto simp: k_def)
  have e: "Suc k < length (logs rf)" "e = logs rf ! Suc k"
    using assms k by (auto simp: entryAt_range lastLogicalIndex_def)
  have "entryAt rf (i - 1) = Some (logs rf ! k)"
    using e(1) k by (auto simp: entryAt_range lastLogicalIndex_def)
  moreover have "(i, eTerm e, eTerm (logs rf ! k), eCommand e) \<in> nodeLinks rf"
    unfolding nodeLinks_def links_iff using e k(1) by blast
  ultimately show ?thesis by blast
qed

lemma node_hist: "s \<in> set tr \<Longrightarrow> p < n \<Longrightarrow> nodeLinks (nodes s p) \<subseteq> hist n tr"
  by (auto simp: hist_def)

lemma link_unique:
  assumes "exec n tr" and "s1 \<in> set tr" "s2 \<in> set tr" and "p < n" "q < n"
    and "(i, t, t1, c1) \<in> nodeLinks (nodes s1 p)" and "(i, t, t2, c2) \<in> nodeLinks (nodes s2 q)"
  shows "t1 = t2 \<and> c1 = c2"
proof (rule log_invD(1) [OF exec_log_inv [OF assms(1)]])
  show "(i, t, t1, c1) \<in> hist n tr" using node_hist [OF assms(2,4)] assms(6) by blast
  show "(i, t, t2, c2) \<in> hist n tr" using node_hist [OF assms(3,5)] assms(7) by blast
qed

lemma log_matching_at:
  assumes ex: "exec n tr" and s: "s1 \<in> set tr" "s2 \<in> set tr" and p: "p < n" "q < n"
    and e: "entryAt (nodes s1 p) j = Some e1" "entryAt (nodes s2 q) j = Some e2" "eTerm e1 = eTerm e2"
    and l: "lastIncludedIndex (nodes s1 p) < j" "lastIncludedIndex (nodes s2 q) < j"
  shows "e1 = e2 \<and> (\<exists>d1 d2. entryAt (nodes s1 p) (j - 1) = Some d1 \<and> entryAt (nodes s2 q) (j - 1) = Some d2 \<and>
           eTerm d1 = eTerm d2)"
proof -
  obtain d1 where d1: "entryAt (nodes s1 p) (j - 1) = Some d1" "(j, eTerm e1, eTerm d1, eCommand e1) \<in> nodeLinks (nodes s1 p)"
    using entryAt_link [OF e(1) l(1)] by blast
  obtain d2 where d2: "entryAt (nodes s2 q) (j - 1) = Some d2" "(j, eTerm e2, eTerm d2, eCommand e2) \<in> nodeLinks (nodes s2 q)"
    using entryAt_link [OF e(2) l(2)] by blast
  have "eTerm d1 = eTerm d2 \<and> eCommand e1 = eCommand e2"
    using link_unique [OF ex s p d1(2) d2(2) [folded e(3)]] .
  then show ?thesis using d1(1) d2(1) e(3) by simp
qed

lemma log_matching_terms:
  assumes ex: "exec n tr" and s: "s1 \<in> set tr" "s2 \<in> set tr" and p: "p < n" "q < n"
    and "entryAt (nodes s1 p) (j + int d) = Some e1" and "entryAt (nodes s2 q) (j + int d) = Some e2"
    and "eTerm e1 = eTerm e2"
    and "lastIncludedIndex (nodes s1 p) \<le> j" and "lastIncludedIndex (nodes s2 q) \<le> j"
  shows "\<exists>f1 f2. entryAt (nodes s1 p) j = Some f1 \<and> entryAt (nodes s2 q) j = Some f2 \<and> eTerm f1 = eTerm f2"
  using assms(6-)
proof (induction d arbitrary: e1 e2)
  case 0
  then show ?case by simp
next
  case (Suc d)
  have i: "j + int (Suc d) - 1 = j + int d" by simp
  obtain d1 d2 where d: "entryAt (nodes s1 p) (j + int d) = Some d1" "entryAt (nodes s2 q) (j + int d) = Some d2"
      "eTerm d1 = eTerm d2"
    using log_matching_at [OF ex s p Suc.prems(1-3)] Suc.prems(4,5) unfolding i by auto
  show ?case by (rule Suc.IH [OF d Suc.prems(4,5)])
qed

end
