(* ===== verification/Raft_Scenarios.thy ===== *)
theory Raft_Scenarios
  imports Raft_Log
begin

text \<open>
  Concrete executions of the cluster. A script names the goroutine to run next instead of its
  position in the pool; what it plays is an execution (\<open>enact_exec\<close>).
\<close>

datatype ('c, 'v) act = Ev "('c, 'v) event" | Do "('c, 'v) task \<Rightarrow> bool"

fun position :: "('a \<Rightarrow> bool) \<Rightarrow> 'a list \<Rightarrow> nat option" where
  "position f [] = None"
| "position f (x # xs) = (if f x then Some 0 else map_option Suc (position f xs))"

fun enact :: "nat \<Rightarrow> ('c, 'v) act list \<Rightarrow> ('c, 'v) cluster list \<Rightarrow> ('c, 'v) cluster list option" where
  "enact n [] tr = Some tr"
| "enact n (a # as) [] = None"
| "enact n (Ev e # as) (s # tr) =
     (case stepc n e s of None \<Rightarrow> None | Some s' \<Rightarrow> enact n as (s' # s # tr))"
| "enact n (Do f # as) (s # tr) =
     (case position f (pool s) of
        None \<Rightarrow> None
      | Some k \<Rightarrow> (case stepc n (Run k 5000) s of None \<Rightarrow> None | Some s' \<Rightarrow> enact n as (s' # s # tr)))"

lemma enact_exec: "exec n tr \<Longrightarrow> enact n as tr = Some tr' \<Longrightarrow> exec n tr'"
  by (induction n as tr rule: enact.induct) (auto split: option.splits intro: exec.step simp del: stepc.simps)

definition ending :: "(('c, 'v) cluster \<Rightarrow> bool) \<Rightarrow> ('c, 'v) cluster list option \<Rightarrow> bool" where
  "ending P r = (case r of Some (s # tr) \<Rightarrow> P s | _ \<Rightarrow> False)"

lemma ending_exec:
  assumes "ending P (enact n as [initCluster n])"
  shows "\<exists>tr. exec n tr \<and> P (hd tr)"
  using assms enact_exec [OF exec.start, of n as]
  by (auto simp: ending_def split: option.splits list.splits)

definition ending2 :: "(('c, 'v) cluster \<Rightarrow> ('c, 'v) cluster \<Rightarrow> bool) \<Rightarrow> ('c, 'v) cluster list option \<Rightarrow> bool" where
  "ending2 P r = (case r of Some (s' # s # tr) \<Rightarrow> P s' s | _ \<Rightarrow> False)"

lemma ending2_exec:
  assumes "ending2 P (enact n as [initCluster n])"
  shows "\<exists>s' s tr. exec n (s' # s # tr) \<and> P s' s"
  using assms enact_exec [OF exec.start, of n as]
  by (auto simp: ending2_def split: option.splits list.splits)

fun election :: "nat \<Rightarrow> ('c, 'v) task \<Rightarrow> bool" where
  "election p (ElectionTask p') = (p' = p)" | "election p _ = False"

fun vote :: "nat \<Rightarrow> nat \<Rightarrow> ('c, 'v) task \<Rightarrow> bool" where
  "vote p q (VoteCall p' q' args) = (p' = p \<and> q' = q)"
| "vote p q (VoteRet p' q' t r) = (p' = p \<and> q' = q)"
| "vote p q _ = False"

fun lead :: "nat \<Rightarrow> ('c, 'v) task \<Rightarrow> bool" where
  "lead p (LeadTask p' t r) = (p' = p)" | "lead p _ = False"

fun beat :: "nat \<Rightarrow> ('c, 'v) task \<Rightarrow> bool" where
  "beat p (HeartbeatTask p') = (p' = p)" | "beat p _ = False"

fun ship :: "nat \<Rightarrow> nat \<Rightarrow> ('c, 'v) task \<Rightarrow> bool" where
  "ship p q (AppendTask p' q') = (p' = p \<and> q' = q)"
| "ship p q (AppendCall p' q' args) = (p' = p \<and> q' = q)"
| "ship p q (AppendRet p' q' args r) = (p' = p \<and> q' = q)"
| "ship p q _ = False"

text \<open>Peer \<open>p\<close> times out and is elected with the votes of \<open>qs\<close>; then it ships its log to a peer.\<close>

definition elect :: "nat \<Rightarrow> int \<Rightarrow> nat list \<Rightarrow> ('c, 'v) act list" where
  "elect p now qs =
     [Ev (Tick p now 500), Do (election p)] @ concat (map (\<lambda>q. [Do (vote p q), Do (vote p q)]) qs) @ [Do (lead p)]"

definition shipTo :: "nat \<Rightarrow> nat \<Rightarrow> ('c, 'v) act list" where
  "shipTo p q = [Do (ship p q), Do (ship p q), Do (ship p q)]"

definition leaderRun :: "(string, string) act list" where
  "leaderRun = elect 0 1000 [1]"

text \<open>
  Peer 0 leads in term 1 and brings peer 1 up to index 2. Peer 2 leads in term 2 and overwrites
  both with its own entry at index 1. Peer 0 leads again in term 3: \<open>becomeLeader\<close> resets
  \<open>nextIndex\<close> but not \<open>matchIndex\<close>, so peer 1 still counts as holding index 2.
\<close>

definition staleMatchRun :: "(string, string) act list" where
  "staleMatchRun =
     elect 0 1000 [1, 2] @ [Ev (ClientStart 0 ''a''), Ev (ClientStart 0 ''b''), Do (beat 0)] @ shipTo 0 1 @
     elect 2 6000 [3, 4] @ [Ev (ClientStart 2 ''x''), Do (beat 2)] @
     [Do (ship 2 0), Do (ship 2 0), Do (ship 2 1), Do (ship 2 1)] @
     elect 0 8000 [1, 2] @ [Ev (ClientStart 0 ''y''), Do (beat 0)] @ shipTo 0 3 @ shipTo 0 3 @ [Do (beat 0)] @ shipTo 0 3 @
     concat (replicate 2 [Ev (ApplyStep 0), Ev (ApplySend 0)]) @
     elect 1 9000 [2, 4] @ [Ev (ClientStart 1 ''z''), Do (beat 1)] @ shipTo 1 2 @ shipTo 1 4 @
     [Do (beat 1)] @ shipTo 1 4 @
     concat (replicate 2 [Ev (ApplyStep 1), Ev (ApplySend 1)])"

text \<open>A leader replicates two commands to a peer, which takes them over.\<close>

definition replicationRun :: "(string, string) act list" where
  "replicationRun =
     elect 0 1000 [1] @ [Ev (ClientStart 0 ''a''), Ev (ClientStart 0 ''b''), Do (beat 0)] @ shipTo 0 1"

text \<open>
  A goroutine of \<open>makeAppendEntry\<close> of the leader of term 1 runs after a new leader has cut that
  leader's log back: its \<open>nextIndex\<close> for peer 1 now lies behind the end of the log.
\<close>

definition lateGoroutineRun :: "(string, string) act list" where
  "lateGoroutineRun =
     elect 0 1000 [1, 2] @ [Ev (ClientStart 0 ''a''), Ev (ClientStart 0 ''b''), Do (beat 0)] @ shipTo 0 1 @
     [Do (beat 0)] @ elect 2 6000 [3, 4] @ [Ev (ClientStart 2 ''x''), Do (beat 2)] @ [Do (ship 2 0), Do (ship 2 0)]"

fun isAppendTask :: "nat \<Rightarrow> nat \<Rightarrow> ('c, 'v) task \<Rightarrow> bool" where
  "isAppendTask p q (AppendTask p' q') = (p' = p \<and> q' = q)"
| "isAppendTask p q _ = False"

lemma isAppendTask_iff: "isAppendTask p q t \<longleftrightarrow> t = AppendTask p q"
  by (cases t) auto

lemma leaderRun_ends:
  "ending (\<lambda>s. rstate (nodes s 0) = 0 \<and> currTerm (nodes s 0) = 1 \<and> votedFor (nodes s 1) = 0 \<and>
     currTerm (nodes s 1) = 1) (enact 3 leaderRun [initCluster 3])"
  by code_simp

lemma replicationRun_ends:
  "ending (\<lambda>s. entryAt (nodes s 0) 2 = Some \<lparr>eTerm = 1, eCommand = Some ''b''\<rparr> \<and>
     entryAt (nodes s 1) 2 = Some \<lparr>eTerm = 1, eCommand = Some ''b''\<rparr> \<and>
     lastIncludedIndex (nodes s 0) = 0 \<and> lastIncludedIndex (nodes s 1) = 0) (enact 3 replicationRun [initCluster 3])"
  by code_simp

definition appliedCmds :: "('c, 'v) cluster \<Rightarrow> nat \<Rightarrow> (int \<times> 'c option) list" where
  "appliedCmds s p = map (\<lambda>m. (CommandIndex m, Command m)) (filter CommandValid (applyCh s p))"

lemma staleMatchRun_ends:
  "ending (\<lambda>s. appliedCmds s 0 = [(1, Some ''x''), (2, Some ''y'')] \<and>
     appliedCmds s 1 = [(1, Some ''x''), (2, Some ''z'')]) (enact 5 staleMatchRun [initCluster 5])"
  by code_simp

lemma lateGoroutineRun_ends:
  "case enact 5 lateGoroutineRun [initCluster 5] of
     Some (s # tr) \<Rightarrow> list_ex (isAppendTask 0 1) (pool s) \<and> rstate (nodes s 0) = 2 \<and> list_ex (\<lambda>t. rstate (nodes t 0) = 0) tr \<and>
       nextIndex (nodes s 0) ! 1 = 3 \<and> length (nextIndex (nodes s 0)) = 5 \<and> lastIncludedIndex (nodes s 0) = 0 \<and> length (logs (nodes s 0)) = 2
   | _ \<Rightarrow> False"
  by code_simp

lemma replicationRun_ends2:
  "ending2 (\<lambda>s' s. rstate (nodes s' 0) = 0 \<and> lastIncludedIndex (nodes s' 0) = 0 \<and> lastLogicalIndex (nodes s 0) = 2)
     (enact 3 replicationRun [initCluster 3])"
  by code_simp

end
