(* ===== verification/Raft_Theorems.thy ===== *)
theory Raft_Theorems
  imports Raft_Scenarios
begin

text \<open>
  The properties of the Raft peers, alone and as a cluster, with concrete instances. The proofs
  are in the theories before this one.
\<close>

section \<open>A leader's own log\<close>

text \<open>Within a leadership the log only grows at its end and is only cut by the service's snapshots.\<close>

definition keeps :: "('c, 'v) Raft \<Rightarrow> ('c, 'v) Raft \<Rightarrow> bool" where
  "keeps rf rf' \<longleftrightarrow>
     (rstate rf' = 0 \<longrightarrow> lastLogicalIndex rf \<le> lastLogicalIndex rf' \<and> lastIncludedIndex rf \<le> lastIncludedIndex rf' \<and>
        (\<forall>i. lastIncludedIndex rf' < i \<and> i \<le> lastLogicalIndex rf \<longrightarrow> entryAt rf' i = entryAt rf i))"

lemma keeps_same:
  "logs rf' = logs rf \<Longrightarrow> lastIncludedIndex rf' = lastIncludedIndex rf \<Longrightarrow> keeps rf rf'"
  by (simp add: keeps_def entryAt_def index_defs)

lemma keeps_refl [simp]: "keeps rf rf"
  by (rule keeps_same) simp_all

lemma keeps_follower: "rstate rf' = 2 \<Longrightarrow> keeps rf rf'"
  by (simp add: keeps_def)

named_theorems keep_steps \<open>critical sections keep the log of a leader\<close>

lemma RequestVote_keeps [keep_steps]: "RequestVote now args rf = Some (rf', r) \<Longrightarrow> keeps rf rf'"
  by (rule keeps_same) (auto simp: RequestVote_def Let_def bind_Some_iff split: if_splits)

lemma AppendEntries_keeps [keep_steps]: "AppendEntries now args rf = Some (rf', r) \<Longrightarrow> keeps rf rf'"
  by (erule AppendEntries_cases) (auto intro: keeps_follower)

lemma InstallSnapshot_keeps [keep_steps]: "InstallSnapshot now args rf = (rf', r, m) \<Longrightarrow> keeps rf rf'"
  by (erule InstallSnapshot_cases) (auto intro: keeps_follower)

lemma startElection_keeps [keep_steps]: "startElection now rf = Some (rf', args) \<Longrightarrow> keeps rf rf'"
  by (rule keeps_same) (simp_all add: startElection_sel)

lemma voteStepDown_keeps [simp]: "keeps rf (voteStepDown r rf)"
  by (rule keeps_same) (simp_all add: voteStepDown_def)

lemma becomeLeader_keeps [keep_steps]: "becomeLeader t rf = (rf', b) \<Longrightarrow> keeps rf rf'"
  by (rule keeps_same) (auto simp: becomeLeader_def split: if_splits)

lemma appendReply_keeps [keep_steps]: "appendReply now peer args r rf = Some (rf', b) \<Longrightarrow> keeps rf rf'"
  by (rule keeps_same; erule appendReply_cases; simp add: bookkeeping_sel)

lemma installReply_keeps [keep_steps]: "installReply now peer args r rf = Some rf' \<Longrightarrow> keeps rf rf'"
  by (rule keeps_same; erule installReply_cases; simp add: bookkeeping_sel)

lemma applyNext_keeps [keep_steps]: "applyNext rf = Some (rf', m) \<Longrightarrow> keeps rf rf'"
  by (rule keeps_same; erule applyNext_cases; simp)

lemma Kill_keeps [simp]: "keeps rf (Kill rf)"
  by (rule keeps_same) (simp_all add: Kill_def)

lemma Start_keeps [keep_steps]: "Start c rf = (r, rf') \<Longrightarrow> keeps rf rf'"
  by (auto simp: Start_def keeps_def entryAt_def idx_def index_defs nth_append split: if_splits)

lemma Snapshot_entries:
  assumes "Snapshot index snap rf = Some rf'" and "lastIncludedIndex rf < index"
  shows "lastIncludedIndex rf' = index \<and> lastLogicalIndex rf' = lastLogicalIndex rf \<and>
    (\<forall>i > index. entryAt rf' i = entryAt rf i) \<and>
    map_option eTerm (entryAt rf' index) = map_option eTerm (entryAt rf index)"
proof -
  define k where "k = nat (getPhysicalIndex rf index)"
  have k: "index = lastIncludedIndex rf + int k" "nat (index - lastIncludedIndex rf) = k"
    using assms(2) by (simp_all add: k_def getPhysicalIndex_def)
  have k': "k < length (logs rf)"
    and rf': "logs rf' = \<lparr>eTerm = eTerm (logs rf ! k), eCommand = None\<rparr> # drop (Suc k) (logs rf)"
      "lastIncludedIndex rf' = index"
    using assms k
    by (auto simp: Snapshot_def Let_def bind_Some_iff idx_def sliceFrom_def index_defs nat_add_distrib
        Suc_nat_eq_nat_zadd1 split: if_splits)
  have last: "lastLogicalIndex rf' = lastLogicalIndex rf"
    using rf' k k' by (simp add: lastLogicalIndex_def)
  have "entryAt rf' i = entryAt rf i" if i: "index < i" for i
  proof -
    define j where "j = nat (i - index - 1)"
    have j: "i = index + 1 + int j" "nat (i - index) = Suc j" "nat (i - lastIncludedIndex rf) = Suc (k + j)"
      using i k by (auto simp: j_def)
    show ?thesis using rf' k k' j by (auto simp: entryAt_def idx_def getPhysicalIndex_def)
  qed
  then show ?thesis
    using rf' last k k' by (auto simp: entryAt_def idx_def getPhysicalIndex_def)
qed

lemma Snapshot_keeps [keep_steps]: "Snapshot index snap rf = Some rf' \<Longrightarrow> keeps rf rf'"
  using Snapshot_entries [of index snap rf rf']
  by (cases "index \<le> lastIncludedIndex rf") (simp add: Snapshot_def, simp add: keeps_def)

lemma Make_keeps [keep_steps]: "Make n i ps now = (rf', m) \<Longrightarrow> keeps rf rf'"
  by (rule keeps_follower) (auto simp: Make_def readPersist_def Let_def split: option.splits)

lemma runTask_keeps: "runTask n now t s = Some s' \<Longrightarrow> keeps (nodes s p) (nodes s' p)"
  by (cases t) (auto simp: bind_Some_iff Let_def split: if_splits prod.splits dest: keep_steps)

lemma stepc_keeps: "stepc n e s = Some s' \<Longrightarrow> keeps (nodes s p) (nodes s' p)"
proof (cases e)
  case (Run k now)
  then show "stepc n e s = Some s' \<Longrightarrow> ?thesis"
    using runTask_keeps [of n now "pool s ! k" _ s' p] by (fastforce split: if_splits)
qed (auto simp: bind_Some_iff Let_def split: if_splits prod.splits option.splits dest: keep_steps)

section \<open>Peers used as instances\<close>

text \<open>
  A follower in term 2 whose log holds two entries of term 1, the request of a leader of term 3 that
  replaces the second one, and a leader of term 1 of three peers with two entries.
\<close>

definition follower :: "(string, string) Raft" where
  "follower = persist ((fst (Make 3 1 MakePersister 0))\<lparr>currTerm := 2, logs :=
     [\<lparr>eTerm = 0, eCommand = None\<rparr>, \<lparr>eTerm = 1, eCommand = Some ''a''\<rparr>, \<lparr>eTerm = 1, eCommand = Some ''b''\<rparr>]\<rparr>)"

definition shipment :: "string AppendEntriesArgs" where
  "shipment = \<lparr>aeTerm = 3, aeLeaderId = 0, aePrevLogIndex = 1, aePrevLogTerm = 1,
     aeEntries = [\<lparr>eTerm = 3, eCommand = Some ''c''\<rparr>], aeLeaderCommit = 0\<rparr>"


lemma follower_ok: "node_wf follower" "durable follower"
  unfolding follower_def
  by (simp_all add: node_wf_def Make_def readPersist_def Let_def persister_defs)

lemma follower_accepts: "case AppendEntries 10 shipment follower of Some (rf', r) \<Rightarrow> aerSuccess r | None \<Rightarrow> False"
  by code_simp


section \<open>Properties of the cluster\<close>

text \<open>C1: Election safety. In an execution of the cluster, with lost requests and replies, crashes and
  any interleaving of the goroutines, two peers that are leader in the same term, at whatever moments,
  are the same peer.\<close>

theorem election_safety:
  assumes "exec n tr" and "s1 \<in> set tr" and "s2 \<in> set tr" and "p < n" and "q < n"
    and "rstate (nodes s1 p) = 0" and "rstate (nodes s2 q) = 0"
    and "currTerm (nodes s1 p) = currTerm (nodes s2 q)"
  shows "p = q"
  using assms by (rule leader_unique)

theorem election_safety_witness:
  "\<exists>tr :: (string, string) cluster list. exec 3 tr \<and>
     {q. q < 3 \<and> rstate (nodes (hd tr) q) = 0 \<and> currTerm (nodes (hd tr) q) = 1} = {0}"
proof -
  obtain tr :: "(string, string) cluster list" where tr: "exec 3 tr"
      "rstate (nodes (hd tr) 0) = 0" "currTerm (nodes (hd tr) 0) = 1"
    using ending_exec [OF leaderRun_ends] by blast
  have "hd tr \<in> set tr" using exec_nonempty [OF tr(1)] by simp
  then have "{q. q < 3 \<and> rstate (nodes (hd tr) q) = 0 \<and> currTerm (nodes (hd tr) q) = 1} = {0}"
    using election_safety [OF tr(1), of "hd tr" "hd tr" _ 0] tr(2,3) by auto
  then show ?thesis using tr(1) by blast
qed

text \<open>C2: Log matching. If two logs, of any peers at any moments of an execution, have an entry of the
  same term at an index, then at every earlier index that neither has cut off with a snapshot they
  hold the same entry.\<close>

theorem log_matching:
  assumes "exec n tr" and "s1 \<in> set tr" "s2 \<in> set tr" and "p < n" "q < n"
    and "entryAt (nodes s1 p) i = Some e1" "entryAt (nodes s2 q) i = Some e2" "eTerm e1 = eTerm e2"
    and "j \<le> i" "lastIncludedIndex (nodes s1 p) < j" "lastIncludedIndex (nodes s2 q) < j"
  shows "\<exists>e. entryAt (nodes s1 p) j = Some e \<and> entryAt (nodes s2 q) j = Some e"
proof -
  have i: "i = j + int (nat (i - j))" using assms(9) by simp
  obtain f1 f2 where f: "entryAt (nodes s1 p) j = Some f1" "entryAt (nodes s2 q) j = Some f2" "eTerm f1 = eTerm f2"
    using log_matching_terms [OF assms(1-5), of j "nat (i - j)" e1 e2] assms(6-) i by auto
  then show ?thesis using log_matching_at [OF assms(1-5) f assms(10,11)] by simp
qed

theorem log_matching_witness:
  "\<exists>(tr :: (string, string) cluster list) e. exec 3 tr \<and>
     entryAt (nodes (hd tr) 0) 1 = Some e \<and> entryAt (nodes (hd tr) 1) 1 = Some e"
proof -
  obtain tr :: "(string, string) cluster list" where tr: "exec 3 tr"
      "entryAt (nodes (hd tr) 0) 2 = Some \<lparr>eTerm = 1, eCommand = Some ''b''\<rparr>"
      "entryAt (nodes (hd tr) 1) 2 = Some \<lparr>eTerm = 1, eCommand = Some ''b''\<rparr>"
      "lastIncludedIndex (nodes (hd tr) 0) = 0" "lastIncludedIndex (nodes (hd tr) 1) = 0"
    using ending_exec [OF replicationRun_ends] by blast
  have "hd tr \<in> set tr" using exec_nonempty [OF tr(1)] by simp
  then show ?thesis
    using log_matching [OF tr(1) _ _ _ _ tr(2,3), of 1] tr(1,4,5) by auto
qed

text \<open>C6: Crash recovery. Whenever a peer of a reachable cluster crashes, \<open>Make\<close> on a copy of its persister
  brings it back with the term, the vote, the log and the snapshot position it had, as a well-formed
  follower.\<close>

theorem crash_recovery:
  assumes "exec n tr" and "s \<in> set tr" and "p < n"
    and "Make n (int p) (Copy (persister (nodes s p))) now = (rf', msg)"
  shows "currTerm rf' = currTerm (nodes s p) \<and> votedFor rf' = votedFor (nodes s p) \<and> logs rf' = logs (nodes s p) \<and>
    lastIncludedIndex rf' = lastIncludedIndex (nodes s p) \<and> lastIncludedTerm rf' = lastIncludedTerm (nodes s p) \<and>
    rstate rf' = 2 \<and> node_wf rf'"
proof -
  have "Copy (persister (nodes s p)) = persister (nodes s p)"
    by (cases "persister (nodes s p)") (simp add: Copy_def MakePersister_def)
  moreover have "node_ok n p (nodes s p)" using exec_cluster_ok [OF assms(1,2)] assms(3) by (simp add: cluster_ok_def)
  ultimately show ?thesis
    using Make_recovers [of "nodes s p" n "int p" now rf' msg] assms(4) by (simp add: node_ok_def)
qed

theorem crash_recovery_witness:
  "\<exists>(tr :: (string, string) cluster list) rf' msg. exec 3 tr \<and>
     Make 3 (int 1) (Copy (persister (nodes (hd tr) 1))) 9000 = (rf', msg) \<and> currTerm rf' = 1 \<and> votedFor rf' = 0"
proof -
  obtain tr :: "(string, string) cluster list" where tr: "exec 3 tr"
      "votedFor (nodes (hd tr) 1) = 0" "currTerm (nodes (hd tr) 1) = 1"
    using ending_exec [OF leaderRun_ends] by blast
  obtain rf' msg where m: "Make 3 (int 1) (Copy (persister (nodes (hd tr) 1))) 9000 = (rf', msg)" by fastforce
  have "hd tr \<in> set tr" using exec_nonempty [OF tr(1)] by simp
  then show ?thesis using crash_recovery [OF tr(1) _ _ m] tr m by auto
qed

text \<open>C10: One vote per term. A peer that has voted in a term never votes for anyone else in that term, over
  all its crashes and restarts.\<close>

theorem one_vote_per_term:
  assumes "exec n tr" and "s1 \<in> set tr" and "s2 \<in> set tr" and "q < n"
    and "currTerm (nodes s1 q) = currTerm (nodes s2 q)"
    and "votedFor (nodes s1 q) \<noteq> -1" and "votedFor (nodes s2 q) \<noteq> -1"
  shows "votedFor (nodes s1 q) = votedFor (nodes s2 q)"
  using exec_comparable [OF assms(1-4)] assms(5-) by (auto simp: node_mono_def)

theorem one_vote_per_term_witness:
  "\<exists>tr :: (string, string) cluster list. exec 3 tr \<and> (\<exists>s \<in> set tr. votedFor (nodes s 1) = votedFor (nodes (hd tr) 1) \<and> votedFor (nodes s 1) = 0)"
proof -
  obtain tr :: "(string, string) cluster list" where tr: "exec 3 tr"
      "votedFor (nodes (hd tr) 1) = 0" "currTerm (nodes (hd tr) 1) = 1"
    using ending_exec [OF leaderRun_ends] by blast
  have hd: "hd tr \<in> set tr" using exec_nonempty [OF tr(1)] by simp
  then show ?thesis using one_vote_per_term [OF tr(1) hd hd, of 1] tr by auto
qed

text \<open>C11: Leader append-only. From one state of an execution to the next, a peer that ends up leader still
  has every entry it had, except those the service itself has put into a snapshot.\<close>

theorem leader_append_only:
  assumes "exec n (s' # s # tr)" and "p < n" and "rstate (nodes s' p) = 0"
    and "lastIncludedIndex (nodes s' p) < i" and "i \<le> lastLogicalIndex (nodes s p)"
  shows "entryAt (nodes s' p) i = entryAt (nodes s p) i \<and> lastLogicalIndex (nodes s p) \<le> lastLogicalIndex (nodes s' p)"
proof -
  obtain e where "stepc n e s = Some s'" using assms(1) by (auto elim: exec_ConsE)
  from stepc_keeps [OF this, of p] assms(3-) show ?thesis by (simp add: keeps_def)
qed

theorem leader_append_only_witness:
  "\<exists>(s' :: (string, string) cluster) s tr. exec 3 (s' # s # tr) \<and> entryAt (nodes s' 0) 2 = entryAt (nodes s 0) 2"
proof -
  obtain s' s :: "(string, string) cluster" and tr where tr: "exec 3 (s' # s # tr)" "rstate (nodes s' 0) = 0"
      "lastIncludedIndex (nodes s' 0) = 0" "lastLogicalIndex (nodes s 0) = 2"
    using ending2_exec [OF replicationRun_ends2] by blast
  then show ?thesis using leader_append_only [OF tr(1), of 0 2] by auto
qed

text \<open>C17: Well-formed peers. In every state of every execution, with crashes, lost and delayed messages and late goroutines, each peer has a log that
  starts with the entry of its snapshot, has applied at least the snapshot, keeps one next index and one match index per peer,
  and has on stable storage exactly its term, vote and log, or nothing at all if it is still as it was created.\<close>

theorem peers_well_formed:
  assumes "exec n tr" and "s \<in> set tr" and "p < n"
  shows "node_wf (nodes s p) \<and> durable (nodes s p) \<and> npeers (nodes s p) = n \<and> me (nodes s p) = int p"
  using exec_cluster_ok [OF assms(1,2)] assms(3) by (simp add: cluster_ok_def node_ok_def)

theorem peers_well_formed_witness:
  "\<exists>tr :: (string, string) cluster list. exec 3 tr \<and> rstate (nodes (hd tr) 0) = 0 \<and> node_wf (nodes (hd tr) 0) \<and> durable (nodes (hd tr) 0)"
proof -
  obtain tr :: "(string, string) cluster list" where tr: "exec 3 tr" "rstate (nodes (hd tr) 0) = 0"
    using ending_exec [OF leaderRun_ends] by blast
  have "hd tr \<in> set tr" using exec_nonempty [OF tr(1)] by simp
  then show ?thesis using peers_well_formed [OF tr(1), of "hd tr" 0] tr by auto
qed

text \<open>C18: No panic. In a reachable cluster the handlers of \<open>RequestVote\<close> and \<open>AppendEntries\<close> return for every request,
  and starting an election and the apply loop never index outside the log.\<close>

theorem handlers_return:
  assumes "exec n tr" and "s \<in> set tr" and "p < n"
  shows "RequestVote now va (nodes s p) \<noteq> None \<and> AppendEntries now aa (nodes s p) \<noteq> None \<and>
    startElection now (nodes s p) \<noteq> None \<and> applyNext (nodes s p) \<noteq> None"
proof -
  have wf: "node_wf (nodes s p)"
    using exec_cluster_ok [OF assms(1,2)] assms(3) by (simp add: cluster_ok_def node_ok_def)
  have "RequestVote now va (nodes s p) \<noteq> None" using RequestVote_wf [OF wf] by (metis option.distinct(1))
  moreover have "startElection now (nodes s p) \<noteq> None" using startElection_wf [OF wf] by (metis option.distinct(1))
  ultimately show ?thesis using AppendEntries_total [OF wf] applyNext_total [OF wf] by blast
qed

theorem handlers_return_witness:
  "\<exists>tr :: (string, string) cluster list. exec 3 tr \<and> startElection 9000 (nodes (hd tr) 2) \<noteq> None \<and> applyNext (nodes (hd tr) 2) \<noteq> None"
proof -
  have ex: "exec 3 [initCluster 3 :: (string, string) cluster]" by (rule exec.start)
  show ?thesis using handlers_return [OF ex, of "initCluster 3" 2 9000] ex by auto
qed

section \<open>Properties of one peer\<close>

text \<open>C19: \<open>AppendEntries\<close>. A call that succeeds had the previous entry in common with the log, keeps the log up to there,
  holds afterwards the terms of the leader's entries at their positions, and drops nothing of the old
  log unless an entry conflicts with one of the leader's; the new state is on stable storage.\<close>

theorem append_entries_accepts:
  assumes "node_wf rf" and "durable rf" and "AppendEntries now args rf = Some (rf', reply)" and "aerSuccess reply"
  shows "map_option eTerm (entryAt rf (aePrevLogIndex args)) = Some (aePrevLogTerm args)
    \<and> (\<forall>i \<le> aePrevLogIndex args. entryAt rf' i = entryAt rf i)
    \<and> (\<forall>k < length (aeEntries args).
         map_option eTerm (entryAt rf' (aePrevLogIndex args + 1 + int k)) = Some (eTerm (aeEntries args ! k)))
    \<and> (logs rf' = logs rf \<or> (\<exists>m < length (aeEntries args).
         logs rf' = take (nat (aePrevLogIndex args + 1 - lastIncludedIndex rf) + m) (logs rf) @ drop m (aeEntries args) \<and>
         map_option eTerm (entryAt rf (aePrevLogIndex args + 1 + int m)) \<noteq> Some (eTerm (aeEntries args ! m))))
    \<and> currTerm rf' = aeTerm args \<and> durable rf'"
  using assms(3)
proof (cases rule: AppendEntries_cases)
  case (accept ls prev)
  let ?P = "aePrevLogIndex args" and ?L = "lastIncludedIndex rf"
  define k where "k = nat (?P + 1 - ?L)"
  have k: "?P + 1 = ?L + int k" "0 < k" "k \<le> length (logs rf)"
    using accept(3,4) by (auto simp: k_def lastLogicalIndex_def)
  note S = syncEntries_spec [OF accept(7) [unfolded k(1)] k(3)]
  have rf': "logs rf' = ls" "lastIncludedIndex rf' = ?L" "currTerm rf' = aeTerm args"
    using accept(1,8) by simp_all
  have len: "k + length (aeEntries args) \<le> length ls" using S by blast
  have keep: "entryAt rf' i = entryAt rf i" if "i \<le> ?P" for i
  proof -
    have "nat (i - ?L) < k" using that k by linarith
    moreover have "take k ls = take k (logs rf)" using S by blast
    ultimately have "ls ! nat (i - ?L) = logs rf ! nat (i - ?L)" by (metis nth_take)
    then show ?thesis using that k len by (auto simp: entryAt_def idx_def getPhysicalIndex_def rf')
  qed
  have new: "map_option eTerm (entryAt rf' (?P + 1 + int j)) = Some (eTerm (aeEntries args ! j))"
    if "j < length (aeEntries args)" for j
  proof -
    have "map eTerm (take (length (aeEntries args)) (drop k ls)) ! j = map eTerm (aeEntries args) ! j" using S by simp
    then have "eTerm (ls ! (k + j)) = eTerm (aeEntries args ! j)" using that len by simp
    moreover have "nat (?P + 1 + int j - ?L) = k + j" using k by linarith
    ultimately show ?thesis using that k len by (auto simp: entryAt_def idx_def getPhysicalIndex_def rf')
  qed
  have cut: "logs rf' = logs rf \<or> (\<exists>m < length (aeEntries args).
         logs rf' = take (k + m) (logs rf) @ drop m (aeEntries args) \<and>
         map_option eTerm (entryAt rf (?P + 1 + int m)) \<noteq> Some (eTerm (aeEntries args ! m)))"
  proof -
    have "nat (?P + 1 + int m - ?L) = k + m" for m using k by linarith
    then have "map_option eTerm (entryAt rf (?P + 1 + int m)) \<noteq> Some t \<longleftrightarrow>
        length (logs rf) \<le> k + m \<or> eTerm (logs rf ! (k + m)) \<noteq> t" for m t
      using k by (auto simp: entryAt_def idx_def getPhysicalIndex_def)
    then show ?thesis using S unfolding rf'(1) by (metis le_eq_less_or_eq)
  qed
  show ?thesis
    using accept(5,6) keep new cut [unfolded k_def] rf'(3) AppendEntries_durable [OF assms(2,3)] by simp
qed (use assms(4) in simp_all)

theorem append_entries_accepts_witness:
  "\<exists>rf' reply. AppendEntries 10 shipment follower = Some (rf', reply) \<and>
     map_option eTerm (entryAt rf' 2) = Some 3 \<and> currTerm rf' = 3"
proof -
  obtain rf' reply where r: "AppendEntries 10 shipment follower = Some (rf', reply)" "aerSuccess reply"
    using follower_accepts by (auto split: option.splits)
  have "map_option eTerm (entryAt rf' (aePrevLogIndex shipment + 1 + int 0)) = Some (eTerm (aeEntries shipment ! 0))"
    using append_entries_accepts [OF follower_ok(1,2) r] by (simp add: shipment_def)
  then show ?thesis
    using r append_entries_accepts [OF follower_ok(1,2) r] by (simp add: shipment_def)
qed



text \<open>\<open>RequestVote\<close>. A vote is given only to a candidate whose log is at least as up to date as the voter's (term of
  the last entry, then index), only if no other candidate has the voter's vote of that term, and it is on
  stable storage before the reply.\<close>

lemma vote_up_to_date:
  assumes "node_wf rf" and "durable rf" and "RequestVote now args rf = Some (rf', reply)" and "rvrVoteGranted reply"
  shows "(eTerm (last (logs rf)) < rvLastLogTerm args \<or>
      eTerm (last (logs rf)) = rvLastLogTerm args \<and> lastLogicalIndex rf \<le> rvLastLogIndex args) \<and>
    (currTerm rf = rvTerm args \<longrightarrow> votedFor rf = -1 \<or> votedFor rf = rvCandidateId args) \<and>
    decodeState (ReadRaftState (persister rf')) =
      Some (rvTerm args, rvCandidateId args, logs rf, lastIncludedIndex rf, lastIncludedTerm rf)"
proof -
  define rf1 where "rf1 = (if rvTerm args > currTerm rf
    then persist (rf\<lparr>rstate := 2, votedFor := -1, currTerm := rvTerm args\<rparr>) else rf)"
  have l: "logs rf1 = logs rf" "lastIncludedIndex rf1 = lastIncludedIndex rf" "lastIncludedTerm rf1 = lastIncludedTerm rf"
    by (simp_all add: rf1_def)
  have l1: "idx (logs rf1) (getPhysicalIndex rf1 (lastLogicalIndex rf1)) = Some (last (logs rf))"
      "lastLogicalIndex rf1 = lastLogicalIndex rf"
    using last_entry_exists [of rf1] assms(1) l by (simp_all add: node_wf_def lastLogicalIndex_def)
  have up: "eTerm (last (logs rf)) < rvLastLogTerm args \<or>
      eTerm (last (logs rf)) = rvLastLogTerm args \<and> lastLogicalIndex rf \<le> rvLastLogIndex args"
    and rf': "rf' = (persist (rf1\<lparr>votedFor := rvCandidateId args\<rparr>))\<lparr>timer := now, rstate := 2\<rparr>"
    using assms(3,4) unfolding RequestVote_def rf1_def [symmetric] Let_def l1(1)
    by (auto simp: l1(2) split: if_splits)
  have "ReadRaftState (persister rf') = encodeState rf'"
    by (simp add: rf' encodeState_def)
  then show ?thesis
    using up RequestVote_granted [OF assms(3,4)] l by (simp add: rf')
qed

text \<open>\<open>Snapshot\<close>. A snapshot through an index of the log keeps every entry after that index and the term at it, and
  the end of the log stays where it was.\<close>

lemma snapshot_keeps_suffix:
  assumes "node_wf rf" and "lastIncludedIndex rf < index" and "index \<le> lastLogicalIndex rf"
  shows "\<exists>rf'. Snapshot index snap rf = Some rf' \<and> node_wf rf' \<and> durable rf' \<and>
    ReadSnapshot (persister rf') = snap \<and> lastLogicalIndex rf' = lastLogicalIndex rf \<and>
    (\<forall>i > index. entryAt rf' i = entryAt rf i) \<and>
    map_option eTerm (entryAt rf' index) = map_option eTerm (entryAt rf index)"
proof -
  obtain rf' where s: "Snapshot index snap rf = Some rf'" and wf: "node_wf rf'"
    using Snapshot_wf [OF assms(1,3)] by blast
  have "durable rf' \<and> ReadSnapshot (persister rf') = snap"
    using s assms(2) by (auto simp: Snapshot_def Let_def bind_Some_iff)
  then show ?thesis using s wf Snapshot_entries [OF s assms(2)] by blast
qed

text \<open>The back-off hint. When \<open>AppendEntries\<close> refuses because the terms at \<open>PrevLogIndex\<close> differ, the loop that computes
  \<open>ConflictIndex\<close> returns, and the index it reports opens a run of entries of the conflicting term that
  reaches up to \<open>PrevLogIndex\<close>.\<close>

lemma conflict_hint:
  assumes "node_wf rf" and "lastIncludedIndex rf < i" and "entryAt rf i = Some e"
  shows "\<exists>r. conflictScan (logs rf) (lastIncludedIndex rf) (eTerm e) i 0 = Some r \<and> lastIncludedIndex rf < r \<and> r \<le> i \<and>
    (\<forall>j. r \<le> j \<and> j \<le> i \<longrightarrow> map_option eTerm (entryAt rf j) = Some (eTerm e))"
proof -
  have e: "idx (logs rf) (i - lastIncludedIndex rf) = Some e" and l: "0 \<le> lastIncludedIndex rf"
    using assms by (simp_all add: entryAt_def getPhysicalIndex_def node_wf_def)
  obtain r where r: "conflictScan (logs rf) (lastIncludedIndex rf) (eTerm e) i 0 = Some r"
    using conflictScan_total [of i "lastIncludedIndex rf" "logs rf"] e by (auto simp: idx_def split: if_splits)
  have rec: "conflictScan (logs rf) (lastIncludedIndex rf) (eTerm e) (i - 1) i = Some r"
    using r assms(2) e by (simp add: conflictScan.simps [of "logs rf" "lastIncludedIndex rf" "eTerm e" i 0])
  have "r \<noteq> 0"
    using conflictScan_run [OF rec] assms(2) l by (cases "r = i") auto
  from conflictScan_run [OF r this] r show ?thesis
    by (auto simp: entryAt_def getPhysicalIndex_def)
qed

section \<open>Two defects\<close>

text \<open>C34: Committed entries can be lost. \<open>becomeLeader\<close> keeps the \<open>matchIndex\<close> of an earlier leadership. There is an execution of five
  peers, without any crash, in which two peers apply different commands at the same index.\<close>

theorem applied_commands_diverge:
  "\<exists>(tr :: (string, string) cluster list) i c d. exec 5 tr \<and>
     (i, c) \<in> set (appliedCmds (hd tr) 0) \<and> (i, d) \<in> set (appliedCmds (hd tr) 1) \<and> c \<noteq> d"
proof -
  from ending_exec [OF staleMatchRun_ends] obtain tr :: "(string, string) cluster list" where tr: "exec 5 tr"
      "appliedCmds (hd tr) 0 = [(1, Some ''x''), (2, Some ''y'')]"
      "appliedCmds (hd tr) 1 = [(1, Some ''x''), (2, Some ''z'')]"
    by (elim exE conjE)
  have "(2, Some ''y'') \<in> set (appliedCmds (hd tr) 0)" "(2, Some ''z'') \<in> set (appliedCmds (hd tr) 1)"
    "Some ''y'' \<noteq> Some ''z''"
    unfolding tr(2,3) by simp_all
  with tr(1) show ?thesis by (intro exI conjI)
qed

text \<open>C35: A goroutine of \<open>makeAppendEntry\<close> does not check again that its peer is still leader. There is an execution of five peers with a state in
  which such a goroutine is still to run, for a peer that led earlier and is now a follower; its log was cut back meanwhile, so that the slice of the log from
  \<open>nextIndex\<close> on, the first thing the goroutine takes, is out of range, and whenever the goroutine runs there it panics.\<close>

theorem late_goroutine_panics:
  "\<exists>(tr :: (string, string) cluster list) s p q k ni. exec 5 (s # tr) \<and> k < length (pool s) \<and> pool s ! k = AppendTask p q \<and>
     rstate (nodes s p) = 2 \<and> (\<exists>t \<in> set tr. rstate (nodes t p) = 0) \<and>
     idx (nextIndex (nodes s p)) (int q) = Some ni \<and> lastIncludedIndex (nodes s p) < ni \<and>
     sliceFrom (logs (nodes s p)) (getPhysicalIndex (nodes s p) ni) = None \<and> (\<forall>now. stepc 5 (Run k now) s = None)"
proof -
  obtain s and tr :: "(string, string) cluster list" where run: "enact 5 lateGoroutineRun [initCluster 5] = Some (s # tr)"
      and late: "list_ex (isAppendTask 0 1) (pool s)" "rstate (nodes s 0) = 2" "list_ex (\<lambda>t. rstate (nodes t 0) = 0) tr"
      and cut: "nextIndex (nodes s 0) ! 1 = 3" "length (nextIndex (nodes s 0)) = 5" "lastIncludedIndex (nodes s 0) = 0" "length (logs (nodes s 0)) = 2"
    using lateGoroutineRun_ends by (auto split: option.splits list.splits)
  obtain k where k: "k < length (pool s)" "pool s ! k = AppendTask 0 1"
    using late(1) unfolding list_ex_length isAppendTask_iff by blast
  have ni: "idx (nextIndex (nodes s 0)) (int 1) = Some 3" using cut(1,2) by (simp add: idx_def)
  have slice: "sliceFrom (logs (nodes s 0)) (getPhysicalIndex (nodes s 0) 3) = None"
    using cut(3,4) by (simp add: sliceFrom_def getPhysicalIndex_def)
  have "stepc 5 (Run k now) s = None" for now using k ni slice cut(3) by (simp add: buildAppendEntry_def)
  then show ?thesis
    using enact_exec [OF exec.start run] k late(2,3) ni slice cut(3) unfolding list_ex_iff by (metis zero_less_numeral)
qed

end
