(* ===== verification/KV_Server.thy ===== *)
theory KV_Server
  imports Raft_Node
begin

text \<open>
  The replicated key/value server: \<open>src/kvraft/server.go\<close> and \<open>common.go\<close>. A server holds its Raft
  peer; the peer's persister is the one the server reads. As in \<open>Raft_Node\<close>, a definition is one
  critical section of \<open>kv.mu\<close>, and \<open>None\<close> is a panic. A channel of \<open>notifyChans\<close> has room for
  one value; channels are numbered in the order they are made, so that a goroutine keeps its channel
  when the map entry is overwritten.
\<close>

section \<open>Data\<close>

type_synonym Err = string

definition OK :: Err where "OK = ''OK''"
definition ErrNoKey :: Err where "ErrNoKey = ''ErrNoKey''"
definition ErrWrongLeader :: Err where "ErrWrongLeader = ''ErrWrongLeader''"
definition ErrTimeOut :: Err where "ErrTimeOut = ''ErrTimeOut''"
definition ErrBadRequest :: Err where "ErrBadRequest = ''ErrBadRequest''"

lemmas err_defs = OK_def ErrNoKey_def ErrWrongLeader_def ErrTimeOut_def ErrBadRequest_def

record Op =
  opType :: string
  opKey :: string
  opValue :: string
  opSeqId :: int
  opClientId :: int

record OpReply =
  orErr :: Err
  orValue :: string

record LastOpRecord =
  LastSeqId :: int
  LastReply :: OpReply

definition zeroOpReply :: OpReply where
  "zeroOpReply = \<lparr>orErr = '''', orValue = ''''\<rparr>"

type_synonym store = "string \<rightharpoonup> string"
type_synonym records = "int \<rightharpoonup> LastOpRecord"

datatype snapval = StoreVal store | RecordVal records

record KVServer =
  kvMe :: int
  kvDead :: bool
  maxraftstate :: int
  kvCommitIndex :: int
  leaderId :: int
  kvStore :: store
  recordMap :: records
  notifyChans :: "(int \<times> nat) list"
  chans :: "OpReply option list"
  httpSeq :: int
  kvRf :: "(Op, snapval) Raft"

record PutAppendArgs =
  paKey :: string
  paValue :: string
  paOp :: string
  paSeqId :: int
  paClientId :: int

record PutAppendReply =
  parErr :: Err
  parLeaderId :: int

record GetArgs =
  gKey :: string
  gSeqId :: int
  gClientId :: int

record GetReply =
  grErr :: Err
  grValue :: string
  grLeaderId :: int

record DeleteArgs =
  dKey :: string
  dSeqId :: int
  dClientId :: int

record DeleteReply =
  drErr :: Err
  drLeaderId :: int

section \<open>The state machine\<close>

definition getHandler :: "Op \<Rightarrow> store \<Rightarrow> OpReply" where
  "getHandler cmd m =
    (case m (opKey cmd) of
       Some val \<Rightarrow> \<lparr>orErr = OK, orValue = val\<rparr>
     | None \<Rightarrow> \<lparr>orErr = ErrNoKey, orValue = ''''\<rparr>)"

definition putHandler :: "Op \<Rightarrow> store \<Rightarrow> OpReply \<times> store" where
  "putHandler cmd m = (\<lparr>orErr = OK, orValue = ''''\<rparr>, m(opKey cmd \<mapsto> opValue cmd))"

definition deleteHandler :: "Op \<Rightarrow> store \<Rightarrow> OpReply \<times> store" where
  "deleteHandler cmd m = (\<lparr>orErr = OK, orValue = ''''\<rparr>, m(opKey cmd := None))"

definition appendHandler :: "Op \<Rightarrow> store \<Rightarrow> OpReply \<times> store" where
  "appendHandler cmd m =
    (\<lparr>orErr = OK, orValue = ''''\<rparr>,
     m(opKey cmd \<mapsto> (case m (opKey cmd) of Some old \<Rightarrow> old | None \<Rightarrow> '''') @ opValue cmd))"

definition applyToStateMachine :: "Op \<Rightarrow> store \<Rightarrow> OpReply \<times> store" where
  "applyToStateMachine cmd m =
    (if opType cmd = ''Get'' then (getHandler cmd m, m)
     else if opType cmd = ''Put'' then putHandler cmd m
     else if opType cmd = ''Append'' then appendHandler cmd m
     else if opType cmd = ''Delete'' then deleteHandler cmd m
     else (zeroOpReply, m))"

section \<open>Snapshots\<close>

definition encodeSnapshot :: "KVServer \<Rightarrow> (Op, snapval) bytes" where
  "encodeSnapshot kv = [GVal (StoreVal (kvStore kv)), GVal (RecordVal (recordMap kv))]"

fun decodeStore :: "(Op, snapval) bytes \<Rightarrow> (store \<times> (Op, snapval) bytes) option" where
  "decodeStore (GVal (StoreVal m) # d) = Some (m, d)"
| "decodeStore _ = None"

fun decodeRecords :: "(Op, snapval) bytes \<Rightarrow> (records \<times> (Op, snapval) bytes) option" where
  "decodeRecords (GVal (RecordVal m) # d) = Some (m, d)"
| "decodeRecords _ = None"

definition restoreSnapshot :: "(Op, snapval) bytes \<Rightarrow> KVServer \<Rightarrow> KVServer" where
  "restoreSnapshot d kv =
    (case (do { (m, d1) \<leftarrow> decodeStore d; (r, d2) \<leftarrow> decodeRecords d1; Some (m, r) }) of
       None \<Rightarrow> kv
     | Some (m, r) \<Rightarrow> kv\<lparr>kvStore := m, recordMap := r\<rparr>)"

section \<open>The applier\<close>

text \<open>
  A command message, up to the point where the mutex is released for \<open>rf.Snapshot\<close> or the
  notification is sent: the reply, and the snapshot if one is due. \<open>sz\<close> is the length of a byte
  sequence.
\<close>

definition applyCommand ::
  "((Op, snapval) bytes \<Rightarrow> int) \<Rightarrow> (Op, snapval) ApplyMsg \<Rightarrow> KVServer \<Rightarrow>
   (OpReply \<times> (Op, snapval) bytes option \<times> KVServer) option" where
  "applyCommand sz msg kv = do {
     cmd \<leftarrow> Command msg;
     let kv1 = kv\<lparr>kvCommitIndex := CommandIndex msg\<rparr>;
     let (reply, kv2) =
       (case recordMap kv1 (opClientId cmd) of
          Some record \<Rightarrow>
            if LastSeqId record \<ge> opSeqId cmd then (LastReply record, kv1)
            else let (r, m) = applyToStateMachine cmd (kvStore kv1) in (r, kv1\<lparr>kvStore := m\<rparr>)
        | None \<Rightarrow> let (r, m) = applyToStateMachine cmd (kvStore kv1) in (r, kv1\<lparr>kvStore := m\<rparr>));
     let kv3 = kv2\<lparr>recordMap := (recordMap kv2)(opClientId cmd \<mapsto> \<lparr>LastSeqId = opSeqId cmd, LastReply = reply\<rparr>)\<rparr>;
     let due = maxraftstate kv3 \<noteq> -1 \<and> RaftStateSize sz (persister (kvRf kv3)) > maxraftstate kv3;
     Some (reply, if due then Some (encodeSnapshot kv3) else None, kv3) }"

text \<open>The call \<open>kv.rf.Snapshot(kv.commitIndex, data)\<close>, made without the mutex.\<close>

definition callSnapshot :: "(Op, snapval) bytes option \<Rightarrow> KVServer \<Rightarrow> KVServer option" where
  "callSnapshot data kv =
    (case data of
       None \<Rightarrow> Some kv
     | Some d \<Rightarrow> do { rf \<leftarrow> Snapshot (kvCommitIndex kv) d (kvRf kv); Some (kv\<lparr>kvRf := rf\<rparr>) })"

text \<open>
  The notification: \<open>None\<close> is the applier blocked on a full channel, with the mutex held.
\<close>

definition notify :: "int \<Rightarrow> OpReply \<Rightarrow> KVServer \<Rightarrow> KVServer option" where
  "notify i reply kv =
    (case map_of (notifyChans kv) i of
       None \<Rightarrow> Some kv
     | Some ch \<Rightarrow> if chans kv ! ch = None then Some (kv\<lparr>chans := (chans kv)[ch := Some reply]\<rparr>) else None)"

text \<open>
  A snapshot message: every waiting handler that has no reply yet is told \<open>ErrWrongLeader\<close> and
  its entry is deleted.
\<close>

fun flushChans :: "OpReply \<Rightarrow> (int \<times> nat) list \<Rightarrow> OpReply option list \<Rightarrow> (int \<times> nat) list \<times> OpReply option list" where
  "flushChans r [] cs = ([], cs)"
| "flushChans r ((i, ch) # ns) cs =
    (if cs ! ch = None then flushChans r ns (cs[ch := Some r])
     else let (ns', cs') = flushChans r ns cs in ((i, ch) # ns', cs'))"

definition applySnapshotMsg :: "(Op, snapval) ApplyMsg \<Rightarrow> KVServer \<Rightarrow> KVServer" where
  "applySnapshotMsg msg kv =
    (if SnapshotIndex msg > kvCommitIndex kv
     then let kv1 = restoreSnapshot (SnapshotData msg) (kv\<lparr>kvCommitIndex := SnapshotIndex msg\<rparr>);
              (ns, cs) = flushChans (zeroOpReply\<lparr>orErr := ErrWrongLeader\<rparr>) (notifyChans kv1) (chans kv1)
          in kv1\<lparr>notifyChans := ns, chans := cs\<rparr>
     else kv)"

text \<open>One round of \<open>applier\<close> that nothing interrupts.\<close>

definition applierStep ::
  "((Op, snapval) bytes \<Rightarrow> int) \<Rightarrow> (Op, snapval) ApplyMsg \<Rightarrow> KVServer \<Rightarrow> KVServer option" where
  "applierStep sz msg kv =
    (if CommandValid msg
     then do {
       (reply, data, kv1) \<leftarrow> applyCommand sz msg kv;
       kv2 \<leftarrow> callSnapshot data kv1;
       notify (CommandIndex msg) reply kv2 }
     else if SnapshotValid msg then Some (applySnapshotMsg msg kv)
     else Some kv)"

section \<open>Handlers of client requests\<close>

text \<open>
  A handler first answers from the records or calls \<open>Start\<close>; then it waits at the index it was
  given; then it fills in its reply. \<open>Done\<close> is a handler that returned, \<open>Wait\<close> one that goes on
  to \<open>waitApplied(index, startTerm)\<close>.
\<close>

datatype 'r phase = Done 'r | Wait int int

definition KVKilled :: "KVServer \<Rightarrow> bool" where
  "KVKilled kv = kvDead kv"

definition KVKill :: "KVServer \<Rightarrow> KVServer" where
  "KVKill kv = kv\<lparr>kvDead := True, kvRf := Kill (kvRf kv)\<rparr>"

definition seen :: "int \<Rightarrow> int \<Rightarrow> KVServer \<Rightarrow> LastOpRecord option" where
  "seen clientId seqId kv =
    (case recordMap kv clientId of
       Some record \<Rightarrow> if seqId \<le> LastSeqId record then Some record else None
     | None \<Rightarrow> None)"

definition GetBegin :: "GetArgs \<Rightarrow> KVServer \<Rightarrow> GetReply phase \<times> KVServer" where
  "GetBegin args kv =
    (let reply = \<lparr>grErr = '''', grValue = '''', grLeaderId = 0\<rparr> in
     if KVKilled kv then (Done reply, kv)
     else case seen (gClientId args) (gSeqId args) kv of
       Some record \<Rightarrow>
         (Done (reply\<lparr>grValue := orValue (LastReply record), grErr := orErr (LastReply record)\<rparr>), kv)
     | None \<Rightarrow>
         let command = \<lparr>opType = ''Get'', opKey = gKey args, opValue = '''', opSeqId = gSeqId args,
                        opClientId = gClientId args\<rparr>;
             ((index, startTerm, isLeader), rf) = Start command (kvRf kv)
         in if \<not> isLeader then (Done (reply\<lparr>grLeaderId := leaderId kv, grErr := ErrWrongLeader\<rparr>), kv\<lparr>kvRf := rf\<rparr>)
            else (Wait index startTerm, kv\<lparr>kvRf := rf\<rparr>))"

definition DeleteBegin :: "DeleteArgs \<Rightarrow> KVServer \<Rightarrow> DeleteReply phase \<times> KVServer" where
  "DeleteBegin args kv =
    (let reply = \<lparr>drErr = '''', drLeaderId = 0\<rparr> in
     if KVKilled kv then (Done reply, kv)
     else case seen (dClientId args) (dSeqId args) kv of
       Some record \<Rightarrow> (Done (reply\<lparr>drErr := orErr (LastReply record)\<rparr>), kv)
     | None \<Rightarrow>
         let command = \<lparr>opType = ''Delete'', opKey = dKey args, opValue = '''', opSeqId = dSeqId args,
                        opClientId = dClientId args\<rparr>;
             ((index, startTerm, isLeader), rf) = Start command (kvRf kv)
         in if \<not> isLeader then (Done (reply\<lparr>drLeaderId := leaderId kv, drErr := ErrWrongLeader\<rparr>), kv\<lparr>kvRf := rf\<rparr>)
            else (Wait index startTerm, kv\<lparr>kvRf := rf\<rparr>))"

definition PutAppendBegin :: "PutAppendArgs \<Rightarrow> KVServer \<Rightarrow> PutAppendReply phase \<times> KVServer" where
  "PutAppendBegin args kv =
    (let reply = \<lparr>parErr = '''', parLeaderId = 0\<rparr> in
     if KVKilled kv then (Done reply, kv)
     else case seen (paClientId args) (paSeqId args) kv of
       Some record \<Rightarrow> (Done (reply\<lparr>parErr := orErr (LastReply record)\<rparr>), kv)
     | None \<Rightarrow>
         let command = \<lparr>opType = paOp args, opKey = paKey args, opValue = paValue args, opSeqId = paSeqId args,
                        opClientId = paClientId args\<rparr>;
             ((index, startTerm, isLeader), rf) = Start command (kvRf kv)
         in if \<not> isLeader then (Done (reply\<lparr>parLeaderId := leaderId kv, parErr := ErrWrongLeader\<rparr>), kv\<lparr>kvRf := rf\<rparr>)
            else (Wait index startTerm, kv\<lparr>kvRf := rf\<rparr>))"

text \<open>\<open>waitApplied\<close>: the channel is registered; then either its value or the timeout ends the wait.\<close>

definition waitRegister :: "int \<Rightarrow> KVServer \<Rightarrow> nat \<times> KVServer" where
  "waitRegister index kv =
    (length (chans kv),
     kv\<lparr>chans := chans kv @ [None],
        notifyChans := (index, length (chans kv)) # filter (\<lambda>p. fst p \<noteq> index) (notifyChans kv)\<rparr>)"

definition waitReceive :: "nat \<Rightarrow> int \<Rightarrow> KVServer \<Rightarrow> ((OpReply \<times> Err) \<times> KVServer) option" where
  "waitReceive ch startTerm kv =
    (case chans kv ! ch of
       None \<Rightarrow> None
     | Some opreply \<Rightarrow>
         let (currTerm, isLeader) = GetState (kvRf kv)
         in Some ((opreply, if \<not> isLeader \<or> currTerm \<noteq> startTerm then ErrWrongLeader else OK),
                  kv\<lparr>chans := (chans kv)[ch := None]\<rparr>))"

definition waitTimeout :: "OpReply \<times> Err" where
  "waitTimeout = (zeroOpReply, ErrTimeOut)"

definition dropWait :: "int \<Rightarrow> Err \<Rightarrow> KVServer \<Rightarrow> KVServer" where
  "dropWait index err kv =
    (let kv1 = kv\<lparr>notifyChans := filter (\<lambda>p. fst p \<noteq> index) (notifyChans kv)\<rparr>
     in if err = OK then kv1\<lparr>leaderId := kvMe kv1\<rparr> else kv1)"

definition GetEnd :: "int \<Rightarrow> OpReply \<times> Err \<Rightarrow> KVServer \<Rightarrow> GetReply \<times> KVServer" where
  "GetEnd index r kv =
    ((if snd r = OK then \<lparr>grErr = orErr (fst r), grValue = orValue (fst r), grLeaderId = 0\<rparr>
      else \<lparr>grErr = snd r, grValue = '''', grLeaderId = 0\<rparr>), dropWait index (snd r) kv)"

definition DeleteEnd :: "int \<Rightarrow> OpReply \<times> Err \<Rightarrow> KVServer \<Rightarrow> DeleteReply \<times> KVServer" where
  "DeleteEnd index r kv =
    (\<lparr>drErr = (if snd r = OK then orErr (fst r) else snd r), drLeaderId = 0\<rparr>, dropWait index (snd r) kv)"

definition PutAppendEnd :: "int \<Rightarrow> OpReply \<times> Err \<Rightarrow> KVServer \<Rightarrow> PutAppendReply \<times> KVServer" where
  "PutAppendEnd index r kv =
    (\<lparr>parErr = (if snd r = OK then orErr (fst r) else snd r), parLeaderId = 0\<rparr>, dropWait index (snd r) kv)"

section \<open>Start-up\<close>

definition StartKVServer :: "nat \<Rightarrow> int \<Rightarrow> (Op, snapval) Persister \<Rightarrow> int \<Rightarrow> int \<Rightarrow> KVServer \<times> (Op, snapval) ApplyMsg option" where
  "StartKVServer n i ps maxState now =
    (let (rf, msg) = Make n i ps now;
         kv = \<lparr>kvMe = i, kvDead = False, maxraftstate = maxState, kvCommitIndex = 0, leaderId = 0,
               kvStore = Map.empty, recordMap = Map.empty, notifyChans = [], chans = [], httpSeq = 0, kvRf = rf\<rparr>;
         snap = ReadSnapshot ps
     in (if snap \<noteq> [] then restoreSnapshot snap kv else kv, msg))"

end
