(* ===== verification/KV_Apply.thy ===== *)
theory KV_Apply
  imports KV_Server
begin

text \<open>
  What the applier of \<open>server.go\<close> computes. The data of a server (store and records) is a replicated
  state machine: the locale states what replication and snapshots rely on, and the applier's data
  step is an instance. Against a plain key/value specification, each request of a client takes effect
  once, if the log carries the requests of each client in order; the last section shows that the
  order matters.
\<close>

section \<open>Replicated state machines\<close>

locale replicated_machine =
  fixes step :: "'op \<Rightarrow> 's \<Rightarrow> 'r \<times> 's"
    and enc :: "'s \<Rightarrow> 'b"
    and dec :: "'b \<Rightarrow> 's option"
  assumes dec_enc: "dec (enc s) = Some s"
begin

fun run :: "'op list \<Rightarrow> 's \<Rightarrow> 'r list \<times> 's" where
  "run [] s = ([], s)"
| "run (c # cs) s = (let (r, s1) = step c s; (rs, s2) = run cs s1 in (r # rs, s2))"

lemma run_append:
  "run (cs @ ds) s = (fst (run cs s) @ fst (run ds (snd (run cs s))), snd (run ds (snd (run cs s))))"
  by (induction cs arbitrary: s) (auto simp: Let_def split: prod.splits)

lemma run_snoc: "snd (run (cs @ [c]) s) = snd (step c (snd (run cs s)))"
  by (simp add: run_append Let_def split: prod.splits)

lemma run_replies_snoc: "fst (run (cs @ [c]) s) = fst (run cs s) @ [fst (step c (snd (run cs s)))]"
  by (simp add: run_append Let_def split: prod.splits)

lemma run_length [simp]: "length (fst (run cs s)) = length cs"
  by (induction cs arbitrary: s) (simp_all add: Let_def case_prod_beta)

text \<open>A replica that starts from a snapshot ends up where one that applied everything does.\<close>

lemma transfer:
  assumes "dec b = Some s'" and "b = enc (snd (run cs s))"
  shows "snd (run ds s') = snd (run (cs @ ds) s)" and "fst (run ds s') = drop (length cs) (fst (run (cs @ ds) s))"
  using assms by (simp_all add: dec_enc run_append)

end

section \<open>The data of a server\<close>

definition smStep :: "Op \<Rightarrow> store \<times> records \<Rightarrow> OpReply \<times> (store \<times> records)" where
  "smStep cmd s =
    (let (reply, m) =
       (case snd s (opClientId cmd) of
          Some record \<Rightarrow> if LastSeqId record \<ge> opSeqId cmd then (LastReply record, fst s) else applyToStateMachine cmd (fst s)
        | None \<Rightarrow> applyToStateMachine cmd (fst s))
     in (reply, (m, (snd s)(opClientId cmd \<mapsto> \<lparr>LastSeqId = opSeqId cmd, LastReply = reply\<rparr>))))"

definition smEnc :: "store \<times> records \<Rightarrow> (Op, snapval) bytes" where
  "smEnc s = [GVal (StoreVal (fst s)), GVal (RecordVal (snd s))]"

definition smDec :: "(Op, snapval) bytes \<Rightarrow> (store \<times> records) option" where
  "smDec d = do { (m, d1) \<leftarrow> decodeStore d; (r, d2) \<leftarrow> decodeRecords d1; Some (m, r) }"

interpretation kvm: replicated_machine smStep smEnc smDec
  by unfold_locales (simp add: smDec_def smEnc_def)

abbreviation smData :: "KVServer \<Rightarrow> store \<times> records" where
  "smData kv \<equiv> (kvStore kv, recordMap kv)"

lemma restoreSnapshot_dec:
  "smData (restoreSnapshot d kv) = (case smDec d of None \<Rightarrow> smData kv | Some s \<Rightarrow> s)"
  by (auto simp: restoreSnapshot_def smDec_def split: option.splits bind_splits)

lemma restoreSnapshot_sel [simp]:
  "kvCommitIndex (restoreSnapshot d kv) = kvCommitIndex kv" "notifyChans (restoreSnapshot d kv) = notifyChans kv"
  "chans (restoreSnapshot d kv) = chans kv" "kvRf (restoreSnapshot d kv) = kvRf kv"
  by (auto simp: restoreSnapshot_def split: option.splits)

lemma encodeSnapshot_enc: "encodeSnapshot kv = smEnc (smData kv)"
  by (simp add: encodeSnapshot_def smEnc_def)

text \<open>The applier's command branch implements the data step and touches no channel.\<close>

definition applied :: "Op \<Rightarrow> int \<Rightarrow> KVServer \<Rightarrow> KVServer" where
  "applied cmd i kv = kv\<lparr>kvCommitIndex := i, kvStore := fst (snd (smStep cmd (smData kv))), recordMap := snd (snd (smStep cmd (smData kv)))\<rparr>"

lemma applyCommand_eq:
  assumes "Command msg = Some cmd"
  shows "applyCommand sz msg kv = Some (fst (smStep cmd (smData kv)),
    if maxraftstate kv \<noteq> -1 \<and> RaftStateSize sz (persister (kvRf kv)) > maxraftstate kv
    then Some (encodeSnapshot (applied cmd (CommandIndex msg) kv)) else None, applied cmd (CommandIndex msg) kv)"
  using assms
  by (auto simp: applyCommand_def smStep_def applied_def Let_def encodeSnapshot_def split: option.splits prod.splits if_splits)

lemma applied_sel [simp]:
  "kvCommitIndex (applied cmd i kv) = i" "notifyChans (applied cmd i kv) = notifyChans kv" "chans (applied cmd i kv) = chans kv"
  "kvRf (applied cmd i kv) = kvRf kv" "kvDead (applied cmd i kv) = kvDead kv" "maxraftstate (applied cmd i kv) = maxraftstate kv"
  by (simp_all add: applied_def)

lemma applied_data: "smData (applied cmd i kv) = snd (smStep cmd (smData kv))"
  by (simp add: applied_def)

lemma applyCommand_refines:
  assumes "Command msg = Some cmd"
  obtains data kv' where "applyCommand sz msg kv = Some (fst (smStep cmd (smData kv)), data, kv')"
    and "smData kv' = snd (smStep cmd (smData kv))" and "kvCommitIndex kv' = CommandIndex msg"
    and "notifyChans kv' = notifyChans kv" and "chans kv' = chans kv" and "kvRf kv' = kvRf kv"
    and "data = None \<or> data = Some (encodeSnapshot kv')"
  by (rule that [OF applyCommand_eq [OF assms] applied_data]) simp_all

text \<open>Applying a list of command messages, and what is left of it for the data.\<close>

fun applyAll :: "((Op, snapval) bytes \<Rightarrow> int) \<Rightarrow> (Op, snapval) ApplyMsg list \<Rightarrow> KVServer \<Rightarrow> (OpReply list \<times> KVServer) option" where
  "applyAll sz [] kv = Some ([], kv)"
| "applyAll sz (m # ms) kv = do {
     (r, d, kv1) \<leftarrow> applyCommand sz m kv;
     (rs, kv2) \<leftarrow> applyAll sz ms kv1;
     Some (r # rs, kv2) }"

lemma applyAll_append:
  "applyAll sz ms kv = Some (rs, kv1) \<Longrightarrow>
   applyAll sz (ms @ ms') kv = do { (rs', kv2) \<leftarrow> applyAll sz ms' kv1; Some (rs @ rs', kv2) }"
  by (induction ms arbitrary: kv rs) (auto simp: bind_eq_Some_conv split: bind_splits option.splits)

lemma applyAll_refines:
  assumes "map Command msgs = map Some cmds"
  shows "\<exists>kv'. applyAll sz msgs kv = Some (fst (kvm.run cmds (smData kv)), kv') \<and>
    smData kv' = snd (kvm.run cmds (smData kv))"
  using assms
proof (induction msgs arbitrary: cmds kv)
  case Nil
  then show ?case by simp
next
  case (Cons m ms)
  then obtain c cs where c: "cmds = c # cs" "Command m = Some c" "map Command ms = map Some cs"
    by (cases cmds) auto
  obtain data kv1 where a: "applyCommand sz m kv = Some (fst (smStep c (smData kv)), data, kv1)"
    "smData kv1 = snd (smStep c (smData kv))"
    using applyCommand_refines [OF c(2)] by metis
  from Cons.IH [OF c(3), of kv1] show ?case
    using a by (auto simp: c(1) Let_def split: prod.splits)
qed

section \<open>Each request takes effect once\<close>

definition opId :: "Op \<Rightarrow> int \<times> int" where
  "opId c = (opClientId c, opSeqId c)"

text \<open>The commands of a log without those whose request occurred before.\<close>

fun firsts :: "Op list \<Rightarrow> (int \<times> int) list \<Rightarrow> Op list" where
  "firsts [] ids = []"
| "firsts (c # cs) ids = (if opId c \<in> set ids then firsts cs ids else c # firsts cs (opId c # ids))"

definition specRun :: "Op list \<Rightarrow> store \<Rightarrow> store" where
  "specRun cmds m = foldl (\<lambda>m c. snd (applyToStateMachine c m)) m cmds"

text \<open>The requests of each client appear in the order of their sequence numbers, possibly repeated.\<close>

definition inOrder :: "Op list \<Rightarrow> bool" where
  "inOrder cmds \<longleftrightarrow> sorted_wrt (\<lambda>c d. opClientId c = opClientId d \<longrightarrow> opSeqId c \<le> opSeqId d) cmds"

lemma firsts_snoc:
  "firsts (cs @ [c]) ids = firsts cs ids @ (if opId c \<in> set ids \<union> opId ` set cs then [] else [c])"
  by (induction cs arbitrary: ids) auto

lemma inOrder_snoc:
  "inOrder (cs @ [c]) \<longleftrightarrow> inOrder cs \<and> (\<forall>d \<in> set cs. opClientId d = opClientId c \<longrightarrow> opSeqId d \<le> opSeqId c)"
  by (auto simp: inOrder_def sorted_wrt_append)

definition once_inv :: "Op list \<Rightarrow> OpReply list \<Rightarrow> store \<times> records \<Rightarrow> bool" where
  "once_inv cmds rs s \<longleftrightarrow>
     fst s = specRun (firsts cmds []) Map.empty \<and>
     (\<forall>k. snd s k = None \<longleftrightarrow> (\<forall>c \<in> set cmds. opClientId c \<noteq> k)) \<and>
     (\<forall>k rec. snd s k = Some rec \<longrightarrow>
        (k, LastSeqId rec) \<in> opId ` set cmds \<and>
        (\<forall>c \<in> set cmds. opClientId c = k \<longrightarrow> opSeqId c \<le> LastSeqId rec)) \<and>
     (\<forall>i < length cmds. \<forall>rec. snd s (opClientId (cmds ! i)) = Some rec \<longrightarrow> LastSeqId rec = opSeqId (cmds ! i) \<longrightarrow>
        LastReply rec = rs ! i)"

lemma once_invD:
  assumes "once_inv cmds rs s"
  shows "fst s = specRun (firsts cmds []) Map.empty"
    and "\<And>k. snd s k = None \<longleftrightarrow> (\<forall>c \<in> set cmds. opClientId c \<noteq> k)"
    and "\<And>k rec. snd s k = Some rec \<Longrightarrow> (k, LastSeqId rec) \<in> opId ` set cmds"
    and "\<And>k rec c. snd s k = Some rec \<Longrightarrow> c \<in> set cmds \<Longrightarrow> opClientId c = k \<Longrightarrow> opSeqId c \<le> LastSeqId rec"
    and "\<And>i rec. i < length cmds \<Longrightarrow> snd s (opClientId (cmds ! i)) = Some rec \<Longrightarrow>
           LastSeqId rec = opSeqId (cmds ! i) \<Longrightarrow> LastReply rec = rs ! i"
  using assms unfolding once_inv_def by blast+

text \<open>In an ordered log the records recognise a repeated request, and only those.\<close>

lemma dup_iff:
  assumes "once_inv cmds rs s" and "inOrder (cmds @ [c])"
  shows "(\<exists>rec. snd s (opClientId c) = Some rec \<and> LastSeqId rec \<ge> opSeqId c) \<longleftrightarrow> opId c \<in> opId ` set cmds"
    and "snd s (opClientId c) = Some rec \<Longrightarrow> LastSeqId rec \<le> opSeqId c"
proof -
  note D = once_invD [OF assms(1)]
  have le: "opSeqId d \<le> opSeqId c" if "d \<in> set cmds" "opClientId d = opClientId c" for d
    using assms(2) that by (auto simp: inOrder_snoc)
  show up: "LastSeqId rec \<le> opSeqId c" if "snd s (opClientId c) = Some rec" for rec
    using D(3) [OF that] le by (auto simp: opId_def)
  show "(\<exists>rec. snd s (opClientId c) = Some rec \<and> LastSeqId rec \<ge> opSeqId c) \<longleftrightarrow> opId c \<in> opId ` set cmds"
  proof
    assume "\<exists>rec. snd s (opClientId c) = Some rec \<and> LastSeqId rec \<ge> opSeqId c"
    then obtain rec where rec: "snd s (opClientId c) = Some rec" "LastSeqId rec \<ge> opSeqId c" by blast
    then have "LastSeqId rec = opSeqId c" using up by force
    then show "opId c \<in> opId ` set cmds" using D(3) [OF rec(1)] by (simp add: opId_def)
  next
    assume "opId c \<in> opId ` set cmds"
    then obtain d where d: "d \<in> set cmds" "opClientId d = opClientId c" "opSeqId d = opSeqId c"
      by (auto simp: opId_def)
    then obtain rec where "snd s (opClientId c) = Some rec" using D(2) [of "opClientId c"] by fastforce
    then show "\<exists>rec. snd s (opClientId c) = Some rec \<and> LastSeqId rec \<ge> opSeqId c" using D(4) [OF _ d(1,2)] d(3) by auto
  qed
qed

lemma smStep_dup:
  assumes "snd s (opClientId c) = Some rec" and "LastSeqId rec \<ge> opSeqId c"
  shows "smStep c s = (LastReply rec, (fst s, (snd s)(opClientId c \<mapsto> \<lparr>LastSeqId = opSeqId c, LastReply = LastReply rec\<rparr>)))"
  using assms by (simp add: smStep_def)

lemma smStep_new:
  assumes "\<not> (\<exists>rec. snd s (opClientId c) = Some rec \<and> LastSeqId rec \<ge> opSeqId c)"
  shows "smStep c s = (fst (applyToStateMachine c (fst s)), (snd (applyToStateMachine c (fst s)),
    (snd s)(opClientId c \<mapsto> \<lparr>LastSeqId = opSeqId c, LastReply = fst (applyToStateMachine c (fst s))\<rparr>)))"
  using assms by (auto simp: smStep_def Let_def split: option.splits prod.splits)

lemma specRun_snoc [simp]: "specRun (cs @ [c]) m = snd (applyToStateMachine c (specRun cs m))"
  by (simp add: specRun_def)

text \<open>Recording request \<open>c\<close>, whichever way it was answered.\<close>

lemma once_inv_record:
  assumes inv: "once_inv cmds rs s" and len: "length rs = length cmds" and ord: "inOrder (cmds @ [c])"
    and st: "fst s' = specRun (firsts (cmds @ [c]) []) Map.empty"
    and rec: "snd s' = (snd s)(opClientId c \<mapsto> \<lparr>LastSeqId = opSeqId c, LastReply = r\<rparr>)"
    and old: "\<And>i. i < length cmds \<Longrightarrow> opId (cmds ! i) = opId c \<Longrightarrow> rs ! i = r"
  shows "once_inv (cmds @ [c]) (rs @ [r]) s'"
proof -
  note D = once_invD [OF inv]
  have le: "opSeqId d \<le> opSeqId c" if "d \<in> set cmds" "opClientId d = opClientId c" for d
    using ord that by (auto simp: inOrder_snoc)
  have a: "snd s' k = None \<longleftrightarrow> (\<forall>d \<in> set (cmds @ [c]). opClientId d \<noteq> k)" for k
    using D(2) [of k] by (auto simp: rec)
  have b: "(k, LastSeqId rc) \<in> opId ` set (cmds @ [c])" if "snd s' k = Some rc" for k rc
    using that D(3) [of k rc] by (auto simp: rec opId_def split: if_splits)
  have d: "opSeqId e \<le> LastSeqId rc" if "snd s' k = Some rc" "e \<in> set (cmds @ [c])" "opClientId e = k" for k rc e
    using that D(4) [of k rc e] le by (auto simp: rec split: if_splits)
  have e: "LastReply rc = (rs @ [r]) ! i"
    if "i < length (cmds @ [c])" "snd s' (opClientId ((cmds @ [c]) ! i)) = Some rc"
      "LastSeqId rc = opSeqId ((cmds @ [c]) ! i)" for i rc
    using that D(5) [of i rc] old [of i] len by (auto simp: rec nth_append opId_def less_Suc_eq split: if_splits)
  show ?thesis
    unfolding once_inv_def using st a b d e by blast
qed

lemma once_inv_step:
  assumes inv: "once_inv cmds rs s" and len: "length rs = length cmds" and ord: "inOrder (cmds @ [c])"
  shows "once_inv (cmds @ [c]) (rs @ [fst (smStep c s)]) (snd (smStep c s))"
proof (cases "opId c \<in> opId ` set cmds")
  case True
  then obtain rec where rec: "snd s (opClientId c) = Some rec" "LastSeqId rec \<ge> opSeqId c"
    using dup_iff(1) [OF inv ord] by blast
  have eq: "LastSeqId rec = opSeqId c" using rec(2) dup_iff(2) [OF inv ord rec(1)] by simp
  show ?thesis
    unfolding smStep_dup [OF rec]
    using True once_invD(1) [OF inv] once_invD(5) [OF inv] rec(1) eq
    by (intro once_inv_record [OF inv len ord]) (auto simp: firsts_snoc opId_def)
next
  case False
  then have new: "\<not> (\<exists>rec. snd s (opClientId c) = Some rec \<and> LastSeqId rec \<ge> opSeqId c)"
    using dup_iff(1) [OF inv ord] by blast
  have "opId (cmds ! i) \<noteq> opId c" if "i < length cmds" for i
    using False that by (metis image_eqI nth_mem)
  then show ?thesis
    unfolding smStep_new [OF new]
    using False once_invD(1) [OF inv]
    by (intro once_inv_record [OF inv len ord]) (auto simp: firsts_snoc)
qed

lemma once_inv_run:
  "inOrder cmds \<Longrightarrow> once_inv cmds (fst (kvm.run cmds (Map.empty, Map.empty))) (snd (kvm.run cmds (Map.empty, Map.empty)))"
proof (induction cmds rule: rev_induct)
  case Nil
  show ?case by (simp add: once_inv_def specRun_def)
next
  case (snoc c cmds)
  have "inOrder cmds" using snoc.prems by (simp add: inOrder_snoc)
  from once_inv_step [OF snoc.IH [OF this] _ snoc.prems] show ?case
    by (simp add: kvm.run_snoc kvm.run_replies_snoc)
qed

text \<open>A repeated request gets the reply of the first one.\<close>

lemma repeated_reply:
  "inOrder cmds \<Longrightarrow> i < length cmds \<Longrightarrow> j < length cmds \<Longrightarrow> opId (cmds ! i) = opId (cmds ! j) \<Longrightarrow>
     fst (kvm.run cmds (Map.empty, Map.empty)) ! i = fst (kvm.run cmds (Map.empty, Map.empty)) ! j"
proof (induction cmds arbitrary: i j rule: rev_induct)
  case Nil
  then show ?case by simp
next
  case (snoc c cmds)
  let ?s = "snd (kvm.run cmds (Map.empty, Map.empty))" and ?rs = "fst (kvm.run cmds (Map.empty, Map.empty))"
  have ord: "inOrder cmds" using snoc.prems(1) by (simp add: inOrder_snoc)
  have last: "?rs ! k = fst (smStep c ?s)" if k: "k < length cmds" "opId (cmds ! k) = opId c" for k
  proof -
    have "opId c \<in> opId ` set cmds" using k by (metis image_eqI nth_mem)
    then obtain rec where rec: "snd ?s (opClientId c) = Some rec" "LastSeqId rec \<ge> opSeqId c"
      using dup_iff(1) [OF once_inv_run [OF ord] snoc.prems(1)] by blast
    have "LastSeqId rec = opSeqId c" using rec(2) dup_iff(2) [OF once_inv_run [OF ord] snoc.prems(1) rec(1)] by simp
    then show ?thesis
      using once_invD(5) [OF once_inv_run [OF ord] k(1)] k(2) rec by (simp add: opId_def smStep_dup [OF rec])
  qed
  have nth: "fst (kvm.run (cmds @ [c]) (Map.empty, Map.empty)) ! k = (if k < length cmds then ?rs ! k else fst (smStep c ?s))"
    and cmd: "(cmds @ [c]) ! k = (if k < length cmds then cmds ! k else c)" if "k < length (cmds @ [c])" for k
    using that by (auto simp: kvm.run_replies_snoc nth_append less_Suc_eq)
  show ?case
    using snoc.IH [OF ord, of i j] last [of i] last [of j] snoc.prems(2-4)
    unfolding nth [OF snoc.prems(2)] nth [OF snoc.prems(3)] cmd [OF snoc.prems(2)] cmd [OF snoc.prems(3)]
    by (simp split: if_splits)
qed

lemma applied_once:
  assumes "map Command msgs = map Some cmds" and "inOrder cmds" and "kvStore kv = Map.empty" and "recordMap kv = Map.empty"
  shows "\<exists>kv'. applyAll sz msgs kv = Some (fst (kvm.run cmds (Map.empty, Map.empty)), kv') \<and>
    kvStore kv' = specRun (firsts cmds []) Map.empty"
proof -
  let ?run = "kvm.run cmds (Map.empty, Map.empty)"
  obtain kv' where kv': "applyAll sz msgs kv = Some (fst ?run, kv')" "smData kv' = snd ?run"
    using applyAll_refines [OF assms(1), of sz kv] assms(3,4) by auto
  moreover have "kvStore kv' = specRun (firsts cmds []) Map.empty"
    using once_invD(1) [OF once_inv_run [OF assms(2)]] kv'(2) by (metis fst_conv)
  ultimately show ?thesis by blast
qed

end
