(* ===== verification/KV_Http.thy ===== *)
theory KV_Http
  imports KV_Apply
begin

text \<open>
  The HTTP front of the key/value server: \<open>src/kvraft/http.go\<close>. A request runs the handlers of
  \<open>KV_Server\<close>, so it has the same phases. Reading the body and decoding its JSON are the
  arguments \<open>body\<close> (\<open>None\<close>: the read failed) and \<open>parse\<close> (\<open>None\<close>: not valid JSON).
\<close>

definition httpClientID :: int where
  "httpClientID = 0xA1F5"

record HTTPRequest =
  hOp :: string
  hKey :: string
  hValue :: string
  hClientID :: int
  hSeqID :: int

record HTTPResponse =
  rOK :: bool
  rValue :: string
  rErr :: string

text \<open>What is written to the client: \<open>http.Error\<close> or a status with a JSON body.\<close>

datatype http_out = HttpError string int | HttpJson int HTTPResponse

text \<open>\<open>atomic.AddInt64\<close>, with wrap-around at 64 bits.\<close>

definition wrap64 :: "int \<Rightarrow> int" where
  "wrap64 i = (i + 2 ^ 63) mod 2 ^ 64 - 2 ^ 63"

definition nextHTTPSeq :: "KVServer \<Rightarrow> int \<times> KVServer" where
  "nextHTTPSeq kv = (let s = wrap64 (httpSeq kv + 1) in (s, kv\<lparr>httpSeq := s\<rparr>))"

definition httpResponseFromErr :: "Err \<Rightarrow> string \<Rightarrow> HTTPResponse" where
  "httpResponseFromErr err value = \<lparr>rOK = (err = OK), rValue = value, rErr = err\<rparr>"

fun mapPhase :: "('r \<Rightarrow> 's) \<Rightarrow> 'r phase \<Rightarrow> 's phase" where
  "mapPhase f (Done r) = Done (f r)"
| "mapPhase f (Wait i t) = Wait i t"

definition executeHTTPWithClient ::
  "string \<Rightarrow> string \<Rightarrow> string \<Rightarrow> int \<Rightarrow> int \<Rightarrow> KVServer \<Rightarrow> HTTPResponse phase \<times> KVServer" where
  "executeHTTPWithClient op key val clientID seq kv =
    (if op = ''get'' then
       let (ph, kv1) = GetBegin \<lparr>gKey = key, gSeqId = seq, gClientId = clientID\<rparr> kv
       in (mapPhase (\<lambda>r. httpResponseFromErr (grErr r) (grValue r)) ph, kv1)
     else if op = ''put'' then
       let (ph, kv1) = PutAppendBegin \<lparr>paKey = key, paValue = val, paOp = ''Put'', paSeqId = seq, paClientId = clientID\<rparr> kv
       in (mapPhase (\<lambda>r. httpResponseFromErr (parErr r) '''') ph, kv1)
     else if op = ''delete'' then
       let (ph, kv1) = DeleteBegin \<lparr>dKey = key, dSeqId = seq, dClientId = clientID\<rparr> kv
       in (mapPhase (\<lambda>r. httpResponseFromErr (drErr r) '''') ph, kv1)
     else (Done \<lparr>rOK = False, rValue = '''', rErr = ErrBadRequest\<rparr>, kv))"

definition executeHTTP :: "string \<Rightarrow> string \<Rightarrow> string \<Rightarrow> KVServer \<Rightarrow> HTTPResponse phase \<times> KVServer" where
  "executeHTTP op key val kv =
    (let (seq, kv1) = nextHTTPSeq kv in executeHTTPWithClient op key val httpClientID seq kv1)"

text \<open>The end of the same call, for a handler that waited.\<close>

definition executeEnd :: "string \<Rightarrow> int \<Rightarrow> OpReply \<times> Err \<Rightarrow> KVServer \<Rightarrow> HTTPResponse \<times> KVServer" where
  "executeEnd op index r kv =
    (if op = ''get'' then let (reply, kv1) = GetEnd index r kv in (httpResponseFromErr (grErr reply) (grValue reply), kv1)
     else if op = ''put'' then let (reply, kv1) = PutAppendEnd index r kv in (httpResponseFromErr (parErr reply) '''', kv1)
     else let (reply, kv1) = DeleteEnd index r kv in (httpResponseFromErr (drErr reply) '''', kv1))"

definition httpStatus :: "HTTPResponse \<Rightarrow> int" where
  "httpStatus resp =
    (if rErr resp = ErrWrongLeader then 503
     else if \<not> rOK resp \<and> rErr resp = ErrBadRequest then 400
     else 200)"

text \<open>\<open>ServeHTTP\<close> up to the point where it answers or waits.\<close>

definition ServeHTTP ::
  "('b \<Rightarrow> HTTPRequest option) \<Rightarrow> string \<Rightarrow> 'b option \<Rightarrow> KVServer \<Rightarrow> http_out phase \<times> KVServer" where
  "ServeHTTP parse meth body kv =
    (if meth \<noteq> ''POST'' then (Done (HttpError ''method not allowed'' 405), kv)
     else case body of
       None \<Rightarrow> (Done (HttpError ''bad request'' 400), kv)
     | Some b \<Rightarrow> (case parse b of
         None \<Rightarrow> (Done (HttpError ''invalid json'' 400), kv)
       | Some req \<Rightarrow>
           if hKey req = '''' then (Done (HttpError ''missing key'' 400), kv)
           else
             let (clientID, seqID, kv1) =
                   (if hClientID req = 0 \<or> hSeqID req = 0
                    then let (s, kv') = nextHTTPSeq kv in (httpClientID, s, kv')
                    else (hClientID req, hSeqID req, kv));
                 (ph, kv2) = executeHTTPWithClient (hOp req) (hKey req) (hValue req) clientID seqID kv1
             in (mapPhase (\<lambda>resp. HttpJson (httpStatus resp) resp) ph, kv2)))"

end
