(* ===== verification/KV_Delivery.thy ===== *)
theory KV_Delivery
  imports KV_Apply Raft_Invariants
begin

text \<open>
  A key/value server with its Raft peer and the goroutines between them: the handlers of clients, \<open>sendApplyMsg\<close> of \<open>raft.go\<close>, the goroutines that
  deliver snapshots, and the \<open>applier\<close> of \<open>server.go\<close>. What the peer puts on \<open>applyCh\<close> comes from the peer's own definitions: a snapshot may overtake a
  command that \<open>sendApplyMsg\<close> has taken from the log, but no command index is sent twice. The lemmas show that a notification channel is therefore never full when the applier sends.
\<close>

section \<open>What the peer does meanwhile\<close>

text \<open>A critical section of the peer that no client asked for, with the message for \<open>applyCh\<close> that a goroutine is started with.\<close>

inductive peer_step :: "('c, 'v) Raft \<Rightarrow> ('c, 'v) Raft \<Rightarrow> ('c, 'v) ApplyMsg option \<Rightarrow> bool" where
  vote: "RequestVote now rvargs rf = Some (rf', rvreply) \<Longrightarrow> peer_step rf rf' None"
| append: "AppendEntries now aeargs rf = Some (rf', aereply) \<Longrightarrow> peer_step rf rf' None"
| install: "InstallSnapshot now isargs rf = (rf', isreply, msg) \<Longrightarrow> peer_step rf rf' msg"
| campaign: "startElection now rf = Some (rf', rvargs) \<Longrightarrow> peer_step rf rf' None"
| step_down: "peer_step rf (voteStepDown rvreply rf) None"
| win: "becomeLeader term rf = (rf', started) \<Longrightarrow> peer_step rf rf' None"
| append_reply: "appendReply now peer aeargs aereply rf = Some (rf', snap) \<Longrightarrow> peer_step rf rf' None"
| install_reply: "installReply now peer isargs isreply rf = Some rf' \<Longrightarrow> peer_step rf rf' None"

lemma bookkeeping_applied: "bookkeeping rf rf' \<Longrightarrow> lastApplied rf' = lastApplied rf"
  by (rule bookkeeping_sel)

lemma InstallSnapshot_msg: "InstallSnapshot now args rf = (rf', reply, Some m) \<Longrightarrow> \<not> CommandValid m"
  by (auto simp: InstallSnapshot_def zeroApplyMsg_def Let_def split: if_splits)

lemma peer_step_applied: "peer_step rf rf' msg \<Longrightarrow> lastApplied rf \<le> lastApplied rf'"
proof (induction rule: peer_step.induct)
  case (append now aeargs rf rf' aereply)
  then show ?case by (rule AppendEntries_cases) simp_all
next
  case (install now isargs rf rf' isreply msg)
  then show ?case by (rule InstallSnapshot_cases) simp_all
next
  case (append_reply now peer aeargs aereply rf rf' snap)
  then show ?case by (rule appendReply_cases) (simp_all add: bookkeeping_applied)
next
  case (install_reply now peer isargs isreply rf rf')
  then show ?case by (rule installReply_cases) (simp_all add: bookkeeping_applied)
qed (auto simp: RequestVote_def startElection_def voteStepDown_def becomeLeader_def bind_Some_iff Let_def split: if_splits)

lemma peer_step_msg: "peer_step rf rf' (Some m) \<Longrightarrow> \<not> CommandValid m"
  by (cases rule: peer_step.cases) (auto dest: InstallSnapshot_msg)

lemma Snapshot_applied: "Snapshot index d rf = Some rf' \<Longrightarrow> lastApplied rf \<le> lastApplied rf'"
  by (auto simp: Snapshot_def goMax_def bind_Some_iff Let_def split: if_splits)

lemma Make_msg: "Make n i ps now = (rf, Some m) \<Longrightarrow> \<not> CommandValid m"
  by (auto simp: Make_def zeroApplyMsg_def Let_def split: if_splits)

section \<open>The goroutines of a server\<close>

text \<open>A critical section of a client's handler.\<close>

inductive handler_step :: "KVServer \<Rightarrow> KVServer \<Rightarrow> bool" where
  get: "GetBegin args kv = (ph, kv') \<Longrightarrow> handler_step kv kv'"
| del: "DeleteBegin dargs kv = (dph, kv') \<Longrightarrow> handler_step kv kv'"
| put: "PutAppendBegin pargs kv = (pph, kv') \<Longrightarrow> handler_step kv kv'"
| register: "waitRegister index kv = (ch, kv') \<Longrightarrow> handler_step kv kv'"
| receive: "waitReceive ch t kv = Some (r, kv') \<Longrightarrow> handler_step kv kv'"
| finish: "handler_step kv (dropWait index err kv)"
| kill: "handler_step kv (KVKill kv)"

text \<open>
  The applier between its critical sections: waiting for a message, with a message, about to call \<open>rf.Snapshot\<close>, or about to notify.
\<close>

datatype pc = Idle | Received "(Op, snapval) ApplyMsg" | Snapping "(Op, snapval) bytes" int OpReply | Notifying int OpReply

text \<open>
  A state is the server, the place of the applier, the message that \<open>sendApplyMsg\<close> waits to send, and the snapshot messages whose goroutines wait to send them.
  \<open>applyCh\<close> has no buffer, so a message is handed over when the applier takes it, and it may take any of those that wait. Handlers may come between any two steps
  of the applier, also where it keeps the mutex.
\<close>

type_synonym kv_run = "KVServer \<times> pc \<times> (Op, snapval) ApplyMsg option \<times> (Op, snapval) ApplyMsg list"

definition goSend :: "(Op, snapval) ApplyMsg option \<Rightarrow> (Op, snapval) ApplyMsg list" where
  "goSend msg = (case msg of None \<Rightarrow> [] | Some m \<Rightarrow> [m])"

inductive server_step :: "((Op, snapval) bytes \<Rightarrow> int) \<Rightarrow> kv_run \<Rightarrow> kv_run \<Rightarrow> bool" for sz where
  handler: "handler_step kv kv' \<Longrightarrow> server_step sz (kv, pc, out, gos) (kv', pc, out, gos)"
| peer: "peer_step (kvRf kv) rf msg \<Longrightarrow> server_step sz (kv, pc, out, gos) (kv\<lparr>kvRf := rf\<rparr>, pc, out, gos @ goSend msg)"
| next_command: "applyNext (kvRf kv) = Some (rf, msg) \<Longrightarrow> server_step sz (kv, pc, None, gos) (kv\<lparr>kvRf := rf\<rparr>, pc, msg, gos)"
| take_command: "server_step sz (kv, Idle, Some m, gos) (kv, Received m, None, gos)"
| take_snapshot: "server_step sz (kv, Idle, out, gos @ m # gos') (kv, Received m, out, gos @ gos')"
| command: "CommandValid m \<Longrightarrow> applyCommand sz m kv = Some (reply, data, kv') \<Longrightarrow>
    server_step sz (kv, Received m, out, gos)
      (kv', case data of None \<Rightarrow> Notifying (CommandIndex m) reply | Some d \<Rightarrow> Snapping d (CommandIndex m) reply, out, gos)"
| snap: "callSnapshot (Some d) kv = Some kv' \<Longrightarrow> server_step sz (kv, Snapping d i r, out, gos) (kv', Notifying i r, out, gos)"
| notified: "notify i r kv = Some kv' \<Longrightarrow> server_step sz (kv, Notifying i r, out, gos) (kv', Idle, out, gos)"
| snapmsg: "\<not> CommandValid m \<Longrightarrow> SnapshotValid m \<Longrightarrow> server_step sz (kv, Received m, out, gos) (applySnapshotMsg m kv, Idle, out, gos)"
| other: "\<not> CommandValid m \<Longrightarrow> \<not> SnapshotValid m \<Longrightarrow> server_step sz (kv, Received m, out, gos) (kv, Idle, out, gos)"

section \<open>Channels\<close>

text \<open>
  The channel registered for an index beyond \<open>c\<close> is empty, and no two indices share a channel.
\<close>

definition chansOk :: "int \<Rightarrow> (int \<times> nat) list \<Rightarrow> OpReply option list \<Rightarrow> bool" where
  "chansOk c ns cs \<longleftrightarrow> distinct (map fst ns) \<and> distinct (map snd ns) \<and>
     (\<forall>i ch. (i, ch) \<in> set ns \<longrightarrow> ch < length cs \<and> (c < i \<longrightarrow> cs ! ch = None))"

lemma chansOkD:
  assumes "chansOk c ns cs" and "(i, ch) \<in> set ns"
  shows "ch < length cs" and "c < i \<Longrightarrow> cs ! ch = None"
  using assms by (auto simp: chansOk_def)

lemma chansOk_mono: "chansOk c ns cs \<Longrightarrow> c \<le> d \<Longrightarrow> chansOk d ns cs"
  by (auto simp: chansOk_def)

lemma distinct_map_filter: "distinct (map f xs) \<Longrightarrow> distinct (map f (filter P xs))"
  by (induction xs) auto

lemma chansOk_filter: "chansOk c ns cs \<Longrightarrow> chansOk c (filter P ns) cs"
  by (auto simp: chansOk_def distinct_map_filter)

lemma chansOk_register:
  assumes "chansOk c ns cs"
  shows "chansOk c ((i, length cs) # filter (\<lambda>p. fst p \<noteq> i) ns) (cs @ [None])"
proof -
  have "length cs \<notin> snd ` set ns" using chansOkD(1) [OF assms] by fastforce
  then show ?thesis
    using assms by (fastforce simp: chansOk_def nth_append distinct_map_filter less_Suc_eq)
qed

lemma chansOk_take: "chansOk c ns cs \<Longrightarrow> chansOk c ns (cs[ch := None])"
  unfolding chansOk_def by (metis length_list_update nth_list_update nth_list_update_neq)

lemma Start_applied: "lastApplied (snd (Start c rf)) = lastApplied rf"
  by (simp add: Start_def)

lemma begin_keeps:
  "GetBegin args kv = (ph, kv') \<Longrightarrow> kv' = kv \<or> (\<exists>c. kv' = kv\<lparr>kvRf := snd (Start c (kvRf kv))\<rparr>)"
  "DeleteBegin dargs kv = (dph, kv') \<Longrightarrow> kv' = kv \<or> (\<exists>c. kv' = kv\<lparr>kvRf := snd (Start c (kvRf kv))\<rparr>)"
  "PutAppendBegin pargs kv = (pph, kv') \<Longrightarrow> kv' = kv \<or> (\<exists>c. kv' = kv\<lparr>kvRf := snd (Start c (kvRf kv))\<rparr>)"
  by (auto simp: GetBegin_def DeleteBegin_def PutAppendBegin_def Let_def split: if_splits option.splits prod.splits) (metis snd_conv)+

lemma handler_step_chans:
  "handler_step kv kv' \<Longrightarrow> lastApplied (kvRf kv') = lastApplied (kvRf kv) \<and>
     (chansOk c (notifyChans kv) (chans kv) \<longrightarrow> chansOk c (notifyChans kv') (chans kv'))"
proof (induction rule: handler_step.induct)
  case (register index kv ch kv')
  then show ?case using chansOk_register by (auto simp: waitRegister_def)
next
  case (receive ch t kv r kv')
  then show ?case using chansOk_take by (auto simp: waitReceive_def Let_def split: option.splits prod.splits)
next
  case (finish kv index err)
  then show ?case using chansOk_filter by (auto simp: dropWait_def Let_def)
qed (auto simp: KVKill_def Kill_def Start_applied dest: begin_keeps)

lemma applyCommand_chans:
  assumes "applyCommand sz msg kv = Some (reply, data, kv1)"
  shows "notifyChans kv1 = notifyChans kv" "chans kv1 = chans kv" "kvRf kv1 = kvRf kv"
proof -
  obtain cmd where cmd: "Command msg = Some cmd" using assms by (auto simp: applyCommand_def bind_Some_iff)
  show "notifyChans kv1 = notifyChans kv" "chans kv1 = chans kv" "kvRf kv1 = kvRf kv"
    using applyCommand_refines [OF cmd, of sz kv] assms by (metis option.inject prod.inject)+
qed

lemma notify_chans:
  assumes "notify i r kv = Some kv'" and "chansOk (i - 1) (notifyChans kv) (chans kv)"
  shows "kvRf kv' = kvRf kv" and "chansOk i (notifyChans kv') (chans kv')"
proof -
  show "kvRf kv' = kvRf kv"
    using assms(1) by (auto simp: notify_def split: option.splits if_splits)
  show "chansOk i (notifyChans kv') (chans kv')"
  proof (cases "map_of (notifyChans kv) i")
    case None
    then show ?thesis using assms chansOk_mono [OF assms(2)] by (auto simp: notify_def)
  next
    case (Some ch)
    then have s: "kv' = kv\<lparr>chans := (chans kv)[ch := Some r]\<rparr>" using assms(1) by (auto simp: notify_def split: if_splits)
    have "ch' \<noteq> ch" if "(j, ch') \<in> set (notifyChans kv)" "j \<noteq> i" for j ch'
      using map_of_SomeD [OF Some] that assms(2) by (fastforce simp: chansOk_def distinct_map inj_on_def)
    then have "(chans kv)[ch := Some r] ! ch' = chans kv ! ch'" if "(j, ch') \<in> set (notifyChans kv)" "j \<noteq> i" for j ch'
      using that by (metis nth_list_update_neq)
    then show ?thesis
      using assms(2) by (auto simp: s chansOk_def)
  qed
qed

lemma flushChans_spec:
  "flushChans r ns cs = (ns', cs') \<Longrightarrow> distinct (map snd ns) \<Longrightarrow> distinct (map fst ns) \<Longrightarrow>
     length cs' = length cs \<and> set ns' \<subseteq> {p \<in> set ns. cs ! snd p \<noteq> None} \<and> distinct (map fst ns') \<and> distinct (map snd ns')"
proof (induction r ns cs arbitrary: ns' cs' rule: flushChans.induct)
  case (1 r cs)
  then show ?case by simp
next
  case (2 r i ch ns cs)
  have other: "cs[ch := Some r] ! snd p = cs ! snd p" if "p \<in> set ns" for p
    using that "2.prems"(2) by (metis distinct.simps(2) image_eqI list.set_map list.simps(9) nth_list_update_neq snd_conv)
  show ?case
  proof (cases "cs ! ch = None")
    case True
    then have "length cs' = length (cs[ch := Some r]) \<and> set ns' \<subseteq> {p \<in> set ns. cs[ch := Some r] ! snd p \<noteq> None} \<and>
        distinct (map fst ns') \<and> distinct (map snd ns')"
      using "2.IH"(1) [OF True, of ns' cs'] "2.prems" by simp
    then show ?thesis using other by auto
  next
    case False
    obtain ns1 cs1 where f: "flushChans r ns cs = (ns1, cs1)" by fastforce
    have "length cs1 = length cs \<and> set ns1 \<subseteq> {p \<in> set ns. cs ! snd p \<noteq> None} \<and> distinct (map fst ns1) \<and> distinct (map snd ns1)"
      using "2.IH"(2) [OF False f] "2.prems" by simp
    moreover have "ns' = (i, ch) # ns1" "cs' = cs1" using "2.prems"(1) False f by auto
    moreover have "fst ` set ns1 \<subseteq> fst ` set ns" "snd ` set ns1 \<subseteq> snd ` set ns" using calculation(1) by (auto intro!: image_mono)
    ultimately show ?thesis using "2.prems"(2,3) False by auto
  qed
qed

text \<open>A snapshot empties no channel and keeps only entries whose channel is full already, whatever its index.\<close>

lemma applySnapshotMsg_chans:
  assumes "chansOk c (notifyChans kv) (chans kv)"
  shows "chansOk c (notifyChans (applySnapshotMsg msg kv)) (chans (applySnapshotMsg msg kv))" and "kvRf (applySnapshotMsg msg kv) = kvRf kv"
proof -
  obtain ns cs where f: "flushChans (zeroOpReply\<lparr>orErr := ErrWrongLeader\<rparr>) (notifyChans kv) (chans kv) = (ns, cs)" by fastforce
  have spec: "length cs = length (chans kv)" "set ns \<subseteq> {p \<in> set (notifyChans kv). chans kv ! snd p \<noteq> None}"
      "distinct (map fst ns)" "distinct (map snd ns)"
    using flushChans_spec [OF f] assms by (auto simp: chansOk_def)
  have "ch < length cs \<and> \<not> c < i" if "(i, ch) \<in> set ns" for i ch
    using spec(1,2) that chansOkD [OF assms, of i ch] by auto
  then have "chansOk c ns cs" using spec(3,4) by (auto simp: chansOk_def)
  then show "chansOk c (notifyChans (applySnapshotMsg msg kv)) (chans (applySnapshotMsg msg kv))"
    using f assms by (simp add: applySnapshotMsg_def Let_def)
  show "kvRf (applySnapshotMsg msg kv) = kvRf kv" using f by (simp add: applySnapshotMsg_def Let_def)
qed

section \<open>The invariant\<close>

text \<open>
  The indices of the commands between the log and their notification, oldest first. They grow, they lie above every index that has been notified, and \<open>lastApplied\<close> is not below them.
\<close>

fun inHand :: "pc \<Rightarrow> int list" where
  "inHand Idle = []"
| "inHand (Received m) = (if CommandValid m then [CommandIndex m] else [])"
| "inHand (Snapping d i r) = [i]"
| "inHand (Notifying i r) = [i]"

definition sending :: "(Op, snapval) ApplyMsg option \<Rightarrow> int list" where
  "sending out = map CommandIndex (goSend out)"

fun runOk :: "kv_run \<Rightarrow> bool" where
  "runOk (kv, pc, out, gos) \<longleftrightarrow>
     (\<forall>m \<in> set (goSend out). CommandValid m) \<and> (\<forall>m \<in> set gos. \<not> CommandValid m) \<and>
     (\<exists>c. chansOk c (notifyChans kv) (chans kv) \<and> sorted_wrt (<) (c # inHand pc @ sending out @ [lastApplied (kvRf kv) + 1]))"

lemma sorted_snoc_mono: "sorted_wrt (<) (xs @ [a]) \<Longrightarrow> a \<le> b \<Longrightarrow> sorted_wrt (<) (xs @ [b :: int])"
  by (auto simp: sorted_wrt_append)

text \<open>Only the server's channels and the peer's \<open>lastApplied\<close> matter.\<close>

lemma runOk_keeps:
  assumes "runOk (kv, pc, out, gos)" and "inHand pc' = inHand pc" and "\<forall>m \<in> set gos'. \<not> CommandValid m"
    and "\<And>c. chansOk c (notifyChans kv) (chans kv) \<Longrightarrow> chansOk c (notifyChans kv') (chans kv')"
    and "lastApplied (kvRf kv) \<le> lastApplied (kvRf kv')"
  shows "runOk (kv', pc', out, gos')"
proof -
  obtain c where c: "chansOk c (notifyChans kv) (chans kv)" "sorted_wrt (<) ((c # inHand pc @ sending out) @ [lastApplied (kvRf kv) + 1])"
    using assms(1) by auto
  have "sorted_wrt (<) ((c # inHand pc @ sending out) @ [lastApplied (kvRf kv') + 1])"
    by (rule sorted_snoc_mono [OF c(2)]) (use assms(5) in simp)
  then show ?thesis using assms(1-3) assms(4) [OF c(1)] by auto
qed

lemma runOk_next:
  assumes ok: "runOk (kv, pc, None, gos)" and n: "applyNext (kvRf kv) = Some (rf, msg)"
  shows "runOk (kv\<lparr>kvRf := rf\<rparr>, pc, msg, gos)"
  using n
proof (cases rule: applyNext_cases)
  case idle
  then show ?thesis using ok by simp
next
  case (send e)
  obtain c where c: "chansOk c (notifyChans kv) (chans kv)" "sorted_wrt (<) (c # inHand pc @ [lastApplied (kvRf kv) + 1])"
    using ok by (auto simp: sending_def goSend_def)
  then have "sorted_wrt (<) (c # inHand pc @ [lastApplied (kvRf kv) + 1, lastApplied (kvRf kv) + 1 + 1])"
    by (fastforce simp: sorted_wrt_append)
  then show ?thesis using ok c(1) by (auto simp: send(3,4) sending_def goSend_def)
qed

lemma runOk_notified:
  assumes ok: "runOk (kv, Notifying i r, out, gos)" and n: "notify i r kv = Some kv'"
  shows "runOk (kv', Idle, out, gos)"
proof -
  obtain c where c: "chansOk c (notifyChans kv) (chans kv)" "sorted_wrt (<) (c # i # sending out @ [lastApplied (kvRf kv) + 1])"
    using ok by auto
  then have "chansOk (i - 1) (notifyChans kv) (chans kv)" by (auto intro: chansOk_mono)
  from notify_chans [OF n this] show ?thesis using ok c(2) by auto
qed

lemma server_step_runOk: "server_step sz x y \<Longrightarrow> runOk x \<Longrightarrow> runOk y"
proof (induction rule: server_step.induct)
  case (handler kv kv' pc out gos)
  then show ?case using handler_step_chans [OF handler(1)] by (intro runOk_keeps [OF handler(2)]) auto
next
  case (peer kv rf msg pc out gos)
  have "\<forall>m \<in> set (goSend msg). \<not> CommandValid m" using peer(1) peer_step_msg by (auto simp: goSend_def split: option.splits)
  then show ?case using peer peer_step_applied [OF peer(1)] by (intro runOk_keeps [OF peer(2)]) auto
next
  case (next_command kv rf msg pc gos)
  then show ?case by (rule_tac runOk_next)
next
  case (take_command kv m gos)
  then show ?case by (auto simp: sending_def goSend_def)
next
  case (take_snapshot kv out gos m gos')
  then show ?case by (intro runOk_keeps [OF take_snapshot]) auto
next
  case (command m kv reply data kv' out gos)
  then show ?case using applyCommand_chans [OF command(2)] by (intro runOk_keeps [OF command(3)]) (auto split: option.splits)
next
  case (snap d kv kv' i r out gos)
  then show ?case using Snapshot_applied by (intro runOk_keeps [OF snap(2)]) (auto simp: callSnapshot_def bind_Some_iff)
next
  case (notified i r kv kv' out gos)
  then show ?case by (rule_tac runOk_notified)
next
  case (snapmsg m kv out gos)
  then show ?case using applySnapshotMsg_chans [of _ kv m] by (intro runOk_keeps [OF snapmsg(3)]) auto
next
  case (other m kv out gos)
  then show ?case by (intro runOk_keeps [OF other(3)]) auto
qed

lemma server_steps_runOk: "(server_step sz)\<^sup>*\<^sup>* x y \<Longrightarrow> runOk x \<Longrightarrow> runOk y"
  by (induction rule: rtranclp_induct) (auto dest: server_step_runOk)

lemma StartKVServer_runOk:
  assumes "StartKVServer n i ps m now = (kv, msg)"
  shows "runOk (kv, Idle, None, goSend msg)"
proof -
  obtain rf where rf: "Make n i ps now = (rf, msg)" "notifyChans kv = []" "chans kv = []"
    using assms by (auto simp: StartKVServer_def Let_def split: prod.splits if_splits)
  then have "\<forall>m \<in> set (goSend msg). \<not> CommandValid m" by (auto simp: goSend_def split: option.splits dest: Make_msg)
  then show ?thesis using rf(2,3) by (auto simp: chansOk_def sending_def goSend_def intro: exI [of _ "lastApplied (kvRf kv)"])
qed

end
