(* ===== verification/KV_Theorems.thy ===== *)
theory KV_Theorems
  imports KV_Http KV_Delivery
begin

text \<open>
  Properties of the key/value server: what the replicas compute, what the handlers answer, and that the
  applier never blocks on a notification.
\<close>

section \<open>Notifications\<close>

text \<open>C27: The applier never blocks. However the handlers of clients, the applier, \<open>sendApplyMsg\<close>, the goroutines that deliver snapshots and the other critical sections
  of the Raft peer interleave on a server that was started from any persister, and whichever of a waiting command and a waiting snapshot is handed over first, when the applier is about
  to send a reply on a notification channel while it holds the mutex, there is room in the channel.\<close>

theorem notify_never_blocks:
  assumes "StartKVServer n i ps m now = (kv0, msg0)"
    and "(server_step sz)\<^sup>*\<^sup>* (kv0, Idle, None, goSend msg0) (kv, Notifying index reply, out, gos)"
  shows "notify index reply kv \<noteq> None"
proof -
  have "runOk (kv, Notifying index reply, out, gos)"
    by (rule server_steps_runOk [OF assms(2) StartKVServer_runOk [OF assms(1)]])
  then obtain c where c: "chansOk c (notifyChans kv) (chans kv)" "c < index" by auto
  have "chans kv ! ch = None" if "map_of (notifyChans kv) index = Some ch" for ch
    by (rule chansOkD(2) [OF c(1) map_of_SomeD [OF that] c(2)])
  then show ?thesis by (auto simp: notify_def split: option.splits)
qed

text \<open>A server that learns of a committed command from the leader and applies it while a client waits for it.\<close>

definition someServer :: KVServer where
  "someServer = fst (StartKVServer 1 0 MakePersister (-1) 0)"

definition someOp :: Op where
  "someOp = \<lparr>opType = ''Put'', opKey = ''k'', opValue = ''v'', opSeqId = 1, opClientId = 7\<rparr>"

definition someEntries :: "Op AppendEntriesArgs" where
  "someEntries = \<lparr>aeTerm = 1, aeLeaderId = 1, aePrevLogIndex = 0, aePrevLogTerm = 0, aeEntries = [\<lparr>eTerm = 1, eCommand = Some someOp\<rparr>], aeLeaderCommit = 1\<rparr>"

lemma some_command:
  obtains rf1 reply rf2 msg where "AppendEntries 0 someEntries (kvRf someServer) = Some (rf1, reply)" "applyNext rf1 = Some (rf2, Some msg)"
    "CommandValid msg" "CommandIndex msg = 1" "Command msg = Some someOp"
proof -
  have "case AppendEntries 0 someEntries (kvRf someServer) of
      Some (rf1, reply) \<Rightarrow> (case applyNext rf1 of
        Some (rf2, Some msg) \<Rightarrow> CommandValid msg \<and> CommandIndex msg = 1 \<and> Command msg = Some someOp | _ \<Rightarrow> False) | None \<Rightarrow> False"
    by code_simp
  then show ?thesis using that by (fastforce split: option.splits prod.splits)
qed

theorem notify_never_blocks_witness:
  "\<exists>kv reply. (server_step (\<lambda>_. 0))\<^sup>*\<^sup>* (someServer, Idle, None, []) (kv, Notifying 1 reply, None, []) \<and> map_of (notifyChans kv) 1 \<noteq> None \<and>
     notify 1 reply kv \<noteq> None"
proof -
  obtain rf1 aereply rf2 msg where rf: "AppendEntries 0 someEntries (kvRf someServer) = Some (rf1, aereply)" "applyNext rf1 = Some (rf2, Some msg)"
      and msg: "CommandValid msg" "CommandIndex msg = 1" "Command msg = Some someOp" by (rule some_command)
  let ?kv1 = "someServer\<lparr>kvRf := rf1\<rparr>" and ?kv2 = "someServer\<lparr>kvRf := rf2\<rparr>"
  obtain ch kv3 where r: "waitRegister 1 ?kv2 = (ch, kv3)" by fastforce
  obtain reply data kv4 where a: "applyCommand (\<lambda>_. 0) msg kv3 = Some (reply, data, kv4)" using applyCommand_refines [OF msg(3)] by metis
  have "maxraftstate kv3 = -1" using r by (auto simp: someServer_def StartKVServer_def waitRegister_def Let_def persister_defs split: prod.splits)
  then have none: "data = None" using a applyCommand_eq [OF msg(3), of "\<lambda>_. 0" kv3] by simp
  have "(server_step (\<lambda>_. 0))\<^sup>*\<^sup>* (someServer, Idle, None, []) (?kv1, Idle, None, [])"
    using server_step.peer [OF peer_step.append [OF rf(1)], of "\<lambda>_. 0" Idle None "[]"] by (simp add: goSend_def)
  also have "server_step (\<lambda>_. 0) (?kv1, Idle, None, []) (?kv2, Idle, Some msg, [])"
    using server_step.next_command [of ?kv1 rf2 "Some msg" "\<lambda>_. 0" Idle "[]"] rf(2) by simp
  also (rtranclp.rtrancl_into_rtrancl) have "server_step (\<lambda>_. 0) (?kv2, Idle, Some msg, []) (kv3, Idle, Some msg, [])"
    by (rule server_step.handler [OF handler_step.register [OF r]])
  also (rtranclp.rtrancl_into_rtrancl) have "server_step (\<lambda>_. 0) (kv3, Idle, Some msg, []) (kv3, Received msg, None, [])"
    by (rule server_step.take_command)
  also (rtranclp.rtrancl_into_rtrancl) have "server_step (\<lambda>_. 0) (kv3, Received msg, None, []) (kv4, Notifying 1 reply, None, [])"
    using server_step.command [OF msg(1) a, of None "[]"] msg(2) none by simp
  finally (rtranclp.rtrancl_into_rtrancl) have run: "(server_step (\<lambda>_. 0))\<^sup>*\<^sup>* (someServer, Idle, None, []) (kv4, Notifying 1 reply, None, [])" .
  have st: "StartKVServer 1 0 MakePersister (-1) 0 = (someServer, None)"
    by (simp add: someServer_def StartKVServer_def Make_def Let_def persister_defs split: prod.splits)
  have "map_of (notifyChans kv4) 1 \<noteq> None" using r applyCommand_chans(1) [OF a] by (auto simp: waitRegister_def)
  moreover have "notify 1 reply kv4 \<noteq> None" using notify_never_blocks [OF st] run by (simp add: goSend_def)
  ultimately show ?thesis using run by blast
qed

section \<open>Replicas\<close>

text \<open>C4: Exactly once. On a fresh server, a log that carries the requests of each client in order, with repetitions, leaves the
  store that a plain key/value map has after the same log without the repetitions; and a repeated request
  is answered like the first one.\<close>

theorem exactly_once:
  assumes "map Command msgs = map Some cmds" and "inOrder cmds"
    and "kvStore kv = Map.empty" and "recordMap kv = Map.empty"
  shows "\<exists>rs kv'. applyAll sz msgs kv = Some (rs, kv') \<and> kvStore kv' = specRun (firsts cmds []) Map.empty \<and>
    (\<forall>i < length cmds. \<forall>j < length cmds. opId (cmds ! i) = opId (cmds ! j) \<longrightarrow> rs ! i = rs ! j)"
  using applied_once [OF assms] repeated_reply [OF assms(2)] by blast

definition retryLog :: "Op list" where
  "retryLog = [\<lparr>opType = ''Append'', opKey = ''k'', opValue = ''a'', opSeqId = 1, opClientId = 7\<rparr>,
     \<lparr>opType = ''Append'', opKey = ''k'', opValue = ''a'', opSeqId = 1, opClientId = 7\<rparr>,
     \<lparr>opType = ''Append'', opKey = ''k'', opValue = ''b'', opSeqId = 2, opClientId = 7\<rparr>]"

definition asMsgs :: "Op list \<Rightarrow> (Op, snapval) ApplyMsg list" where
  "asMsgs cmds = map (\<lambda>c. zeroApplyMsg\<lparr>CommandValid := True, Command := Some c\<rparr>) cmds"

theorem exactly_once_witness:
  "\<exists>rs kv'. applyAll (\<lambda>_. 0) (asMsgs retryLog) someServer = Some (rs, kv') \<and> kvStore kv' ''k'' = Some ''ab''"
proof -
  have "inOrder retryLog" by (simp add: inOrder_def retryLog_def)
  moreover have "kvStore someServer = Map.empty" "recordMap someServer = Map.empty"
    by (simp_all add: someServer_def StartKVServer_def Let_def persister_defs split: prod.splits)
  moreover have "map Command (asMsgs retryLog) = map Some retryLog" by (simp add: asMsgs_def)
  moreover have "specRun (firsts retryLog []) Map.empty ''k'' = Some ''ab''" by code_simp
  ultimately show ?thesis using exactly_once [of "asMsgs retryLog" retryLog someServer "\<lambda>_. 0"] by fastforce
qed

text \<open>C36: Order matters. When a late repetition of an earlier request \<open>a\<close> of a client follows its later request \<open>b\<close>, the applier answers it from the records but
  sets the client's record back to the number of \<open>a\<close>; a repetition of \<open>b\<close> after that is not recognised and is applied a second time, although the log without
  repetitions has each request once.\<close>

theorem reordered_retry_applied_twice:
  assumes "map Command msgs = map Some [a, b, a, b]" and "opClientId a = opClientId b" and "opSeqId a < opSeqId b"
    and "recordMap kv (opClientId b) = None"
  shows "firsts [a, b, a, b] [] = [a, b] \<and>
    (\<exists>rs2 kv2. applyAll sz (take 2 msgs) kv = Some (rs2, kv2) \<and> kvStore kv2 = specRun [a, b] (kvStore kv) \<and>
       map_option LastSeqId (recordMap kv2 (opClientId b)) = Some (opSeqId b)) \<and>
    (\<exists>rs3 kv3. applyAll sz (take 3 msgs) kv = Some (rs3, kv3) \<and> kvStore kv3 = specRun [a, b] (kvStore kv) \<and>
       map_option LastSeqId (recordMap kv3 (opClientId b)) = Some (opSeqId a)) \<and>
    (\<exists>rs4 kv4. applyAll sz msgs kv = Some (rs4, kv4) \<and> kvStore kv4 = specRun [a, b, b] (kvStore kv))"
proof -
  define log where "log = [a, b, a, b]"
  have "\<exists>kv'. applyAll sz (take n msgs) kv = Some (fst (kvm.run (take n log) (smData kv)), kv') \<and>
      smData kv' = snd (kvm.run (take n log) (smData kv))" for n
    by (rule applyAll_refines) (use assms(1) in \<open>simp add: take_map [symmetric] log_def del: list.map\<close>)
  then have run: "\<exists>rs kv'. applyAll sz (take n msgs) kv = Some (rs, kv') \<and> smData kv' = snd (kvm.run (take n log) (smData kv))" for n by blast
  have data: "snd (kvm.run [a, b] (smData kv)) = (specRun [a, b] (kvStore kv), (recordMap kv)(opClientId b \<mapsto>
      \<lparr>LastSeqId = opSeqId b, LastReply = fst (applyToStateMachine b (specRun [a] (kvStore kv)))\<rparr>))"
    using assms(2-4) by (simp add: smStep_def specRun_def Let_def split_beta)
  then have data3: "snd (kvm.run [a, b, a] (smData kv)) = (specRun [a, b] (kvStore kv), (recordMap kv)(opClientId b \<mapsto>
      \<lparr>LastSeqId = opSeqId a, LastReply = fst (applyToStateMachine b (specRun [a] (kvStore kv)))\<rparr>))"
    using assms(2,3) kvm.run_snoc [of "[a, b]" a "smData kv"] by (simp add: smStep_def del: kvm.run.simps)
  then have data4: "fst (snd (kvm.run [a, b, a, b] (smData kv))) = specRun [a, b, b] (kvStore kv)"
    using assms(3) kvm.run_snoc [of "[a, b, a]" b "smData kv"] by (simp add: smStep_def specRun_def Let_def split_beta del: kvm.run.simps)
  have take: "take 2 log = [a, b]" "take 3 log = [a, b, a]" "take 4 log = [a, b, a, b]" by (simp_all add: log_def)
  have "take 4 msgs = msgs" using arg_cong [OF assms(1), of length] by simp
  then have "\<exists>rs4 kv4. applyAll sz msgs kv = Some (rs4, kv4) \<and> kvStore kv4 = specRun [a, b, b] (kvStore kv)"
    using run [of 4] data4 unfolding take by (metis fst_conv)
  moreover have "firsts [a, b, a, b] [] = [a, b]" using assms(3) by (simp add: opId_def)
  ultimately show ?thesis
    using run [of 2] run [of 3] data data3 unfolding take by (auto simp del: kvm.run.simps firsts.simps)
qed

definition lateLog :: "Op list" where
  "lateLog = [retryLog ! 0, retryLog ! 2, retryLog ! 0, retryLog ! 2]"

theorem reordered_retry_applied_twice_witness:
  "\<exists>rs kv'. applyAll (\<lambda>_. 0) (asMsgs lateLog) someServer = Some (rs, kv') \<and> kvStore kv' ''k'' = Some ''abb'' \<and>
     specRun (firsts lateLog []) Map.empty ''k'' = Some ''ab''"
proof -
  have m: "map Command (asMsgs lateLog) = map Some [retryLog ! 0, retryLog ! 2, retryLog ! 0, retryLog ! 2]" by (simp add: asMsgs_def lateLog_def)
  have seq: "opClientId (retryLog ! 0) = opClientId (retryLog ! 2)" "opSeqId (retryLog ! 0) < opSeqId (retryLog ! 2)" by code_simp+
  have fresh: "recordMap someServer (opClientId (retryLog ! 2)) = None" "kvStore someServer = Map.empty"
    by (simp_all add: someServer_def StartKVServer_def Let_def persister_defs split: prod.splits)
  have "specRun [retryLog ! 0, retryLog ! 2, retryLog ! 2] Map.empty ''k'' = Some ''abb''" "specRun (firsts lateLog []) Map.empty ''k'' = Some ''ab''"
    by code_simp+
  then show ?thesis using reordered_retry_applied_twice [OF m seq fresh(1), of "\<lambda>_. 0"] unfolding fresh(2) by auto
qed

text \<open>C13: State transfer. A server that installs the snapshot another server took after a prefix of the log, and applies the rest, gives the same
  replies and holds the same store and records as the server that applied the whole log.\<close>

theorem snapshot_transfer:
  assumes "map Command suf = map Some ds"
    and "applyAll sz pre a = Some (rs1, a1)" and "applyAll sz (pre @ suf) a = Some (rs2, a2)"
    and "SnapshotData msg = encodeSnapshot a1" and "kvCommitIndex b < SnapshotIndex msg"
    and "applyAll sz' suf (applySnapshotMsg msg b) = Some (rs3, b2)"
  shows "rs2 = rs1 @ rs3 \<and> kvStore b2 = kvStore a2 \<and> recordMap b2 = recordMap a2"
proof -
  obtain rs a' where a': "applyAll sz suf a1 = Some (rs, a')" "rs2 = rs1 @ rs" "a2 = a'"
    using applyAll_append [OF assms(2), of suf] assms(3) by (cases "applyAll sz suf a1") auto
  have "smData (applySnapshotMsg msg b) = smData a1"
    using assms(4,5) restoreSnapshot_dec [of "encodeSnapshot a1" "b\<lparr>kvCommitIndex := SnapshotIndex msg\<rparr>"]
    by (auto simp: applySnapshotMsg_def Let_def encodeSnapshot_enc kvm.dec_enc split: prod.splits)
  then show ?thesis
    using applyAll_refines [OF assms(1), of sz a1] applyAll_refines [OF assms(1), of sz' "applySnapshotMsg msg b"] a' assms(6)
    by (auto dest!: sym [of _ "snd (kvm.run _ _)"])
qed

theorem snapshot_transfer_witness:
  "\<exists>a1 rs1 rs2 a2 rs3 b2. applyAll (\<lambda>_. 0) (asMsgs (take 1 retryLog)) someServer = Some (rs1, a1) \<and>
     applyAll (\<lambda>_. 0) (asMsgs (take 1 retryLog) @ asMsgs (drop 1 retryLog)) someServer = Some (rs2, a2) \<and>
     applyAll (\<lambda>_. 0) (asMsgs (drop 1 retryLog))
       (applySnapshotMsg (zeroApplyMsg\<lparr>SnapshotIndex := 1, SnapshotData := encodeSnapshot a1\<rparr>) someServer) = Some (rs3, b2) \<and>
     rs2 = rs1 @ rs3 \<and> kvStore b2 = kvStore a2"
proof -
  have m: "map Command (asMsgs cs) = map Some cs" for cs by (simp add: asMsgs_def)
  then have m2: "map Command (asMsgs cs @ asMsgs ds) = map Some (cs @ ds)" for cs ds by simp
  have idx: "kvCommitIndex someServer < SnapshotIndex (zeroApplyMsg\<lparr>SnapshotIndex := 1, SnapshotData := d\<rparr>)" for d
    by (simp add: someServer_def StartKVServer_def Let_def persister_defs split: prod.splits)
  obtain rs1 a1 where 1: "applyAll (\<lambda>_. 0) (asMsgs (take 1 retryLog)) someServer = Some (rs1, a1)"
    using applyAll_refines [OF m] by blast
  obtain rs2 a2 where 2: "applyAll (\<lambda>_. 0) (asMsgs (take 1 retryLog) @ asMsgs (drop 1 retryLog)) someServer = Some (rs2, a2)"
    using applyAll_refines [OF m2] by blast
  let ?msg = "zeroApplyMsg\<lparr>SnapshotIndex := 1, SnapshotData := encodeSnapshot a1\<rparr>"
  obtain rs3 b2 where 3: "applyAll (\<lambda>_. 0) (asMsgs (drop 1 retryLog)) (applySnapshotMsg ?msg someServer) = Some (rs3, b2)"
    using applyAll_refines [OF m] by blast
  have "SnapshotData ?msg = encodeSnapshot a1" by simp
  from snapshot_transfer [OF m 1 2 this idx 3] show ?thesis using 1 2 3 by blast
qed

text \<open>C28: Restart. A server started on a persister that holds the snapshot of another one begins with that one's store and records.\<close>

theorem restart_from_snapshot:
  assumes "ReadSnapshot ps = encodeSnapshot kv" and "StartKVServer n i ps m now = (kv', msg)"
  shows "kvStore kv' = kvStore kv \<and> recordMap kv' = recordMap kv"
proof -
  have "encodeSnapshot kv \<noteq> []" by (simp add: encodeSnapshot_def)
  moreover have "smData (restoreSnapshot (encodeSnapshot kv) kv0) = smData kv" for kv0
    using restoreSnapshot_dec [of "encodeSnapshot kv" kv0] by (simp add: encodeSnapshot_enc kvm.dec_enc)
  ultimately show ?thesis using assms by (auto simp: StartKVServer_def Let_def split: prod.splits)
qed

theorem restart_from_snapshot_witness:
  "\<exists>kv' msg. StartKVServer 1 0 \<lparr>raftstate = [], snapshot = encodeSnapshot (someServer\<lparr>kvStore := [''k'' \<mapsto> ''v'']\<rparr>)\<rparr> 9 0 = (kv', msg) \<and>
     kvStore kv' ''k'' = Some ''v''"
proof -
  let ?kv = "someServer\<lparr>kvStore := [''k'' \<mapsto> ''v'']\<rparr>"
  let ?ps = "\<lparr>raftstate = [], snapshot = encodeSnapshot ?kv\<rparr>"
  obtain kv' msg where s: "StartKVServer 1 0 ?ps 9 0 = (kv', msg)" by fastforce
  have "ReadSnapshot ?ps = encodeSnapshot ?kv" by (simp add: persister_defs)
  from restart_from_snapshot [OF this s] s show ?thesis by simp
qed

section \<open>Handlers\<close>

text \<open>A write enters the log at most once per call. \<open>PutAppend\<close> either answers at once and leaves the log alone, or, on a live leader that has not
  recorded the request, appends exactly the client's command and waits at its index in the current term.
  The store and the records are untouched.\<close>

lemma put_append_begin:
  assumes "PutAppendBegin args kv = (ph, kv')"
  shows "kvStore kv' = kvStore kv \<and> recordMap kv' = recordMap kv \<and>
    (case ph of
       Done reply \<Rightarrow> logs (kvRf kv') = logs (kvRf kv)
     | Wait index tm \<Rightarrow> \<not> KVKilled kv \<and> rstate (kvRf kv) = 0 \<and> seen (paClientId args) (paSeqId args) kv = None \<and>
         index = lastIncludedIndex (kvRf kv) + int (length (logs (kvRf kv))) \<and> tm = currTerm (kvRf kv) \<and>
         logs (kvRf kv') = logs (kvRf kv) @ [\<lparr>eTerm = tm, eCommand = Some \<lparr>opType = paOp args, opKey = paKey args,
           opValue = paValue args, opSeqId = paSeqId args, opClientId = paClientId args\<rparr>\<rparr>])"
  using assms
  by (auto simp: PutAppendBegin_def Start_def persist_def lastLogicalIndex_def getLogicalIndex_def Let_def split: if_splits option.splits prod.splits)

text \<open>An OK needs a leader. \<open>waitApplied\<close> reports OK only while the Raft peer is leader in the term in which the command was started; the
  channel is empty again afterwards.\<close>

lemma wait_ok_only_as_leader:
  assumes "waitReceive ch startTerm kv = Some ((opreply, err), kv')" and "ch < length (chans kv)"
  shows "chans kv ! ch = Some opreply \<and> chans kv' ! ch = None \<and>
    err = (if rstate (kvRf kv) = 0 \<and> currTerm (kvRf kv) = startTerm then OK else ErrWrongLeader)"
  using assms by (auto simp: waitReceive_def GetState_def Let_def split: option.splits)

text \<open>C37: Writes lost behind the HTTP front. Each server numbers the requests that carry no client of their own by itself, but all servers give them the same client. When one server has taken a put of
  this kind into its log, and another server, which has numbered no more such requests, has applied it, then that server answers its next put of this kind with 200 and OK, although the put
  reaches neither its log nor its store.\<close>

theorem http_put_dropped:
  assumes "parse b = Some \<lparr>hOp = ''put'', hKey = k, hValue = v, hClientID = 0, hSeqID = 0\<rparr>" and "ServeHTTP parse ''POST'' (Some b) leader = (Wait index tm, leader')"
    and "Command msg = eCommand (last (logs (kvRf leader')))" and "applyCommand sz msg other = Some (reply, data, other')"
    and "recordMap other httpClientID = None" and "\<not> KVKilled other"
    and "- (2 ^ 63) \<le> httpSeq other" and "httpSeq other \<le> httpSeq leader" and "httpSeq leader + 1 < 2 ^ 63"
    and "parse b' = Some \<lparr>hOp = ''put'', hKey = k', hValue = v', hClientID = 0, hSeqID = 0\<rparr>" and "k' \<noteq> ''''"
  shows "kvStore other' = (kvStore other)(k \<mapsto> v) \<and>
    (\<exists>other''. ServeHTTP parse ''POST'' (Some b') other' = (Done (HttpJson 200 \<lparr>rOK = True, rValue = '''', rErr = OK\<rparr>), other'') \<and>
       kvRf other'' = kvRf other \<and> kvStore other'' = (kvStore other)(k \<mapsto> v))"
proof -
  define args where "args = \<lparr>paKey = k, paValue = v, paOp = ''Put'', paSeqId = httpSeq leader + 1, paClientId = httpClientID\<rparr>"
  have seq: "wrap64 (httpSeq leader + 1) = httpSeq leader + 1" "wrap64 (httpSeq other + 1) = httpSeq other + 1"
    using assms(7-9) by (simp_all add: wrap64_def)
  have put: "PutAppendBegin args (leader\<lparr>httpSeq := httpSeq leader + 1\<rparr>) = (Wait index tm, leader')"
    using assms(1,2) seq(1)
    by (auto simp: ServeHTTP_def nextHTTPSeq_def executeHTTPWithClient_def args_def Let_def split: if_splits prod.splits elim!: mapPhase.elims)
  define cmd where "cmd = \<lparr>opType = ''Put'', opKey = k, opValue = v, opSeqId = httpSeq leader + 1, opClientId = httpClientID\<rparr>"
  have "Command msg = Some cmd" using put_append_begin [OF put] assms(3) by (simp add: args_def cmd_def)
  then have other': "other' = applied cmd (CommandIndex msg) other" using applyCommand_eq [of msg cmd sz other] assms(4) by auto
  have step: "smStep cmd (smData other) = (\<lparr>orErr = OK, orValue = ''''\<rparr>, ((kvStore other)(k \<mapsto> v),
      (recordMap other)(httpClientID \<mapsto> \<lparr>LastSeqId = httpSeq leader + 1, LastReply = \<lparr>orErr = OK, orValue = ''''\<rparr>\<rparr>)))"
    using assms(5) by (simp add: smStep_def cmd_def applyToStateMachine_def putHandler_def)
  have sel: "kvStore other' = (kvStore other)(k \<mapsto> v)" "kvRf other' = kvRf other" "httpSeq other' = httpSeq other" "kvDead other' = kvDead other"
      "recordMap other' httpClientID = Some \<lparr>LastSeqId = httpSeq leader + 1, LastReply = \<lparr>orErr = OK, orValue = ''''\<rparr>\<rparr>"
    by (simp_all add: other' applied_def step)
  have "ServeHTTP parse ''POST'' (Some b') other' =
      (Done (HttpJson 200 \<lparr>rOK = True, rValue = '''', rErr = OK\<rparr>), other'\<lparr>httpSeq := httpSeq other + 1\<rparr>)"
    using assms(6,8,10,11) sel seq(2)
    by (simp add: ServeHTTP_def nextHTTPSeq_def executeHTTPWithClient_def PutAppendBegin_def seen_def KVKilled_def httpResponseFromErr_def httpStatus_def err_defs Let_def)
  then show ?thesis using sel by simp
qed

text \<open>Two fresh servers, one of them leader: the first put at each.\<close>

definition someLeader :: KVServer where
  "someLeader = someServer\<lparr>kvRf := (kvRf someServer)\<lparr>rstate := 0\<rparr>\<rparr>"

definition parsePut :: "string \<Rightarrow> HTTPRequest option" where
  "parsePut b = Some \<lparr>hOp = ''put'', hKey = ''k'', hValue = b, hClientID = 0, hSeqID = 0\<rparr>"

theorem http_put_dropped_witness:
  "\<exists>index tm leader' msg reply data other' other''. ServeHTTP parsePut ''POST'' (Some ''v'') someLeader = (Wait index tm, leader') \<and>
     Command msg = eCommand (last (logs (kvRf leader'))) \<and> applyCommand (\<lambda>_. 0) msg someServer = Some (reply, data, other') \<and>
     ServeHTTP parsePut ''POST'' (Some ''w'') other' = (Done (HttpJson 200 \<lparr>rOK = True, rValue = '''', rErr = OK\<rparr>), other'') \<and>
     kvStore other'' ''k'' = Some ''v''"
proof -
  have "case ServeHTTP parsePut ''POST'' (Some ''v'') someLeader of
      (Wait index tm, leader') \<Rightarrow> eCommand (last (logs (kvRf leader'))) \<noteq> None | _ \<Rightarrow> False" by code_simp
  then obtain index tm leader' cmd where l: "ServeHTTP parsePut ''POST'' (Some ''v'') someLeader = (Wait index tm, leader')"
      "eCommand (last (logs (kvRf leader'))) = Some cmd" by (auto split: prod.splits phase.splits)
  define msg where "msg = (zeroApplyMsg\<lparr>Command := Some cmd\<rparr> :: (Op, snapval) ApplyMsg)"
  have m: "Command msg = eCommand (last (logs (kvRf leader')))" "Command msg = Some cmd" using l(2) by (simp_all add: msg_def)
  obtain reply data other' where a: "applyCommand (\<lambda>_. 0) msg someServer = Some (reply, data, other')" using applyCommand_refines [OF m(2)] by metis
  have fresh: "recordMap someServer httpClientID = None" "\<not> KVKilled someServer" "httpSeq someServer = 0" "httpSeq someLeader = 0"
    by (simp_all add: someLeader_def someServer_def StartKVServer_def KVKilled_def Let_def persister_defs split: prod.splits)
  have p: "parsePut x = Some \<lparr>hOp = ''put'', hKey = ''k'', hValue = x, hClientID = 0, hSeqID = 0\<rparr>" for x by (simp add: parsePut_def)
  from http_put_dropped [OF p l(1) m(1) a fresh(1,2) _ _ _ p, of "''w''"] obtain other'' where
      "ServeHTTP parsePut ''POST'' (Some ''w'') other' = (Done (HttpJson 200 \<lparr>rOK = True, rValue = '''', rErr = OK\<rparr>), other'')" "kvStore other'' ''k'' = Some ''v''"
    using fresh(3,4) by auto
  then show ?thesis using l(1) m(1) a by blast
qed

end
