(* ===== verification/Go_Stdlib.thy ===== *)
theory Go_Stdlib
  imports Go_Prelude
begin

text \<open>
  What the code uses of Go's \<open>strings\<close> and \<open>fmt\<close>: trimming, splitting and decimal printing, with
  the facts the components need (a split list can be joined again, a printed number determines the
  number). A \<open>char\<close> stands for a code point below 256. The last section is the rotation through a list of
  servers that both clients of the key/value service perform.
\<close>

section \<open>Trimming and splitting\<close>

text \<open>\<open>unicode.IsSpace\<close> on Latin-1.\<close>

definition isSpace :: "char \<Rightarrow> bool" where
  "isSpace c \<longleftrightarrow> (let n = (of_char c :: nat) in (9 \<le> n \<and> n \<le> 13) \<or> n = 32 \<or> n = 0x85 \<or> n = 0xA0)"

definition trimRightBy :: "(char \<Rightarrow> bool) \<Rightarrow> string \<Rightarrow> string" where
  "trimRightBy p s = rev (dropWhile p (rev s))"

definition trimSpace :: "string \<Rightarrow> string" where
  "trimSpace s = trimRightBy isSpace (dropWhile isSpace s)"

definition trimRight :: "string \<Rightarrow> string \<Rightarrow> string" where
  "trimRight s cutset = trimRightBy (\<lambda>c. c \<in> set cutset) s"

lemma trimRightBy_last: "trimRightBy p s \<noteq> [] \<Longrightarrow> \<not> p (last (trimRightBy p s))"
  using hd_dropWhile [of p "rev s"] by (simp add: trimRightBy_def last_rev del: dropWhile_eq_Nil_conv)

lemma trimRightBy_id: "s = [] \<or> \<not> p (last s) \<Longrightarrow> trimRightBy p s = s"
  by (cases s rule: rev_cases) (auto simp: trimRightBy_def)

text \<open>\<open>strings.Split(s, sep)\<close> for a separator of one character.\<close>

fun splitOn :: "char \<Rightarrow> string \<Rightarrow> string list" where
  "splitOn c [] = [[]]"
| "splitOn c (x # xs) =
    (if x = c then [] # splitOn c xs
     else case splitOn c xs of [] \<Rightarrow> [[x]] | y # ys \<Rightarrow> (x # y) # ys)"

fun joinWith :: "char \<Rightarrow> string list \<Rightarrow> string" where
  "joinWith c [] = []"
| "joinWith c [s] = s"
| "joinWith c (s # t # ts) = s @ c # joinWith c (t # ts)"

lemma splitOn_not_Nil [simp]: "splitOn c s \<noteq> []"
  by (induction s) (auto split: list.splits)

lemma splitOn_append: "c \<notin> set s \<Longrightarrow> splitOn c (s @ c # t) = s # splitOn c t"
  by (induction s) auto

lemma splitOn_single: "c \<notin> set s \<Longrightarrow> splitOn c s = [s]"
  by (induction s) auto

lemma splitOn_joinWith: "ss \<noteq> [] \<Longrightarrow> \<forall>s \<in> set ss. c \<notin> set s \<Longrightarrow> splitOn c (joinWith c ss) = ss"
  by (induction c ss rule: joinWith.induct) (auto simp: splitOn_append splitOn_single)

section \<open>Decimal numbers\<close>

definition digit :: "nat \<Rightarrow> char" where
  "digit d = char_of (48 + d)"

fun showNat :: "nat \<Rightarrow> string" where
  "showNat n = (if n < 10 then [digit n] else showNat (n div 10) @ [digit (n mod 10)])"

declare showNat.simps [simp del]

definition showInt :: "int \<Rightarrow> string" where
  "showInt i = (if i < 0 then CHR ''-'' # showNat (nat (- i)) else showNat (nat i))"

definition readNat :: "string \<Rightarrow> nat" where
  "readNat s = foldl (\<lambda>n c. 10 * n + (of_char c - 48)) 0 s"

lemma of_char_digit: "d < 10 \<Longrightarrow> (of_char (digit d) :: nat) = 48 + d"
  by (simp add: digit_def)

lemma readNat_showNat [simp]: "readNat (showNat n) = n"
proof (induction n rule: showNat.induct)
  case (1 n)
  then show ?case
    by (cases "n < 10") (simp_all add: showNat.simps [of n] readNat_def of_char_digit)
qed

lemma showNat_chars: "c \<in> set (showNat n) \<Longrightarrow> 48 \<le> (of_char c :: nat) \<and> (of_char c :: nat) \<le> 57"
proof (induction n rule: showNat.induct)
  case (1 n)
  then show ?case
    by (cases "n < 10") (auto simp: showNat.simps [of n] of_char_digit)
qed

lemma showInt_chars: "c \<in> set (showInt i) \<Longrightarrow> c \<noteq> CHR '':'' \<and> c \<noteq> CHR ''/''"
  using showNat_chars by (fastforce simp: showInt_def split: if_splits)

lemma showNat_no_minus: "showNat n \<noteq> CHR ''-'' # s"
  using showNat_chars [of "CHR ''-''" n] by auto

lemma showInt_inject [simp]: "showInt i = showInt j \<longleftrightarrow> i = j"
proof
  assume eq: "showInt i = showInt j"
  have nat_eq: "showNat a = showNat b \<Longrightarrow> a = b" for a b using readNat_showNat by metis
  show "i = j"
    using eq nat_eq showNat_no_minus showNat_no_minus [symmetric]
    by (auto simp: showInt_def split: if_splits dest!: nat_eq)
qed simp

text \<open>A number after the last colon can be split off again.\<close>

lemma colon_number_inject:
  "s @ CHR '':'' # showInt i = t @ CHR '':'' # showInt j \<longleftrightarrow> s = t \<and> i = j"
proof
  assume eq: "s @ CHR '':'' # showInt i = t @ CHR '':'' # showInt j"
  have split: "takeWhile (\<lambda>c. c \<noteq> CHR '':'') (rev (u @ CHR '':'' # showInt k)) = rev (showInt k)" for u k
    by (subst rev_append) (simp, subst takeWhile_append2, auto dest: showInt_chars)
  then have "rev (showInt i) = rev (showInt j)" using eq by metis
  then show "s = t \<and> i = j" using eq by simp
qed simp

section \<open>Taking servers in turn\<close>

locale round_robin =
  fixes size :: "'s \<Rightarrow> nat" and pos :: "'s \<Rightarrow> int" and advance :: "'s \<Rightarrow> 's"
  assumes size_advance: "size (advance s) = size s"
    and pos_advance: "0 < size s \<Longrightarrow> pos (advance s) = (pos s + 1) mod int (size s)"
begin

lemma size_iterate [simp]: "size ((advance ^^ k) s) = size s"
  by (induction k) (simp_all add: size_advance)

lemma pos_iterate:
  assumes "0 < size s" and "0 \<le> pos s" and "pos s < int (size s)"
  shows "pos ((advance ^^ k) s) = (pos s + int k) mod int (size s)"
  using assms by (induction k) (simp_all add: pos_advance mod_simps ac_simps)

lemma pos_range:
  assumes "0 < size s"
  shows "0 \<le> pos (advance s)" and "pos (advance s) < int (size s)"
  using assms by (simp_all add: pos_advance)

text \<open>Every position comes up within one round.\<close>

lemma reaches:
  assumes "0 \<le> pos s" and "pos s < int (size s)" and "0 \<le> j" and "j < int (size s)"
  obtains k where "k < size s" and "pos ((advance ^^ k) s) = j"
proof
  let ?n = "int (size s)" and ?k = "nat ((j - pos s) mod int (size s))"
  have n: "0 < size s" using assms by simp
  have k: "int ?k = (j - pos s) mod ?n" using n by simp
  show "?k < size s" using n k by (metis of_nat_less_iff pos_mod_bound of_nat_0_less_iff)
  show "pos ((advance ^^ ?k) s) = j"
    unfolding pos_iterate [OF n assms(1,2)] k using assms(3,4) by (simp add: mod_simps)
qed

end

end
