(* ===== verification/KV_Clerk.thy ===== *)
theory KV_Clerk
  imports KV_Apply Go_Stdlib "HOL-Library.Sublist"
begin

text \<open>
  The RPC client of the key/value service: \<open>src/kvraft/client.go\<close>. The network is a function that
  takes an end, the arguments and the state of the world to a reply (\<open>None\<close>: the call failed) and a
  new state. The loops retry until they get an answer, so they have a fuel argument; \<open>Retrying\<close> is a
  call that has not returned yet. A clerk is used by one goroutine at a time.
\<close>

section \<open>Data and loops\<close>

record Clerk =
  ckServers :: "string list"
  currLeader :: int
  ckClientId :: int
  ckSeqId :: int

datatype ('a, 'w) clerk_out = Returned 'a Clerk 'w | Retrying Clerk 'w | NoServer

text \<open>\<open>nrand\<close> gives a number below \<open>2^62\<close>; here it is the argument \<open>r\<close>.\<close>

definition MakeClerk :: "string list \<Rightarrow> int \<Rightarrow> Clerk" where
  "MakeClerk servers r = \<lparr>ckServers = servers, currLeader = 0, ckClientId = r mod 2 ^ 62, ckSeqId = 0\<rparr>"

definition nextServer :: "Clerk \<Rightarrow> Clerk" where
  "nextServer ck = ck\<lparr>currLeader := (currLeader ck + 1) mod int (length (ckServers ck))\<rparr>"

fun clerkGetLoop ::
  "(string \<Rightarrow> GetArgs \<Rightarrow> 'w \<Rightarrow> GetReply option \<times> 'w) \<Rightarrow> string \<Rightarrow> int \<Rightarrow> nat \<Rightarrow> Err \<times> Clerk \<times> 'w \<Rightarrow>
   (string, 'w) clerk_out" where
  "clerkGetLoop call key unum 0 (err, ck, w) = Retrying ck w"
| "clerkGetLoop call key unum (Suc n) (err, ck, w) =
    (if err = ''OK'' then Returned '''' ck w
     else let args = \<lparr>gKey = key, gSeqId = unum, gClientId = ckClientId ck\<rparr> in
       case idx (ckServers ck) (currLeader ck) of
         None \<Rightarrow> NoServer
       | Some e \<Rightarrow>
           (case call e args w of
              (None, w1) \<Rightarrow> clerkGetLoop call key unum n (err, nextServer ck, w1)
            | (Some reply, w1) \<Rightarrow>
                if grErr reply = ErrWrongLeader \<or> grErr reply = ErrTimeOut
                then clerkGetLoop call key unum n (grErr reply, nextServer ck, w1)
                else if grErr reply = ErrNoKey then Returned '''' ck w1
                else if grErr reply = OK then Returned (grValue reply) ck w1
                else clerkGetLoop call key unum n (grErr reply, ck, w1)))"

fun clerkPutLoop ::
  "(string \<Rightarrow> PutAppendArgs \<Rightarrow> 'w \<Rightarrow> PutAppendReply option \<times> 'w) \<Rightarrow> string \<Rightarrow> string \<Rightarrow> string \<Rightarrow> int \<Rightarrow> nat \<Rightarrow>
   Err \<times> Clerk \<times> 'w \<Rightarrow> (unit, 'w) clerk_out" where
  "clerkPutLoop call key val op unum 0 (err, ck, w) = Retrying ck w"
| "clerkPutLoop call key val op unum (Suc n) (err, ck, w) =
    (if err = ''OK'' then Returned () ck w
     else let args = \<lparr>paKey = key, paValue = val, paOp = op, paSeqId = unum, paClientId = ckClientId ck\<rparr> in
       case idx (ckServers ck) (currLeader ck) of
         None \<Rightarrow> NoServer
       | Some e \<Rightarrow>
           (case call e args w of
              (None, w1) \<Rightarrow> clerkPutLoop call key val op unum n (err, nextServer ck, w1)
            | (Some reply, w1) \<Rightarrow>
                if parErr reply = ErrWrongLeader \<or> parErr reply = ErrTimeOut
                then clerkPutLoop call key val op unum n (parErr reply, nextServer ck, w1)
                else if parErr reply = OK then Returned () ck w1
                else clerkPutLoop call key val op unum n (parErr reply, ck, w1)))"

definition clerkGet ::
  "(string \<Rightarrow> GetArgs \<Rightarrow> 'w \<Rightarrow> GetReply option \<times> 'w) \<Rightarrow> nat \<Rightarrow> string \<Rightarrow> Clerk \<times> 'w \<Rightarrow> (string, 'w) clerk_out" where
  "clerkGet call fuel key s =
    clerkGetLoop call key (ckSeqId (fst s)) fuel ('''', (fst s)\<lparr>ckSeqId := ckSeqId (fst s) + 1\<rparr>, snd s)"

definition clerkPutAppend ::
  "(string \<Rightarrow> PutAppendArgs \<Rightarrow> 'w \<Rightarrow> PutAppendReply option \<times> 'w) \<Rightarrow> nat \<Rightarrow> string \<Rightarrow> string \<Rightarrow> string \<Rightarrow> Clerk \<times> 'w \<Rightarrow>
   (unit, 'w) clerk_out" where
  "clerkPutAppend call fuel key val op s =
    clerkPutLoop call key val op (ckSeqId (fst s)) fuel ('''', (fst s)\<lparr>ckSeqId := ckSeqId (fst s) + 1\<rparr>, snd s)"

definition clerkPut where "clerkPut call fuel key val = clerkPutAppend call fuel key val ''Put''"
definition clerkAppend where "clerkAppend call fuel key val = clerkPutAppend call fuel key val ''Append''"

section \<open>A server that answers is found\<close>

text \<open>
  A loop that moves on to the next server when the current one fails, and stops when it answers,
  stops within one round if one server answers and the others fail.
\<close>

locale retry_loop = round_robin size pos advance
  for size :: "'s \<Rightarrow> nat" and pos :: "'s \<Rightarrow> int" and advance :: "'s \<Rightarrow> 's" +
  fixes loop :: "nat \<Rightarrow> 'st \<Rightarrow> 'o"
    and cfg :: "'st \<Rightarrow> 's"
    and ok :: "'st \<Rightarrow> bool"
    and fails :: "'s \<Rightarrow> int \<Rightarrow> bool"
    and answers :: "'s \<Rightarrow> int \<Rightarrow> bool"
    and good :: "'o \<Rightarrow> bool"
  assumes fails_advance: "fails (advance s) = fails s"
    and answers_advance: "answers (advance s) = answers s"
    and fail_step: "ok st \<Longrightarrow> 0 \<le> pos (cfg st) \<Longrightarrow> pos (cfg st) < int (size (cfg st)) \<Longrightarrow> fails (cfg st) (pos (cfg st)) \<Longrightarrow>
      \<exists>st'. loop (Suc n) st = loop n st' \<and> cfg st' = advance (cfg st) \<and> ok st'"
    and answer_step: "ok st \<Longrightarrow> 0 \<le> pos (cfg st) \<Longrightarrow> pos (cfg st) < int (size (cfg st)) \<Longrightarrow> answers (cfg st) (pos (cfg st)) \<Longrightarrow>
      good (loop (Suc n) st)"
begin

lemma answered:
  assumes "ok st" and "0 \<le> pos (cfg st)" and "pos (cfg st) < int (size (cfg st))"
    and "pos ((advance ^^ k) (cfg st)) = j" and "answers (cfg st) j"
    and "\<And>i. 0 \<le> i \<Longrightarrow> i < int (size (cfg st)) \<Longrightarrow> i \<noteq> j \<Longrightarrow> fails (cfg st) i"
  shows "good (loop (Suc k + m) st)"
  using assms
proof (induction k arbitrary: st)
  case 0
  then show ?case using answer_step by simp
next
  case (Suc k)
  show ?case
  proof (cases "pos (cfg st) = j")
    case True
    then show ?thesis using Suc.prems answer_step [of st "Suc k + m"] by simp
  next
    case False
    then obtain st' where st': "loop (Suc (Suc k + m)) st = loop (Suc k + m) st'" "cfg st' = advance (cfg st)" "ok st'"
      using fail_step [OF Suc.prems(1-3) Suc.prems(6) [OF Suc.prems(2,3)]] by blast
    have "0 < size (cfg st)" using Suc.prems(2,3) by simp
    then have "good (loop (Suc k + m) st')"
      using Suc.prems(4-6) pos_range [of "cfg st"] st'(3)
      by (intro Suc.IH) (simp_all add: st'(2) fails_advance answers_advance size_advance funpow_swap1)
    then show ?thesis using st'(1) by simp
  qed
qed

lemma answered_within_round:
  assumes "ok st" and "0 \<le> pos (cfg st)" and "pos (cfg st) < int (size (cfg st))" and "0 \<le> j" and "j < int (size (cfg st))"
    and "answers (cfg st) j" and "\<And>i. 0 \<le> i \<Longrightarrow> i < int (size (cfg st)) \<Longrightarrow> i \<noteq> j \<Longrightarrow> fails (cfg st) i"
    and "size (cfg st) \<le> fuel"
  shows "good (loop fuel st)"
proof -
  obtain k where k: "k < size (cfg st)" "pos ((advance ^^ k) (cfg st)) = j"
    using reaches [OF assms(2,3,4,5)] by blast
  have "fuel = Suc k + (fuel - Suc k)" using k(1) assms(8) by simp
  then show ?thesis using answered [OF assms(1-3) k(2) assms(6,7)] by metis
qed

end

interpretation clerkTurns: round_robin "\<lambda>ck. length (ckServers ck)" currLeader nextServer
  by unfold_locales (simp_all add: nextServer_def)

text \<open>What a reply means for the loop, whatever the state of the world.\<close>

definition getFails :: "(string \<Rightarrow> GetArgs \<Rightarrow> 'w \<Rightarrow> GetReply option \<times> 'w) \<Rightarrow> Clerk \<Rightarrow> int \<Rightarrow> bool" where
  "getFails call ck i \<longleftrightarrow> (\<forall>args w. case fst (call (ckServers ck ! nat i) args w) of
     None \<Rightarrow> True | Some reply \<Rightarrow> grErr reply = ErrWrongLeader \<or> grErr reply = ErrTimeOut)"

definition getAnswers :: "(string \<Rightarrow> GetArgs \<Rightarrow> 'w \<Rightarrow> GetReply option \<times> 'w) \<Rightarrow> Clerk \<Rightarrow> int \<Rightarrow> bool" where
  "getAnswers call ck i \<longleftrightarrow> (\<forall>args w. case fst (call (ckServers ck ! nat i) args w) of
     None \<Rightarrow> False | Some reply \<Rightarrow> grErr reply = OK \<or> grErr reply = ErrNoKey)"

definition putFails :: "(string \<Rightarrow> PutAppendArgs \<Rightarrow> 'w \<Rightarrow> PutAppendReply option \<times> 'w) \<Rightarrow> Clerk \<Rightarrow> int \<Rightarrow> bool" where
  "putFails call ck i \<longleftrightarrow> (\<forall>args w. case fst (call (ckServers ck ! nat i) args w) of
     None \<Rightarrow> True | Some reply \<Rightarrow> parErr reply = ErrWrongLeader \<or> parErr reply = ErrTimeOut)"

definition putAnswers :: "(string \<Rightarrow> PutAppendArgs \<Rightarrow> 'w \<Rightarrow> PutAppendReply option \<times> 'w) \<Rightarrow> Clerk \<Rightarrow> int \<Rightarrow> bool" where
  "putAnswers call ck i \<longleftrightarrow> (\<forall>args w. case fst (call (ckServers ck ! nat i) args w) of
     None \<Rightarrow> False | Some reply \<Rightarrow> parErr reply = OK)"

definition returned :: "('a, 'w) clerk_out \<Rightarrow> bool" where
  "returned out \<longleftrightarrow> (case out of Returned a ck w \<Rightarrow> True | _ \<Rightarrow> False)"

lemma nextServer_sel [simp]: "ckServers (nextServer ck) = ckServers ck" "ckClientId (nextServer ck) = ckClientId ck"
  "ckSeqId (nextServer ck) = ckSeqId ck"
  by (simp_all add: nextServer_def)

interpretation getRetry: retry_loop "\<lambda>ck. length (ckServers ck)" currLeader nextServer
  "clerkGetLoop call key unum" "\<lambda>st. fst (snd st)" "\<lambda>st. fst st \<noteq> OK" "getFails call" "getAnswers call" returned
  for call key unum
proof unfold_locales
  fix st :: "Err \<times> Clerk \<times> 'a" and n
  assume ok: "fst st \<noteq> OK" and r: "0 \<le> currLeader (fst (snd st))" "currLeader (fst (snd st)) < int (length (ckServers (fst (snd st))))"
  obtain err ck w where st: "st = (err, ck, w)" by (cases st)
  let ?args = "\<lparr>gKey = key, gSeqId = unum, gClientId = ckClientId ck\<rparr>"
  obtain r w1 where c: "call (ckServers ck ! nat (currLeader ck)) ?args w = (r, w1)" by fastforce
  have i: "idx (ckServers ck) (currLeader ck) = Some (ckServers ck ! nat (currLeader ck))" using r by (simp add: st idx_def)
  {
    assume "getFails call (fst (snd st)) (currLeader (fst (snd st)))"
    then show "\<exists>st'. clerkGetLoop call key unum (Suc n) st = clerkGetLoop call key unum n st' \<and>
        fst (snd st') = nextServer (fst (snd st)) \<and> fst st' \<noteq> OK"
      unfolding getFails_def st using ok c i
      by (auto simp: st err_defs split: option.splits dest!: spec [of _ ?args] spec [of _ w]
          intro!: exI [of _ "(if r = None then err else grErr (the r), nextServer ck, w1)"])
  next
    assume "getAnswers call (fst (snd st)) (currLeader (fst (snd st)))"
    then show "returned (clerkGetLoop call key unum (Suc n) st)"
      unfolding getAnswers_def st using ok c i
      by (auto simp: st err_defs returned_def split: option.splits dest!: spec [of _ ?args] spec [of _ w])
  }
qed (simp_all add: getFails_def getAnswers_def fun_eq_iff)

interpretation putRetry: retry_loop "\<lambda>ck. length (ckServers ck)" currLeader nextServer
  "clerkPutLoop call key val op unum" "\<lambda>st. fst (snd st)" "\<lambda>st. fst st \<noteq> OK" "putFails call" "putAnswers call" returned
  for call key val op unum
proof unfold_locales
  fix st :: "Err \<times> Clerk \<times> 'a" and n
  assume ok: "fst st \<noteq> OK" and r: "0 \<le> currLeader (fst (snd st))" "currLeader (fst (snd st)) < int (length (ckServers (fst (snd st))))"
  obtain err ck w where st: "st = (err, ck, w)" by (cases st)
  let ?args = "\<lparr>paKey = key, paValue = val, paOp = op, paSeqId = unum, paClientId = ckClientId ck\<rparr>"
  obtain r w1 where c: "call (ckServers ck ! nat (currLeader ck)) ?args w = (r, w1)" by fastforce
  have i: "idx (ckServers ck) (currLeader ck) = Some (ckServers ck ! nat (currLeader ck))" using r by (simp add: st idx_def)
  {
    assume "putFails call (fst (snd st)) (currLeader (fst (snd st)))"
    then show "\<exists>st'. clerkPutLoop call key val op unum (Suc n) st = clerkPutLoop call key val op unum n st' \<and>
        fst (snd st') = nextServer (fst (snd st)) \<and> fst st' \<noteq> OK"
      unfolding putFails_def st using ok c i
      by (auto simp: st err_defs split: option.splits dest!: spec [of _ ?args] spec [of _ w]
          intro!: exI [of _ "(if r = None then err else parErr (the r), nextServer ck, w1)"])
  next
    assume "putAnswers call (fst (snd st)) (currLeader (fst (snd st)))"
    then show "returned (clerkPutLoop call key val op unum (Suc n) st)"
      unfolding putAnswers_def st using ok c i
      by (auto simp: st err_defs returned_def split: option.splits dest!: spec [of _ ?args] spec [of _ w])
  }
qed (simp_all add: putFails_def putAnswers_def fun_eq_iff)

section \<open>What a clerk sends\<close>

text \<open>
  A clerk used for a sequence of calls, over a network that also writes down the command each
  request asks the server to start. The run stops at a call that has not returned.
\<close>

datatype clerk_call = ClerkGet string | ClerkPutAppend string string string

definition getOp :: "GetArgs \<Rightarrow> Op" where
  "getOp args = \<lparr>opType = ''Get'', opKey = gKey args, opValue = '''', opSeqId = gSeqId args, opClientId = gClientId args\<rparr>"

definition putOp :: "PutAppendArgs \<Rightarrow> Op" where
  "putOp args = \<lparr>opType = paOp args, opKey = paKey args, opValue = paValue args, opSeqId = paSeqId args, opClientId = paClientId args\<rparr>"

definition recording :: "('arg \<Rightarrow> Op) \<Rightarrow> (string \<Rightarrow> 'arg \<Rightarrow> 'w \<Rightarrow> 'r option \<times> 'w) \<Rightarrow>
    string \<Rightarrow> 'arg \<Rightarrow> 'w \<times> Op list \<Rightarrow> 'r option \<times> ('w \<times> Op list)" where
  "recording f call e args s = (case call e args (fst s) of (r, w) \<Rightarrow> (r, w, snd s @ [f args]))"

fun clerkRun ::
  "(string \<Rightarrow> GetArgs \<Rightarrow> 'w \<Rightarrow> GetReply option \<times> 'w) \<Rightarrow> (string \<Rightarrow> PutAppendArgs \<Rightarrow> 'w \<Rightarrow> PutAppendReply option \<times> 'w) \<Rightarrow>
   nat \<Rightarrow> clerk_call list \<Rightarrow> Clerk \<times> 'w \<times> Op list \<Rightarrow> 'w \<times> Op list" where
  "clerkRun g p fuel [] s = snd s"
| "clerkRun g p fuel (ClerkGet key # cs) s =
    (case clerkGet (recording getOp g) fuel key s of
       Returned v ck w \<Rightarrow> clerkRun g p fuel cs (ck, w) | Retrying ck w \<Rightarrow> w | NoServer \<Rightarrow> snd s)"
| "clerkRun g p fuel (ClerkPutAppend key val op # cs) s =
    (case clerkPutAppend (recording putOp p) fuel key val op s of
       Returned v ck w \<Rightarrow> clerkRun g p fuel cs (ck, w) | Retrying ck w \<Rightarrow> w | NoServer \<Rightarrow> snd s)"

text \<open>The commands that the calls ask for, numbered from \<open>n\<close>.\<close>

fun wanted :: "int \<Rightarrow> int \<Rightarrow> clerk_call list \<Rightarrow> Op list" where
  "wanted cid n [] = []"
| "wanted cid n (ClerkGet key # cs) = getOp \<lparr>gKey = key, gSeqId = n, gClientId = cid\<rparr> # wanted cid (n + 1) cs"
| "wanted cid n (ClerkPutAppend key val op # cs) =
     putOp \<lparr>paKey = key, paValue = val, paOp = op, paSeqId = n, paClientId = cid\<rparr> # wanted cid (n + 1) cs"

lemma recording_eq:
  "call e args (fst s) = (r, w) \<Longrightarrow> recording f call e args s = (r, w, snd s @ [f args])"
  by (simp add: recording_def)

text \<open>A loop sends the same request over and over, and does not touch the numbering.\<close>

definition sends :: "Op \<Rightarrow> Clerk \<Rightarrow> Op list \<Rightarrow> ('a, 'w \<times> Op list) clerk_out \<Rightarrow> bool" where
  "sends c ck0 tr out \<longleftrightarrow> (case out of
     NoServer \<Rightarrow> True
   | Returned v ck w \<Rightarrow> ckClientId ck = ckClientId ck0 \<and> ckSeqId ck = ckSeqId ck0 \<and> (\<exists>m. snd w = tr @ replicate m c)
   | Retrying ck w \<Rightarrow> ckClientId ck = ckClientId ck0 \<and> ckSeqId ck = ckSeqId ck0 \<and> (\<exists>m. snd w = tr @ replicate m c))"

lemma sends_more: "sends c ck0 (tr @ [c]) out \<Longrightarrow> sends c ck0 tr out"
proof -
  have "tr @ [c] @ replicate m c = tr @ replicate (Suc m) c" for m by simp
  then show "sends c ck0 (tr @ [c]) out \<Longrightarrow> sends c ck0 tr out"
    unfolding sends_def append_assoc by (auto split: clerk_out.splits simp del: replicate_Suc)
qed

lemma sends_next: "sends c (nextServer ck) tr out \<longleftrightarrow> sends c ck tr out"
  by (simp add: sends_def split: clerk_out.splits)

lemma clerkGetLoop_sends:
  "sends (getOp \<lparr>gKey = key, gSeqId = unum, gClientId = ckClientId ck\<rparr>) ck (snd w)
     (clerkGetLoop (recording getOp g) key unum n (err, ck, w))"
proof (induction n arbitrary: err ck w)
  case 0
  show ?case by (auto simp: sends_def intro: exI [of _ 0])
next
  case (Suc n)
  let ?args = "\<lparr>gKey = key, gSeqId = unum, gClientId = ckClientId ck\<rparr>"
  have now: "sends c ck (snd w) (Returned v ck (w', snd w @ [c]))" and idle: "sends c ck (snd w) (Returned v ck w)" for c v w'
    by (auto simp: sends_def intro: exI [of _ 1] exI [of _ 0])
  have "sends (getOp ?args) ck (snd w) (clerkGetLoop (recording getOp g) key unum n (e, ck', (w', snd w @ [getOp ?args])))"
    if "ck' = ck \<or> ck' = nextServer ck" for e ck' w'
    using that Suc.IH [of ck' "(w', snd w @ [getOp ?args])" e] by (auto intro: sends_more simp: sends_next)
  note again = this
  show ?case
  proof (cases "idx (ckServers ck) (currLeader ck)")
    case None
    then show ?thesis using idle by (simp add: Let_def sends_def)
  next
    case (Some e)
    obtain r w' where "g e ?args (fst w) = (r, w')" by fastforce
    then show ?thesis using now idle again Some by (auto simp: Let_def recording_eq split: option.splits)
  qed
qed

lemma clerkPutLoop_sends:
  "sends (putOp \<lparr>paKey = key, paValue = val, paOp = op, paSeqId = unum, paClientId = ckClientId ck\<rparr>) ck (snd w)
     (clerkPutLoop (recording putOp p) key val op unum n (err, ck, w))"
proof (induction n arbitrary: err ck w)
  case 0
  show ?case by (auto simp: sends_def intro: exI [of _ 0])
next
  case (Suc n)
  let ?args = "\<lparr>paKey = key, paValue = val, paOp = op, paSeqId = unum, paClientId = ckClientId ck\<rparr>"
  have now: "sends c ck (snd w) (Returned v ck (w', snd w @ [c]))" and idle: "sends c ck (snd w) (Returned v ck w)" for c v w'
    by (auto simp: sends_def intro: exI [of _ 1] exI [of _ 0])
  have "sends (putOp ?args) ck (snd w) (clerkPutLoop (recording putOp p) key val op unum n (e, ck', (w', snd w @ [putOp ?args])))"
    if "ck' = ck \<or> ck' = nextServer ck" for e ck' w'
    using that Suc.IH [of ck' "(w', snd w @ [putOp ?args])" e] by (auto intro: sends_more simp: sends_next)
  note again = this
  show ?case
  proof (cases "idx (ckServers ck) (currLeader ck)")
    case None
    then show ?thesis using idle by (simp add: Let_def sends_def)
  next
    case (Some e)
    obtain r w' where "p e ?args (fst w) = (r, w')" by fastforce
    then show ?thesis using now idle again Some by (auto simp: Let_def recording_eq split: option.splits)
  qed
qed

text \<open>The trace of a run: each wanted command some number of times, in order.\<close>

fun repeated :: "Op list \<Rightarrow> Op list \<Rightarrow> bool" where
  "repeated [] tr \<longleftrightarrow> tr = []"
| "repeated (c # cs) tr \<longleftrightarrow> (\<exists>m tr'. tr = replicate m c @ tr' \<and> repeated cs tr')"

lemma repeated_Nil: "repeated cs []"
  by (induction cs) (auto intro: exI [of _ 0])

lemma clerkRun_repeated:
  "\<exists>tr'. snd (clerkRun g p fuel cs (ck, w, tr)) = tr @ tr' \<and> repeated (wanted (ckClientId ck) (ckSeqId ck) cs) tr'"
proof (induction cs arbitrary: ck w tr)
  case Nil
  show ?case by simp
next
  case (Cons c cs)
  have go: "\<exists>tr'. snd (case out of Returned v ck w \<Rightarrow> clerkRun g p fuel cs (ck, w) | Retrying ck w \<Rightarrow> w | NoServer \<Rightarrow> (w, tr)) = tr @ tr' \<and>
      repeated (x # wanted (ckClientId ck) (ckSeqId ck + 1) cs) tr'"
    if s: "sends x (ck\<lparr>ckSeqId := ckSeqId ck + 1\<rparr>) tr out" for x and out :: "('z, 'a \<times> Op list) clerk_out"
  proof (cases out)
    case (Returned v ck' w')
    then obtain m where m: "snd w' = tr @ replicate m x" "ckClientId ck' = ckClientId ck" "ckSeqId ck' = ckSeqId ck + 1"
      using s by (auto simp: sends_def)
    from Cons.IH [of ck' "fst w'" "snd w'"] show ?thesis
      unfolding Returned using m by (cases w') auto
  next
    case (Retrying ck' w')
    then obtain m where "snd w' = tr @ replicate m x" using s by (auto simp: sends_def)
    moreover have "repeated (x # wanted (ckClientId ck) (ckSeqId ck + 1) cs) (replicate m x)"
      using repeated_Nil by (auto intro: exI [of _ m])
    ultimately show ?thesis unfolding Retrying by (simp del: repeated.simps)
  next
    case NoServer
    have "repeated (x # wanted (ckClientId ck) (ckSeqId ck + 1) cs) []" by (rule repeated_Nil)
    then show ?thesis unfolding NoServer by auto
  qed
  show ?case
  proof (cases c)
    case (ClerkGet key)
    show ?thesis
      using go [OF clerkGetLoop_sends [where ck = "ck\<lparr>ckSeqId := ckSeqId ck + 1\<rparr>" and w = "(w, tr)", simplified]]
      unfolding ClerkGet by (simp add: clerkGet_def cong: clerk_out.case_cong)
  next
    case (ClerkPutAppend key val op)
    show ?thesis
      using go [OF clerkPutLoop_sends [where ck = "ck\<lparr>ckSeqId := ckSeqId ck + 1\<rparr>" and w = "(w, tr)", simplified]]
      unfolding ClerkPutAppend by (simp add: clerkPutAppend_def cong: clerk_out.case_cong)
  qed
qed

lemma subseq_mem: "subseq xs ys \<Longrightarrow> x \<in> set xs \<Longrightarrow> x \<in> set ys"
  by (erule list_emb_set) auto

lemma subseq_replicate: "subseq xs (replicate m c) \<Longrightarrow> \<exists>k. xs = replicate k c"
  by (metis in_set_replicate replicate_eqI subseq_mem)

text \<open>A log that keeps the order of the trace has each client's requests in order, and each wanted command at most once.\<close>

lemma firsts_replicate:
  "firsts (replicate m c @ cs) ids = (if m = 0 then firsts cs ids else if opId c \<in> set ids then firsts cs ids else c # firsts cs (opId c # ids))"
proof -
  have dup: "opId c \<in> set ids \<Longrightarrow> firsts (replicate m c @ cs) ids = firsts cs ids" for m ids by (induction m) auto
  show ?thesis by (cases m) (auto simp: dup)
qed

lemma repeated_firsts: "repeated ws tr \<Longrightarrow> subseq cs tr \<Longrightarrow> subseq (firsts cs ids) ws"
proof (induction ws arbitrary: tr cs ids)
  case (Cons c ws)
  then obtain m tr' where tr: "tr = replicate m c @ tr'" "repeated ws tr'" by auto
  obtain xs ys where cs: "cs = xs @ ys" "subseq xs (replicate m c)" "subseq ys tr'"
    using Cons.prems(2) unfolding tr(1) by (auto elim: subseq_appendE)
  have "subseq (firsts ys i) ws" for i using Cons.IH [OF tr(2) cs(3)] .
  moreover from this have "subseq (firsts ys i) (c # ws)" for i by (rule list_emb_Cons)
  ultimately show ?case
    using subseq_replicate [OF cs(2)] unfolding cs(1) by (auto simp: firsts_replicate)
qed (auto dest: list_emb_Nil2)

lemma repeated_set: "repeated ws tr \<Longrightarrow> set tr \<subseteq> set ws"
  by (induction ws arbitrary: tr) (fastforce split: if_splits)+

lemma repeated_inOrder: "repeated ws tr \<Longrightarrow> inOrder ws \<Longrightarrow> inOrder tr"
proof (induction ws arbitrary: tr)
  case (Cons c ws)
  then obtain m tr' where tr: "tr = replicate m c @ tr'" "repeated ws tr'" by auto
  have "inOrder tr'" using Cons tr by (auto simp: inOrder_def)
  moreover have "opClientId c = opClientId d \<longrightarrow> opSeqId c \<le> opSeqId d" if "d \<in> set tr'" for d
    using that repeated_set [OF tr(2)] Cons.prems(2) by (auto simp: inOrder_def)
  ultimately show ?case
    unfolding tr(1) inOrder_def sorted_wrt_append by (auto simp: sorted_wrt_iff_nth_less)
qed simp

lemma wanted_seq: "c \<in> set (wanted cid n cs) \<Longrightarrow> n \<le> opSeqId c"
  by (induction cid n cs rule: wanted.induct) (fastforce simp: getOp_def putOp_def)+

lemma wanted_inOrder: "inOrder (wanted cid n cs)"
  by (induction cid n cs rule: wanted.induct) (auto simp: inOrder_def getOp_def putOp_def dest: wanted_seq)

lemma subseq_inOrder: "subseq cs tr \<Longrightarrow> inOrder tr \<Longrightarrow> inOrder cs"
  unfolding inOrder_def by (induction rule: list_emb.induct) (auto dest: subseq_mem)

end
