(* ===== verification/KV_Client.thy ===== *)
theory KV_Client
  imports KV_Http KV_Clerk
begin

text \<open>
  The HTTP client of the control plane: \<open>src/controlplane/kvclient/client.go\<close>. The transport \<open>post\<close>
  takes a URL, the request and the state of the world to what the server wrote (\<open>None\<close>: an error of
  the transport) and a new state. A JSON body is represented by the value it encodes; the text that
  \<open>http.Error\<close> writes is not JSON. \<open>None\<close> as a whole is a panic.
\<close>

section \<open>The client\<close>

record Client =
  addrs :: "string list"
  curr :: int
  clientID :: int
  seqID :: int

type_synonym 'w transport = "string \<Rightarrow> HTTPRequest \<Rightarrow> 'w \<Rightarrow> http_out option \<times> 'w"

definition NewClient :: "string list \<Rightarrow> int \<Rightarrow> Client" where
  "NewClient as unixNano =
    \<lparr>addrs = filter (\<lambda>a. a \<noteq> '''') (map (\<lambda>a. trimRight (trimSpace a) ''/'') as), curr = 0, clientID = unixNano, seqID = 0\<rparr>"

definition nextAddr :: "Client \<Rightarrow> (string \<times> Client) option" where
  "nextAddr c =
    (if addrs c = [] then Some ('''', c)
     else do { addr \<leftarrow> idx (addrs c) (curr c); Some (addr, c\<lparr>curr := (curr c + 1) mod int (length (addrs c))\<rparr>) })"

definition prepareRequest :: "HTTPRequest \<Rightarrow> Client \<Rightarrow> HTTPRequest \<times> Client" where
  "prepareRequest req c =
    (let c1 = c\<lparr>seqID := seqID c + 1\<rparr> in (req\<lparr>hClientID := clientID c1, hSeqID := seqID c1\<rparr>, c1))"

definition doOnce :: "'w transport \<Rightarrow> string \<Rightarrow> HTTPRequest \<Rightarrow> 'w \<Rightarrow> HTTPResponse option \<times> 'w" where
  "doOnce post addr req w =
    (case post (addr @ ''/kv'') req w of
       (Some (HttpJson code resp), w1) \<Rightarrow> (Some resp, w1)
     | (_, w1) \<Rightarrow> (None, w1))"

fun executeLoop :: "'w transport \<Rightarrow> HTTPRequest \<Rightarrow> nat \<Rightarrow> Client \<times> 'w \<Rightarrow> ((string + HTTPResponse) \<times> Client \<times> 'w) option" where
  "executeLoop post req 0 (c, w) = Some (Inl ''no available kv leader'', c, w)"
| "executeLoop post req (Suc n) (c, w) = do {
     (addr, c1) \<leftarrow> nextAddr c;
     case doOnce post addr req w of
       (None, w1) \<Rightarrow> executeLoop post req n (c1, w1)
     | (Some resp, w1) \<Rightarrow>
         if rErr resp = ErrWrongLeader \<or> rErr resp = ErrTimeOut then executeLoop post req n (c1, w1)
         else Some (Inr resp, c1, w1) }"

definition execute :: "'w transport \<Rightarrow> HTTPRequest \<Rightarrow> Client \<times> 'w \<Rightarrow> ((string + HTTPResponse) \<times> Client \<times> 'w) option" where
  "execute post req s =
    (if addrs (fst s) = [] then Some (Inl ''no kv server addresses configured'', s)
     else let (req1, c1) = prepareRequest req (fst s) in executeLoop post req1 (length (addrs c1)) (c1, snd s))"

definition kvRequest :: "string \<Rightarrow> string \<Rightarrow> string \<Rightarrow> HTTPRequest" where
  "kvRequest op key val = \<lparr>hOp = op, hKey = key, hValue = val, hClientID = 0, hSeqID = 0\<rparr>"

text \<open>The error of a call, if any.\<close>

definition kvPut :: "'w transport \<Rightarrow> string \<Rightarrow> string \<Rightarrow> Client \<times> 'w \<Rightarrow> (string option \<times> Client \<times> 'w) option" where
  "kvPut post key val s = do {
     (r, s1) \<leftarrow> execute post (kvRequest ''put'' key val) s;
     Some (case r of
       Inl err \<Rightarrow> (Some err, s1)
     | Inr resp \<Rightarrow> if rErr resp \<noteq> OK then (Some (''kv put: '' @ rErr resp), s1) else (None, s1)) }"

definition kvGet :: "'w transport \<Rightarrow> string \<Rightarrow> Client \<times> 'w \<Rightarrow> ((string + string) \<times> Client \<times> 'w) option" where
  "kvGet post key s = do {
     (r, s1) \<leftarrow> execute post (kvRequest ''get'' key '''') s;
     Some (case r of
       Inl err \<Rightarrow> (Inl err, s1)
     | Inr resp \<Rightarrow>
         if rErr resp = OK then (Inr (rValue resp), s1)
         else if rErr resp = ErrNoKey then (Inr '''', s1)
         else (Inl (''kv get: '' @ rErr resp), s1)) }"

definition kvDelete :: "'w transport \<Rightarrow> string \<Rightarrow> Client \<times> 'w \<Rightarrow> (string option \<times> Client \<times> 'w) option" where
  "kvDelete post key s = do {
     (r, s1) \<leftarrow> execute post (kvRequest ''delete'' key '''') s;
     Some (case r of
       Inl err \<Rightarrow> (Some err, s1)
     | Inr resp \<Rightarrow> if rErr resp \<noteq> OK then (Some (''kv delete: '' @ rErr resp), s1) else (None, s1)) }"

section \<open>Well-formed clients\<close>

definition clientOk :: "Client \<Rightarrow> bool" where
  "clientOk c \<longleftrightarrow> addrs c \<noteq> [] \<longrightarrow> 0 \<le> curr c \<and> curr c < int (length (addrs c))"

definition turn :: "Client \<Rightarrow> Client" where
  "turn c = c\<lparr>curr := (curr c + 1) mod int (length (addrs c))\<rparr>"

lemma turn_sel [simp]: "addrs (turn c) = addrs c" "clientID (turn c) = clientID c" "seqID (turn c) = seqID c"
  by (simp_all add: turn_def)

lemma nextAddr_turn:
  "addrs c \<noteq> [] \<Longrightarrow> clientOk c \<Longrightarrow> nextAddr c = Some (addrs c ! nat (curr c), turn c)"
  by (simp add: nextAddr_def clientOk_def turn_def idx_in_range)

lemma clientOk_turn [simp]: "clientOk (turn c)"
  by (simp add: clientOk_def turn_def)

lemma prepareRequest_sel:
  assumes "prepareRequest req c = (req', c')"
  shows "addrs c' = addrs c" "clientOk c' = clientOk c" "clientID c' = clientID c" "seqID c' = seqID c + 1" "curr c' = curr c"
    "req' = req\<lparr>hClientID := clientID c, hSeqID := seqID c + 1\<rparr>"
  using assms by (auto simp: prepareRequest_def clientOk_def Let_def)

text \<open>The loop does not panic, and keeps the client in order.\<close>

lemma executeLoop_ok:
  "addrs c \<noteq> [] \<Longrightarrow> clientOk c \<Longrightarrow>
   \<exists>r c' w'. executeLoop post req n (c, w) = Some (r, c', w') \<and> clientOk c' \<and> addrs c' = addrs c \<and>
     clientID c' = clientID c \<and> seqID c' = seqID c"
proof (induction n arbitrary: c w)
  case 0
  then show ?case by simp
next
  case (Suc n)
  obtain r w1 where d: "doOnce post (addrs c ! nat (curr c)) req w = (r, w1)" by fastforce
  from Suc.IH [of "turn c" w1] Suc.prems show ?case
    by (auto simp: nextAddr_turn d split: option.splits)
qed

lemma execute_ok:
  assumes "clientOk c"
  shows "\<exists>r c' w'. execute post req (c, w) = Some (r, c', w') \<and> clientOk c' \<and> addrs c' = addrs c \<and> clientID c' = clientID c \<and>
    seqID c' = (if addrs c = [] then seqID c else seqID c + 1)"
proof (cases "addrs c = []")
  case False
  obtain req' c1 where p: "prepareRequest req c = (req', c1)" by fastforce
  note sel = prepareRequest_sel [OF p]
  show ?thesis
    using executeLoop_ok [of c1 post req' "length (addrs c1)" w] False assms sel by (simp add: execute_def p)
qed (simp add: execute_def assms)

section \<open>One round through the servers\<close>

interpretation clientTurns: round_robin "\<lambda>c. length (addrs c)" curr turn
  by unfold_locales (simp_all add: turn_def)

definition definite :: "HTTPResponse \<Rightarrow> bool" where
  "definite resp \<longleftrightarrow> rErr resp \<noteq> ErrWrongLeader \<and> rErr resp \<noteq> ErrTimeOut"

definition addrFails :: "'w transport \<Rightarrow> Client \<Rightarrow> int \<Rightarrow> bool" where
  "addrFails post c i \<longleftrightarrow> (\<forall>req w. case fst (doOnce post (addrs c ! nat i) req w) of None \<Rightarrow> True | Some resp \<Rightarrow> \<not> definite resp)"

definition addrAnswers :: "'w transport \<Rightarrow> Client \<Rightarrow> int \<Rightarrow> bool" where
  "addrAnswers post c i \<longleftrightarrow> (\<forall>req w. case fst (doOnce post (addrs c ! nat i) req w) of None \<Rightarrow> False | Some resp \<Rightarrow> definite resp)"

definition gotAnswer :: "((string + HTTPResponse) \<times> Client \<times> 'w) option \<Rightarrow> bool" where
  "gotAnswer out \<longleftrightarrow> (case out of Some (Inr resp, s) \<Rightarrow> definite resp | _ \<Rightarrow> False)"

interpretation clientRetry: retry_loop "\<lambda>c. length (addrs c)" curr turn
  "executeLoop post req" fst "\<lambda>s. clientOk (fst s)" "addrFails post" "addrAnswers post" gotAnswer
  for post req
proof unfold_locales
  fix s :: "Client \<times> 'a" and n
  assume ok: "clientOk (fst s)" and r: "0 \<le> curr (fst s)" "curr (fst s) < int (length (addrs (fst s)))"
  obtain c w where s: "s = (c, w)" by (cases s)
  obtain r w1 where d: "doOnce post (addrs c ! nat (curr c)) req w = (r, w1)" by fastforce
  have a: "nextAddr c = Some (addrs c ! nat (curr c), turn c)" using r ok nextAddr_turn [of c] by (cases "addrs c") (auto simp: s)
  {
    assume "addrFails post (fst s) (curr (fst s))"
    then show "\<exists>st'. executeLoop post req (Suc n) s = executeLoop post req n st' \<and> fst st' = turn (fst s) \<and> clientOk (fst st')"
      unfolding addrFails_def s using a d
      by (auto simp: s definite_def split: option.splits dest!: spec [of _ req] spec [of _ w] intro!: exI [of _ "(turn c, w1)"])
  next
    assume "addrAnswers post (fst s) (curr (fst s))"
    then show "gotAnswer (executeLoop post req (Suc n) s)"
      unfolding addrAnswers_def s using a d
      by (auto simp: s gotAnswer_def definite_def split: option.splits dest!: spec [of _ req] spec [of _ w])
  }
qed (simp_all add: addrFails_def addrAnswers_def fun_eq_iff)

text \<open>The requests a call posts: the same one to the servers in turn, at most once each.\<close>

definition posting :: "'w transport \<Rightarrow> ('w \<times> (string \<times> HTTPRequest) list) transport" where
  "posting post url req s = (case post url req (fst s) of (r, w) \<Rightarrow> (r, w, snd s @ [(url, req)]))"

definition urlAt :: "Client \<Rightarrow> nat \<Rightarrow> string" where
  "urlAt c i = addrs c ! nat ((curr c + int i) mod int (length (addrs c))) @ ''/kv''"

lemma urlAt_turn: "addrs c \<noteq> [] \<Longrightarrow> urlAt (turn c) i = urlAt c (Suc i)"
  by (simp add: urlAt_def turn_def mod_simps ac_simps)

lemma urlAt_0: "clientOk c \<Longrightarrow> addrs c \<noteq> [] \<Longrightarrow> urlAt c 0 = addrs c ! nat (curr c) @ ''/kv''"
  by (simp add: urlAt_def clientOk_def)

lemma executeLoop_posts:
  "addrs c \<noteq> [] \<Longrightarrow> clientOk c \<Longrightarrow>
   \<exists>r c' w' m. executeLoop (posting post) req n (c, w, tr) = Some (r, c', w', tr @ map (\<lambda>i. (urlAt c i, req)) [0..<m]) \<and> m \<le> n"
proof (induction n arbitrary: c w tr)
  case 0
  then show ?case by simp
next
  case (Suc n)
  let ?a = "addrs c ! nat (curr c)"
  obtain out w1 where p: "post (?a @ ''/kv'') req w = (out, w1)" by fastforce
  have d: "\<exists>r. doOnce (posting post) ?a req (w, tr) = (r, w1, tr @ [(urlAt c 0, req)])"
    using Suc.prems by (auto simp: doOnce_def posting_def p urlAt_0 split: option.splits http_out.splits)
  obtain r c' w' m where IH: "executeLoop (posting post) req n (turn c, w1, tr @ [(urlAt c 0, req)]) =
      Some (r, c', w', (tr @ [(urlAt c 0, req)]) @ map (\<lambda>i. (urlAt (turn c) i, req)) [0..<m])" "m \<le> n"
    using Suc.IH [of "turn c" w1] Suc.prems by (metis clientOk_turn turn_sel(1))
  have shift: "(urlAt c 0, req) # map (\<lambda>i. (urlAt (turn c) i, req)) [0..<m] = map (\<lambda>i. (urlAt c i, req)) [0..<Suc m]"
    using Suc.prems by (simp only: map_upt_Suc) (simp add: urlAt_turn)
  have "executeLoop (posting post) req (Suc n) (c, w, tr) = executeLoop (posting post) req n (turn c, w1, tr @ [(urlAt c 0, req)]) \<or>
      (\<exists>resp. executeLoop (posting post) req (Suc n) (c, w, tr) = Some (Inr resp, turn c, w1, tr @ [(urlAt c 0, req)]))"
    using d Suc.prems by (auto simp: nextAddr_turn split: option.splits)
  then show ?case
  proof
    assume "executeLoop (posting post) req (Suc n) (c, w, tr) = executeLoop (posting post) req n (turn c, w1, tr @ [(urlAt c 0, req)])"
    with IH show ?thesis unfolding append_assoc append_Cons append_Nil shift by (metis Suc_le_mono)
  next
    assume "\<exists>resp. executeLoop (posting post) req (Suc n) (c, w, tr) = Some (Inr resp, turn c, w1, tr @ [(urlAt c 0, req)])"
    moreover have "[(urlAt c 0, req)] = map (\<lambda>i. (urlAt c i, req)) [0..<1]" by simp
    ultimately show ?thesis by (metis Suc_le_mono One_nat_def le0)
  qed
qed

end
