(* ===== verification/KV_Stack.thy ===== *)
theory KV_Stack
  imports KV_Client
begin

text \<open>
  The stack from \<open>kvclient\<close> down to the store. The locale \<open>kv_backend\<close> is the contract the control plane
  relies on: a successful put is seen by later gets. It is met by the client of \<open>KV_Client\<close> talking
  to the HTTP front, the handlers, \<open>Start\<close>, the apply loop of the Raft peer and the applier of a leader whose entries are
  committed before the wait times out.
\<close>

section \<open>The contract\<close>

locale kv_backend =
  fixes post :: "'w transport"
    and inv :: "Client \<times> 'w \<Rightarrow> bool"
    and sem :: "'w \<Rightarrow> store"
  assumes inv_client: "inv s \<Longrightarrow> clientOk (fst s)"
    and put_total: "inv s \<Longrightarrow> \<exists>e s'. kvPut post k v s = Some (e, s')"
    and get_total: "inv s \<Longrightarrow> \<exists>r s'. kvGet post k s = Some (r, s')"
    and put_law: "inv s \<Longrightarrow> kvPut post k v s = Some (e, s') \<Longrightarrow>
      inv s' \<and> (sem (snd s') = (sem (snd s))(k \<mapsto> v) \<or> e \<noteq> None \<and> sem (snd s') = sem (snd s))"
    and get_law: "inv s \<Longrightarrow> kvGet post k s = Some (r, s') \<Longrightarrow>
      inv s' \<and> sem (snd s') = sem (snd s) \<and> (\<forall>v. r = Inr v \<longrightarrow> v = (case sem (snd s) k of Some v \<Rightarrow> v | None \<Rightarrow> ''''))"
begin

lemma put_inv: "inv s \<Longrightarrow> kvPut post k v s = Some (e, s') \<Longrightarrow> inv s'"
  using put_law by blast

lemma put_sem: "inv s \<Longrightarrow> kvPut post k v s = Some (None, s') \<Longrightarrow> sem (snd s') = (sem (snd s))(k \<mapsto> v)"
  using put_law by blast

lemma get_inv: "inv s \<Longrightarrow> kvGet post k s = Some (r, s') \<Longrightarrow> inv s'"
  and get_sem: "inv s \<Longrightarrow> kvGet post k s = Some (r, s') \<Longrightarrow> sem (snd s') = sem (snd s)"
  and get_value: "inv s \<Longrightarrow> kvGet post k s = Some (Inr v, s') \<Longrightarrow> v = (case sem (snd s) k of Some v \<Rightarrow> v | None \<Rightarrow> '''')"
  using get_law by blast+

text \<open>Read your writes.\<close>

lemma get_after_put:
  assumes "inv s" and "kvPut post k v s = Some (None, s1)" and "kvGet post k' s1 = Some (Inr v', s2)"
  shows "v' = (if k' = k then v else case sem (snd s) k' of Some x \<Rightarrow> x | None \<Rightarrow> '''')"
  using get_value [OF put_inv [OF assms(1,2)] assms(3)] put_sem [OF assms(1,2)] by simp

end

section \<open>A leader that commits\<close>

definition serve :: "((Op, snapval) bytes \<Rightarrow> int) \<Rightarrow> KVServer transport" where
  "serve sz url req kv =
    (case ServeHTTP Some ''POST'' (Some req) kv of
       (Done out, kv1) \<Rightarrow> (Some out, kv1)
     | (Wait index startTerm, kv1) \<Rightarrow>
         let (ch, kv2) = waitRegister index kv1 in
         (case do {
            (rf, msg) \<leftarrow> applyNext ((kvRf kv2)\<lparr>commitIndex := index\<rparr>);
            m \<leftarrow> msg;
            kv3 \<leftarrow> applierStep sz m (kv2\<lparr>kvRf := rf\<rparr>);
            (r, kv4) \<leftarrow> waitReceive ch startTerm kv3;
            Some (executeEnd (hOp req) index r kv4) } of
            None \<Rightarrow> (None, kv2)
          | Some (resp, kv5) \<Rightarrow> (Some (HttpJson (httpStatus resp) resp), kv5)))"

definition leading :: "KVServer \<Rightarrow> bool" where
  "leading kv \<longleftrightarrow> \<not> kvDead kv \<and> rstate (kvRf kv) = 0 \<and> maxraftstate kv = -1 \<and> logs (kvRf kv) \<noteq> [] \<and>
     lastApplied (kvRf kv) = lastLogicalIndex (kvRf kv)"

definition stackInv :: "Client \<times> KVServer \<Rightarrow> bool" where
  "stackInv s \<longleftrightarrow> clientOk (fst s) \<and> clientID (fst s) \<noteq> 0 \<and> 0 \<le> seqID (fst s) \<and> leading (snd s) \<and>
     (\<forall>rec. recordMap (snd s) (clientID (fst s)) = Some rec \<longrightarrow> LastSeqId rec \<le> seqID (fst s))"

text \<open>The round trip of one fresh command through the handler, Raft and the applier.\<close>

definition requestOp :: "HTTPRequest \<Rightarrow> Op" where
  "requestOp req = \<lparr>opType = (if hOp req = ''get'' then ''Get'' else ''Put''), opKey = hKey req,
     opValue = (if hOp req = ''get'' then '''' else hValue req), opSeqId = hSeqID req, opClientId = hClientID req\<rparr>"

lemma ServeHTTP_starts:
  assumes "leading kv" and "hOp req = ''get'' \<or> hOp req = ''put''" and "hKey req \<noteq> ''''" and "hClientID req \<noteq> 0" and "hSeqID req \<noteq> 0"
    and "seen (hClientID req) (hSeqID req) kv = None"
  shows "ServeHTTP Some ''POST'' (Some req) kv =
    (Wait (lastLogicalIndex (kvRf kv) + 1) (currTerm (kvRf kv)), kv\<lparr>kvRf := snd (Start (requestOp req) (kvRf kv))\<rparr>)"
  using assms
  by (auto simp: ServeHTTP_def executeHTTPWithClient_def GetBegin_def PutAppendBegin_def Start_def KVKilled_def requestOp_def leading_def Let_def)

lemma started_applies:
  assumes "rstate rf = 0" and "lastApplied rf = lastLogicalIndex rf" and "logs rf \<noteq> []"
  shows "applyNext ((snd (Start c rf))\<lparr>commitIndex := lastLogicalIndex rf + 1\<rparr>) =
    Some ((snd (Start c rf))\<lparr>commitIndex := lastLogicalIndex rf + 1, lastApplied := lastLogicalIndex rf + 1\<rparr>,
          Some (zeroApplyMsg\<lparr>CommandValid := True, Command := Some c, CommandIndex := lastLogicalIndex rf + 1\<rparr>))"
  using assms by (simp add: applyNext_def Start_def persist_def index_defs idx_def nth_append nat_add_distrib)

lemma applierStep_waiting:
  assumes "maxraftstate kv = -1" and "chans kv = cs @ [None]" and "notifyChans kv = (i, length cs) # ns"
  shows "applierStep sz (zeroApplyMsg\<lparr>CommandValid := True, Command := Some c, CommandIndex := i\<rparr>) kv =
    Some ((applied c i kv)\<lparr>chans := cs @ [Some (fst (smStep c (smData kv)))]\<rparr>)"
  using assms by (simp add: applierStep_def callSnapshot_def notify_def applyCommand_eq)

text \<open>What \<open>executeEnd\<close> makes of a reply that arrived in time.\<close>

lemma executeEnd_answered:
  assumes "op = ''get'' \<or> op = ''put''"
  shows "executeEnd op i (reply, OK) kv =
    (httpResponseFromErr (orErr reply) (if op = ''get'' then orValue reply else ''''), dropWait i OK kv)"
  using assms by (auto simp: executeEnd_def GetEnd_def PutAppendEnd_def Let_def)

lemma dropWait_sel [simp]:
  "kvStore (dropWait i e kv) = kvStore kv" "recordMap (dropWait i e kv) = recordMap kv" "kvRf (dropWait i e kv) = kvRf kv"
  "kvDead (dropWait i e kv) = kvDead kv" "maxraftstate (dropWait i e kv) = maxraftstate kv"
  by (simp_all add: dropWait_def Let_def)

lemma serve_fresh:
  assumes "leading kv" and op: "hOp req = ''get'' \<or> hOp req = ''put''" and "hKey req \<noteq> ''''" and "hClientID req \<noteq> 0" and "hSeqID req \<noteq> 0"
    and "seen (hClientID req) (hSeqID req) kv = None"
  shows "\<exists>kv'. leading kv' \<and> smData kv' = snd (smStep (requestOp req) (smData kv)) \<and>
    (\<forall>url. serve sz url req kv = (let reply = fst (smStep (requestOp req) (smData kv));
           resp = httpResponseFromErr (orErr reply) (if hOp req = ''get'' then orValue reply else '''')
         in (Some (HttpJson (httpStatus resp) resp), kv')))"
proof -
  note lead = assms(1) [unfolded leading_def]
  let ?rf = "kvRf kv" and ?i = "lastLogicalIndex (kvRf kv) + 1" and ?c = "requestOp req"
  let ?rf1 = "(snd (Start ?c ?rf))\<lparr>commitIndex := ?i, lastApplied := ?i\<rparr>"
  let ?reply = "fst (smStep ?c (smData kv))"
  define kv2 where "kv2 = kv\<lparr>kvRf := ?rf1, chans := chans kv @ [None],
    notifyChans := (?i, length (chans kv)) # filter (\<lambda>p. fst p \<noteq> ?i) (notifyChans kv)\<rparr>"
  define kv3 where "kv3 = (applied ?c ?i kv2)\<lparr>chans := chans kv @ [Some ?reply]\<rparr>"
  define kv5 where "kv5 = dropWait ?i OK (kv3\<lparr>chans := chans kv @ [None]\<rparr>)"
  have 2: "snd (waitRegister ?i (kv\<lparr>kvRf := snd (Start ?c ?rf)\<rparr>))\<lparr>kvRf := ?rf1\<rparr> = kv2"
    by (simp add: waitRegister_def kv2_def)
  have 3: "applierStep sz (zeroApplyMsg\<lparr>CommandValid := True, Command := Some ?c, CommandIndex := ?i\<rparr>) kv2 = Some kv3"
    using lead applierStep_waiting [of kv2 "chans kv" ?i] by (simp add: kv2_def kv3_def)
  have 4: "waitReceive (length (chans kv)) (currTerm ?rf) kv3 = Some ((?reply, OK), kv3\<lparr>chans := chans kv @ [None]\<rparr>)"
    using lead by (simp add: waitReceive_def GetState_def Start_def persist_def kv3_def kv2_def)
  have "leading kv5" using lead by (simp add: kv5_def kv3_def kv2_def leading_def Start_def persist_def index_defs)
  moreover have "smData kv5 = snd (smStep ?c (smData kv))" using applied_data [of ?c ?i kv2] by (simp add: kv5_def kv3_def kv2_def)
  moreover have "serve sz url req kv = (let resp = httpResponseFromErr (orErr ?reply) (if hOp req = ''get'' then orValue ?reply else '''')
      in (Some (HttpJson (httpStatus resp) resp), kv5))" for url
    using 2 3 4 lead started_applies [of ?rf ?c] executeEnd_answered [OF op]
    by (simp add: serve_def ServeHTTP_starts [OF assms] waitRegister_def kv5_def Let_def)
  ultimately show ?thesis by (intro exI [of _ kv5]) (simp add: Let_def)
qed

section \<open>The client on top\<close>

lemma smStep_fresh:
  assumes "seen (opClientId c) (opSeqId c) kv = None"
  shows "smStep c (smData kv) = (fst (applyToStateMachine c (kvStore kv)), snd (applyToStateMachine c (kvStore kv)),
    (recordMap kv)(opClientId c \<mapsto> \<lparr>LastSeqId = opSeqId c, LastReply = fst (applyToStateMachine c (kvStore kv))\<rparr>))"
  using assms smStep_new [of "smData kv" c] by (auto simp: seen_def split: option.splits if_splits)

lemma stackInv_seen: "stackInv (c, kv) \<Longrightarrow> seen (clientID c) (seqID c + 1) kv = None"
  by (auto simp: stackInv_def seen_def split: option.splits)

text \<open>With a key, the first server asked answers.\<close>

lemma execute_serve:
  assumes inv: "stackInv (c, kv)" and a: "addrs c \<noteq> []" and op: "op = ''get'' \<or> op = ''put''" and key: "key \<noteq> ''''"
  shows "\<exists>reply c' kv'. applyToStateMachine
        \<lparr>opType = (if op = ''get'' then ''Get'' else ''Put''), opKey = key, opValue = (if op = ''get'' then '''' else val),
         opSeqId = seqID c + 1, opClientId = clientID c\<rparr> (kvStore kv) = (reply, kvStore kv') \<and>
     execute (serve sz) (kvRequest op key val) (c, kv) =
      Some (Inr (httpResponseFromErr (orErr reply) (if op = ''get'' then orValue reply else '''')), c', kv') \<and> stackInv (c', kv')"
proof -
  let ?req = "(kvRequest op key val)\<lparr>hClientID := clientID c, hSeqID := seqID c + 1\<rparr>" and ?c1 = "c\<lparr>seqID := seqID c + 1\<rparr>"
  let ?cmd = "\<lparr>opType = (if op = ''get'' then ''Get'' else ''Put''), opKey = key, opValue = (if op = ''get'' then '''' else val),
    opSeqId = seqID c + 1, opClientId = clientID c\<rparr>"
  let ?reply = "fst (applyToStateMachine ?cmd (kvStore kv))"
  let ?resp = "httpResponseFromErr (orErr ?reply) (if op = ''get'' then orValue ?reply else '''')"
  have cmd: "requestOp ?req = ?cmd" by (simp add: requestOp_def kvRequest_def)
  have req: "hOp ?req = op" "hKey ?req = key" "hClientID ?req = clientID c" "hSeqID ?req = seqID c + 1" by (simp_all add: kvRequest_def)
  have sm: "smStep ?cmd (smData kv) = (?reply, snd (applyToStateMachine ?cmd (kvStore kv)),
      (recordMap kv)(clientID c \<mapsto> \<lparr>LastSeqId = seqID c + 1, LastReply = ?reply\<rparr>))"
    using smStep_fresh [of ?cmd kv] stackInv_seen [OF inv] by simp
  obtain kv' where k: "leading kv'" "smData kv' = snd (smStep ?cmd (smData kv))"
    "\<And>url. serve sz url ?req kv = (Some (HttpJson (httpStatus ?resp) ?resp), kv')"
    using serve_fresh [of kv ?req sz] inv op key stackInv_seen [OF inv] unfolding cmd req sm Let_def fst_conv stackInv_def by auto
  have "rErr ?resp \<noteq> ErrWrongLeader \<and> rErr ?resp \<noteq> ErrTimeOut"
    by (auto simp: httpResponseFromErr_def applyToStateMachine_def getHandler_def putHandler_def err_defs split: option.splits)
  moreover have "nextAddr ?c1 = Some (addrs c ! nat (curr c), turn ?c1)"
    using nextAddr_turn [of ?c1] inv a by (simp add: stackInv_def clientOk_def)
  ultimately have "execute (serve sz) (kvRequest op key val) (c, kv) = Some (Inr ?resp, turn ?c1, kv')"
    using a k(3) by (cases "addrs c") (auto simp: execute_def prepareRequest_def Let_def doOnce_def)
  moreover have "kvStore kv' = snd (applyToStateMachine ?cmd (kvStore kv))"
    and "recordMap kv' = (recordMap kv)(clientID c \<mapsto> \<lparr>LastSeqId = seqID c + 1, LastReply = ?reply\<rparr>)"
    using k(2) unfolding sm by simp_all
  moreover have "stackInv (turn ?c1, kv')" using inv k(1) calculation(3) by (auto simp: stackInv_def)
  ultimately show ?thesis by (intro exI [of _ ?reply] exI [of _ "turn ?c1"] exI [of _ kv']) (simp add: prod_eq_iff)
qed

text \<open>Without a key the server refuses, and nothing but the client changes.\<close>

lemma executeLoop_no_key:
  "hKey req = '''' \<Longrightarrow> addrs c \<noteq> [] \<Longrightarrow> clientOk c \<Longrightarrow>
   \<exists>c'. executeLoop (serve sz) req n (c, kv) = Some (Inl ''no available kv leader'', c', kv) \<and> clientOk c' \<and>
     clientID c' = clientID c \<and> seqID c' = seqID c"
proof (induction n arbitrary: c)
  case (Suc n)
  have "doOnce (serve sz) a req kv = (None, kv)" for a
    using Suc.prems(1) by (simp add: doOnce_def serve_def ServeHTTP_def)
  then show ?case using Suc.IH [of "turn c"] Suc.prems by (simp add: nextAddr_turn)
qed simp

lemma execute_refused:
  assumes "stackInv (c, kv)" and "key = '''' \<or> addrs c = []"
  obtains err c' where "execute (serve sz) (kvRequest op key val) (c, kv) = Some (Inl err, c', kv)" and "stackInv (c', kv)"
proof (cases "addrs c = []")
  case True
  then show thesis using that assms(1) by (simp add: execute_def)
next
  case False
  let ?c1 = "c\<lparr>seqID := seqID c + 1\<rparr>" and ?req = "(kvRequest op key val)\<lparr>hClientID := clientID c, hSeqID := seqID c + 1\<rparr>"
  obtain c' where c': "executeLoop (serve sz) ?req (length (addrs c)) (?c1, kv) = Some (Inl ''no available kv leader'', c', kv)"
    "clientOk c'" "clientID c' = clientID c" "seqID c' = seqID c + 1"
    using executeLoop_no_key [of ?req ?c1 sz "length (addrs c)" kv] False assms by (auto simp: kvRequest_def stackInv_def clientOk_def)
  then show thesis
    using that [of _ c'] False assms(1) by (fastforce simp: execute_def prepareRequest_def Let_def stackInv_def)
qed

lemma serve_put:
  assumes "stackInv s"
  shows "\<exists>e s'. kvPut (serve sz) k v s = Some (e, s') \<and> stackInv s' \<and>
    (kvStore (snd s') = (kvStore (snd s))(k \<mapsto> v) \<or> e \<noteq> None \<and> kvStore (snd s') = kvStore (snd s))"
proof (cases "k = '''' \<or> addrs (fst s) = []")
  case True
  then obtain err c' where "execute (serve sz) (kvRequest ''put'' k v) s = Some (Inl err, c', snd s)" "stackInv (c', snd s)"
    using execute_refused [of "fst s" "snd s" k sz "''put''" v] assms by auto
  then show ?thesis by (simp add: kvPut_def)
next
  case False
  then obtain kv' c' where "execute (serve sz) (kvRequest ''put'' k v) s = Some (Inr (httpResponseFromErr OK ''''), c', kv')"
    "stackInv (c', kv')" "kvStore kv' = (kvStore (snd s))(k \<mapsto> v)"
    using execute_serve [of "fst s" "snd s" "''put''" k v sz] assms by (auto simp: applyToStateMachine_def putHandler_def)
  then show ?thesis by (simp add: kvPut_def httpResponseFromErr_def)
qed

lemma serve_get:
  assumes "stackInv s"
  shows "\<exists>r s'. kvGet (serve sz) k s = Some (r, s') \<and> stackInv s' \<and> kvStore (snd s') = kvStore (snd s) \<and>
    (\<forall>v. r = Inr v \<longrightarrow> v = (case kvStore (snd s) k of Some v \<Rightarrow> v | None \<Rightarrow> ''''))"
proof (cases "k = '''' \<or> addrs (fst s) = []")
  case True
  then obtain err c' where "execute (serve sz) (kvRequest ''get'' k '''') s = Some (Inl err, c', snd s)" "stackInv (c', snd s)"
    using execute_refused [of "fst s" "snd s" k sz "''get''" "''''"] assms by auto
  then show ?thesis by (simp add: kvGet_def)
next
  case False
  then obtain reply c' kv' where "execute (serve sz) (kvRequest ''get'' k '''') s =
      Some (Inr (httpResponseFromErr (orErr reply) (orValue reply)), c', kv')"
    "stackInv (c', kv')" "kvStore kv' = kvStore (snd s)" "reply = getHandler \<lparr>opType = ''Get'', opKey = k, opValue = '''',
      opSeqId = seqID (fst s) + 1, opClientId = clientID (fst s)\<rparr> (kvStore (snd s))"
    using execute_serve [of "fst s" "snd s" "''get''" k "''''" sz] assms by (auto simp: applyToStateMachine_def)
  then show ?thesis by (auto simp: kvGet_def getHandler_def httpResponseFromErr_def err_defs split: option.splits)
qed

interpretation stack: kv_backend "serve sz" stackInv kvStore for sz
  using serve_put serve_get by unfold_locales (simp add: stackInv_def, fastforce, fastforce, (metis option.inject prod.inject)+)

text \<open>A backend that is up: with an address and a key, calls succeed.\<close>

locale available_backend = kv_backend post inv sem
  for post :: "'w transport" and inv :: "Client \<times> 'w \<Rightarrow> bool" and sem :: "'w \<Rightarrow> store" +
  assumes put_ok: "inv s \<Longrightarrow> addrs (fst s) \<noteq> [] \<Longrightarrow> k \<noteq> '''' \<Longrightarrow> \<exists>s'. kvPut post k v s = Some (None, s')"
    and get_ok: "inv s \<Longrightarrow> addrs (fst s) \<noteq> [] \<Longrightarrow> k \<noteq> '''' \<Longrightarrow> \<exists>v s'. kvGet post k s = Some (Inr v, s')"

interpretation liveStack: available_backend "serve sz" stackInv kvStore for sz
proof unfold_locales
  fix s :: "Client \<times> KVServer" and k v :: string
  assume a: "stackInv s" "addrs (fst s) \<noteq> []" "k \<noteq> ''''"
  show "\<exists>s'. kvPut (serve sz) k v s = Some (None, s')"
    using execute_serve [of "fst s" "snd s" "''put''" k v sz] a
    by (auto simp: kvPut_def applyToStateMachine_def putHandler_def httpResponseFromErr_def)
  show "\<exists>v s'. kvGet (serve sz) k s = Some (Inr v, s')"
    using execute_serve [of "fst s" "snd s" "''get''" k "''''" sz] a
    by (auto simp: kvGet_def applyToStateMachine_def getHandler_def httpResponseFromErr_def err_defs split: option.splits)
qed

text \<open>A call leaves the addresses and the identity of the client alone.\<close>

lemma kvPut_addrs: "clientOk c \<Longrightarrow> kvPut post k v (c, w) = Some (e, c', w') \<Longrightarrow> addrs c' = addrs c"
  using execute_ok [of c post "kvRequest ''put'' k v" w] by (auto simp: kvPut_def split: sum.splits if_splits)

lemma kvGet_addrs: "clientOk c \<Longrightarrow> kvGet post k (c, w) = Some (r, c', w') \<Longrightarrow> addrs c' = addrs c"
  using execute_ok [of c post "kvRequest ''get'' k ''''" w] by (auto simp: kvGet_def split: sum.splits if_splits)

end
