(* ===== verification/Models.thy ===== *)
theory Models
  imports Complex_Main Go_Stdlib
begin

text \<open>
  The data the services exchange: \<open>src/models/worker.go\<close> and \<open>chat.go\<close>. A utilization is a finite
  \<open>float64\<close> (JSON has no others), represented by the rational number it stands for; the code
  only compares them.
\<close>

section \<open>Workers\<close>

type_synonym WorkerStatus = string

definition WorkerBusy :: WorkerStatus where "WorkerBusy = ''busy''"
definition WorkerIdle :: WorkerStatus where "WorkerIdle = ''idle''"
definition WorkerOffline :: WorkerStatus where "WorkerOffline = ''offline''"

lemmas status_defs = WorkerBusy_def WorkerIdle_def WorkerOffline_def

record GPUInfo =
  gpuID :: int
  gpuModel :: string
  gpuMemoryMB :: int
  gpuUtilization :: rat

record WorkerInfo =
  wID :: string
  wIP :: string
  wPort :: int
  wGPUs :: "GPUInfo list"
  wStatus :: WorkerStatus

definition WorkerKey :: "WorkerInfo \<Rightarrow> string" where
  "WorkerKey w = (if wID w \<noteq> '''' then ''worker/'' @ wID w else ''worker/'' @ wIP w @ '':'' @ showInt (wPort w))"

definition EnsureID :: "WorkerInfo \<Rightarrow> WorkerInfo" where
  "EnsureID w = (if wID w = '''' then w\<lparr>wID := wIP w @ '':'' @ showInt (wPort w)\<rparr> else w)"

lemma EnsureID_not_empty [simp]: "wID (EnsureID w) \<noteq> ''''"
  by (simp add: EnsureID_def)

lemma EnsureID_idem [simp]: "EnsureID (EnsureID w) = EnsureID w"
  by (simp add: EnsureID_def)

lemma EnsureID_sel [simp]: "wIP (EnsureID w) = wIP w" "wPort (EnsureID w) = wPort w" "wStatus (EnsureID w) = wStatus w"
  "wGPUs (EnsureID w) = wGPUs w"
  by (simp_all add: EnsureID_def)

lemma WorkerKey_EnsureID: "WorkerKey w = ''worker/'' @ wID (EnsureID w)"
  by (simp add: WorkerKey_def EnsureID_def)

lemma EnsureID_inject:
  assumes "wID v = ''''" and "wID w = ''''"
  shows "wID (EnsureID v) = wID (EnsureID w) \<longleftrightarrow> wIP v = wIP w \<and> wPort v = wPort w"
  using assms colon_number_inject [of "wIP v" "wPort v" "wIP w" "wPort w"] by (simp add: EnsureID_def)

section \<open>Chat\<close>

record ChatMessage =
  Role :: string
  Content :: string

record ChatRequest =
  Prompt :: string
  crModel :: string
  Messages :: "ChatMessage list"
  MaxTokens :: int

record ChatResponse =
  Reply :: string
  WorkerID :: string
  GPUID :: int

definition zeroChatResponse :: ChatResponse where
  "zeroChatResponse = \<lparr>Reply = '''', WorkerID = '''', GPUID = 0\<rparr>"

definition promptRequest :: "string \<Rightarrow> ChatRequest" where
  "promptRequest prompt = \<lparr>Prompt = prompt, crModel = '''', Messages = [], MaxTokens = 0\<rparr>"

section \<open>HTTP answers\<close>

text \<open>An answer of the HTTP client: an error, or status and body (\<open>None\<close>: reading it failed).\<close>

record httpResp =
  respCode :: int
  respStatus :: string
  respBody :: "string option"

type_synonym httpResult = "string + httpResp"

end
