(* ===== verification/Controller.thy ===== *)
theory Controller
  imports KV_Stack Models
begin

text \<open>
  The controller: \<open>src/controlplane/controller/controller.go\<close>. Its state is the client of the key/value
  service and the two maps \<open>seen\<close> and \<open>lastseen\<close>; the state of the world behind the client is
  threaded along. The parameter \<open>J\<close> gives the JSON text of worker records and id lists
  and the order in which Go ranges over a map. \<open>None\<close> is a panic.
\<close>

section \<open>State\<close>

record codec =
  marshalWorker :: "WorkerInfo \<Rightarrow> string option"
  unmarshalWorker :: "string \<Rightarrow> WorkerInfo option"
  marshalIds :: "string list \<Rightarrow> string option"
  unmarshalIds :: "string \<Rightarrow> string list option"
  keyOrder :: "string list \<Rightarrow> string list"

definition workersIndexKey :: string where
  "workersIndexKey = ''workers/index''"

record Controller =
  ctlKv :: Client
  seenIds :: "string list"
  lastseen :: "(string \<times> int) list"

definition jsonError :: string where
  "jsonError = ''json''"

definition NewController :: "string list \<Rightarrow> int \<Rightarrow> Controller" where
  "NewController kvAddrs unixNano = \<lparr>ctlKv = NewClient kvAddrs unixNano, seenIds = [], lastseen = []\<rparr>"

text \<open>\<open>seen[wid] = struct{}{}\<close> and \<open>lastseen[wid] = now\<close>.\<close>

definition markSeen :: "string \<Rightarrow> Controller \<Rightarrow> Controller" where
  "markSeen wid c = c\<lparr>seenIds := (if wid \<in> set (seenIds c) then seenIds c else seenIds c @ [wid])\<rparr>"

definition markAlive :: "string \<Rightarrow> int \<Rightarrow> Controller \<Rightarrow> Controller" where
  "markAlive wid now c = (markSeen wid c)\<lparr>lastseen := (wid, now) # filter (\<lambda>p. fst p \<noteq> wid) (lastseen c)\<rparr>"

section \<open>The index of workers\<close>

definition idsLocked :: "codec \<Rightarrow> Controller \<Rightarrow> string list" where
  "idsLocked J c = keyOrder J (seenIds c)"

definition saveIndexLocked ::
  "codec \<Rightarrow> 'w transport \<Rightarrow> Controller \<times> 'w \<Rightarrow> (string option \<times> Controller \<times> 'w) option" where
  "saveIndexLocked J post s =
    (case marshalIds J (idsLocked J (fst s)) of
       None \<Rightarrow> Some (Some jsonError, s)
     | Some data \<Rightarrow> do {
         (err, kv, w) \<leftarrow> kvPut post workersIndexKey data (ctlKv (fst s), snd s);
         Some (err, (fst s)\<lparr>ctlKv := kv\<rparr>, w) })"

definition addToIndex ::
  "codec \<Rightarrow> 'w transport \<Rightarrow> string \<Rightarrow> Controller \<times> 'w \<Rightarrow> (string option \<times> Controller \<times> 'w) option" where
  "addToIndex J post wid s = saveIndexLocked J post (markSeen wid (fst s), snd s)"

definition loadIndex ::
  "codec \<Rightarrow> 'w transport \<Rightarrow> Controller \<times> 'w \<Rightarrow> ((string + string list) \<times> Controller \<times> 'w) option" where
  "loadIndex J post s =
    (if seenIds (fst s) \<noteq> [] then Some (Inr (idsLocked J (fst s)), s)
     else do {
       (r, kv, w) \<leftarrow> kvGet post workersIndexKey (ctlKv (fst s), snd s);
       let c1 = (fst s)\<lparr>ctlKv := kv\<rparr>;
       Some (case r of
         Inl err \<Rightarrow> (Inl err, c1, w)
       | Inr raw \<Rightarrow>
           if raw = '''' then (Inr [], c1, w)
           else case unmarshalIds J raw of
             None \<Rightarrow> (Inl jsonError, c1, w)
           | Some ids \<Rightarrow> (Inr ids, fold markSeen ids c1, w)) })"

section \<open>Operations\<close>

text \<open>One tick of \<open>startHeartbeatChecker\<close>, at time \<open>now\<close>.\<close>

definition expired :: "int \<Rightarrow> int \<Rightarrow> Controller \<Rightarrow> string \<Rightarrow> bool" where
  "expired timeout now c wid \<longleftrightarrow> (\<exists>(i, t) \<in> set (lastseen c). i = wid \<and> now - t > timeout)"

definition heartbeatTick ::
  "codec \<Rightarrow> 'w transport \<Rightarrow> int \<Rightarrow> int \<Rightarrow> Controller \<times> 'w \<Rightarrow> (Controller \<times> 'w) option" where
  "heartbeatTick J post timeout now s =
    (let c = fst s;
         c1 = c\<lparr>seenIds := filter (\<lambda>wid. \<not> expired timeout now c wid) (seenIds c),
                lastseen := filter (\<lambda>p. \<not> now - snd p > timeout) (lastseen c)\<rparr>
     in if \<exists>p \<in> set (lastseen c). now - snd p > timeout
        then do { (err, s1) \<leftarrow> saveIndexLocked J post (c1, snd s); Some s1 }
        else Some (c1, snd s))"

definition RegisterWorker ::
  "codec \<Rightarrow> 'w transport \<Rightarrow> int \<Rightarrow> WorkerInfo \<Rightarrow> Controller \<times> 'w \<Rightarrow> (string option \<times> Controller \<times> 'w) option" where
  "RegisterWorker J post now info0 s =
    (let info = EnsureID info0 in
     case marshalWorker J info of
       None \<Rightarrow> Some (Some jsonError, s)
     | Some data \<Rightarrow> do {
         (err, kv, w) \<leftarrow> kvPut post (WorkerKey info) data (ctlKv (fst s), snd s);
         let c1 = (fst s)\<lparr>ctlKv := kv\<rparr>;
         if err \<noteq> None then Some (err, c1, w)
         else saveIndexLocked J post (markAlive (wID info) now c1, w) })"

definition Heartbeat ::
  "codec \<Rightarrow> 'w transport \<Rightarrow> int \<Rightarrow> WorkerInfo \<Rightarrow> Controller \<times> 'w \<Rightarrow> (string option \<times> Controller \<times> 'w) option" where
  "Heartbeat J post now info s = saveIndexLocked J post (markAlive (wID info) now (fst s), snd s)"

definition workerOf :: "codec \<Rightarrow> string \<Rightarrow> string + string \<Rightarrow> string + WorkerInfo" where
  "workerOf J wid r =
    (case r of
       Inl err \<Rightarrow> Inl err
     | Inr raw \<Rightarrow>
         if raw = '''' then Inl (''worker '' @ wid @ '' not found'')
         else case unmarshalWorker J raw of None \<Rightarrow> Inl jsonError | Some info \<Rightarrow> Inr info)"

definition GetWorker ::
  "codec \<Rightarrow> 'w transport \<Rightarrow> string \<Rightarrow> Controller \<times> 'w \<Rightarrow> ((string + WorkerInfo) \<times> Controller \<times> 'w) option" where
  "GetWorker J post wid s = do {
     (r, kv, w) \<leftarrow> kvGet post (''worker/'' @ wid) (ctlKv (fst s), snd s);
     Some (workerOf J wid r, (fst s)\<lparr>ctlKv := kv\<rparr>, w) }"

fun getWorkers ::
  "codec \<Rightarrow> 'w transport \<Rightarrow> string list \<Rightarrow> Controller \<times> 'w \<Rightarrow> (WorkerInfo list \<times> Controller \<times> 'w) option" where
  "getWorkers J post [] s = Some ([], s)"
| "getWorkers J post (wid # ids) s = do {
     (r, s1) \<leftarrow> GetWorker J post wid s;
     (out, s2) \<leftarrow> getWorkers J post ids s1;
     Some (case r of Inl err \<Rightarrow> out | Inr info \<Rightarrow> info # out, s2) }"

definition ListWorkers ::
  "codec \<Rightarrow> 'w transport \<Rightarrow> Controller \<times> 'w \<Rightarrow> ((string + WorkerInfo list) \<times> Controller \<times> 'w) option" where
  "ListWorkers J post s = do {
     (r, s1) \<leftarrow> loadIndex J post s;
     (case r of
        Inl err \<Rightarrow> Some (Inl err, s1)
      | Inr ids \<Rightarrow> do { (out, s2) \<leftarrow> getWorkers J post ids s1; Some (Inr out, s2) }) }"

section \<open>Choosing a worker\<close>

definition workerLoadScore :: "WorkerInfo \<Rightarrow> rat" where
  "workerLoadScore w =
    (if wStatus w = WorkerBusy then 1000
     else foldl (\<lambda>maxUtil g. if gpuUtilization g > maxUtil then gpuUtilization g else maxUtil) 0 (wGPUs w))"

text \<open>The loop, with \<open>best\<close> and \<open>bestScore\<close> while \<open>found\<close>.\<close>

fun pickLoop :: "string list \<Rightarrow> bool \<Rightarrow> WorkerInfo list \<Rightarrow> (WorkerInfo \<times> rat) option \<Rightarrow> WorkerInfo option" where
  "pickLoop ids requireSeen [] best = map_option fst best"
| "pickLoop ids requireSeen (w # ws) best =
    (if requireSeen \<and> wID w \<notin> set ids then pickLoop ids requireSeen ws best
     else if wStatus w = WorkerOffline then pickLoop ids requireSeen ws best
     else let score = workerLoadScore w in
       (case best of
          None \<Rightarrow> pickLoop ids requireSeen ws (Some (w, score))
        | Some (b, bestScore) \<Rightarrow>
            if score < bestScore then pickLoop ids requireSeen ws (Some (w, score))
            else pickLoop ids requireSeen ws best))"

definition pickLowestLoadWorker :: "WorkerInfo list \<Rightarrow> string list \<Rightarrow> bool \<Rightarrow> WorkerInfo option" where
  "pickLowestLoadWorker workers ids requireSeen = pickLoop ids requireSeen workers None"

definition PickBestWorker ::
  "codec \<Rightarrow> 'w transport \<Rightarrow> Controller \<times> 'w \<Rightarrow> ((string + WorkerInfo) \<times> Controller \<times> 'w) option" where
  "PickBestWorker J post s = do {
     (r, s1) \<leftarrow> ListWorkers J post s;
     Some (case r of
       Inl err \<Rightarrow> (Inl err, s1)
     | Inr workers \<Rightarrow>
         (case pickLowestLoadWorker workers (seenIds (fst s1)) True of
            Some best \<Rightarrow> (Inr best, s1)
          | None \<Rightarrow> (case pickLowestLoadWorker workers [] False of
              Some best \<Rightarrow> (Inr best, s1)
            | None \<Rightarrow> (Inl ''no available worker'', s1)))) }"

section \<open>HTTP\<close>

datatype ctl_out = CtlError string int | CtlNotFound | CtlStatus string string | CtlWorker WorkerInfo | CtlWorkers "WorkerInfo list"

text \<open>\<open>body\<close> is \<open>None\<close> when reading it failed.\<close>

definition decodeWorker :: "codec \<Rightarrow> string option \<Rightarrow> string + WorkerInfo" where
  "decodeWorker J body =
    (case body of
       None \<Rightarrow> Inl ''read''
     | Some b \<Rightarrow> (case unmarshalWorker J b of
         None \<Rightarrow> Inl jsonError
       | Some info \<Rightarrow>
           if wIP info = '''' \<or> wPort info = 0 then Inl ''ip and port are required''
           else Inr (EnsureID (if wStatus info = '''' then info\<lparr>wStatus := WorkerIdle\<rparr> else info))))"

definition handleRegister where
  "handleRegister J post now body s =
    (case decodeWorker J body of
       Inl err \<Rightarrow> Some (CtlError err 400, s)
     | Inr info \<Rightarrow> do {
         (e, s1) \<leftarrow> RegisterWorker J post now info s;
         Some (case e of Some err \<Rightarrow> CtlError err 502 | None \<Rightarrow> CtlStatus ''registered'' (wID info), s1) })"

definition handleHeartbeat where
  "handleHeartbeat J post now body s =
    (case decodeWorker J body of
       Inl err \<Rightarrow> Some (CtlError err 400, s)
     | Inr info \<Rightarrow> do {
         (e, s1) \<leftarrow> Heartbeat J post now info s;
         Some (case e of Some err \<Rightarrow> CtlError err 502 | None \<Rightarrow> CtlStatus ''ok'' (wID info), s1) })"

definition handleBest where
  "handleBest J post s = do {
     (r, s1) \<leftarrow> PickBestWorker J post s;
     Some (case r of Inl err \<Rightarrow> CtlError err 503 | Inr w \<Rightarrow> CtlWorker w, s1) }"

definition handleList where
  "handleList J post s = do {
     (r, s1) \<leftarrow> ListWorkers J post s;
     Some (case r of Inl err \<Rightarrow> CtlError err 502 | Inr ws \<Rightarrow> CtlWorkers ws, s1) }"

definition CtlServeHTTP ::
  "codec \<Rightarrow> 'w transport \<Rightarrow> int \<Rightarrow> string \<Rightarrow> string \<Rightarrow> string option \<Rightarrow> Controller \<times> 'w \<Rightarrow> (ctl_out \<times> Controller \<times> 'w) option" where
  "CtlServeHTTP J post now meth path body s =
    (if meth = ''POST'' \<and> path = ''/workers/register'' then handleRegister J post now body s
     else if meth = ''POST'' \<and> path = ''/workers/heartbeat'' then handleHeartbeat J post now body s
     else if meth = ''GET'' \<and> path = ''/workers'' then handleList J post s
     else if meth = ''GET'' \<and> path = ''/workers/best'' then handleBest J post s
     else Some (CtlNotFound, s))"

definition ParseKVAddrs :: "string \<Rightarrow> string list" where
  "ParseKVAddrs s = filter (\<lambda>p. p \<noteq> '''') (map trimSpace (splitOn (CHR '','') s))"

end
