(* ===== verification/Controller_Facts.thy ===== *)
theory Controller_Facts
  imports Controller
begin

text \<open>
  The laws of the controller. The choice of a worker is the first one of least load; what the
  controller stores in the key/value service is what it reads back, for every backend that meets the
  contract of \<open>KV_Stack\<close>; a tick of the heartbeat checker removes exactly the silent workers.
\<close>

section \<open>The worker of least load\<close>

definition eligible :: "string list \<Rightarrow> bool \<Rightarrow> WorkerInfo \<Rightarrow> bool" where
  "eligible ids requireSeen w \<longleftrightarrow> (requireSeen \<longrightarrow> wID w \<in> set ids) \<and> wStatus w \<noteq> WorkerOffline"

definition firstMin :: "('a \<Rightarrow> 'b::linorder) \<Rightarrow> 'a list \<Rightarrow> 'a \<Rightarrow> bool" where
  "firstMin f xs b \<longleftrightarrow> (\<exists>us vs. xs = us @ b # vs \<and> (\<forall>u \<in> set us. f b < f u) \<and> (\<forall>v \<in> set vs. f b \<le> f v))"

lemma firstMin_single: "firstMin f [b] b"
  unfolding firstMin_def by (intro exI [of _ "[]"]) simp

lemma firstMin_le: "firstMin f xs b \<Longrightarrow> x \<in> set xs \<Longrightarrow> f b \<le> f x"
  by (auto simp: firstMin_def less_imp_le)

lemma firstMin_drop: "f w < f b \<Longrightarrow> firstMin f (w # xs) r \<Longrightarrow> firstMin f (b # w # xs) r"
proof -
  assume wb: "f w < f b" and "firstMin f (w # xs) r"
  then obtain us vs where x: "w # xs = us @ r # vs" "\<forall>u \<in> set us. f r < f u" "\<forall>v \<in> set vs. f r \<le> f v"
    by (auto simp: firstMin_def)
  have "f r \<le> f w" using x by (cases us) auto
  with wb x show "firstMin f (b # w # xs) r"
    unfolding firstMin_def by (intro exI [of _ "b # us"] exI [of _ vs]) auto
qed

lemma firstMin_keep: "\<not> f w < f b \<Longrightarrow> firstMin f (b # xs) r \<Longrightarrow> firstMin f (b # w # xs) r"
proof -
  assume wb: "\<not> f w < f b" and "firstMin f (b # xs) r"
  then obtain us vs where x: "b # xs = us @ r # vs" "\<forall>u \<in> set us. f r < f u" "\<forall>v \<in> set vs. f r \<le> f v"
    by (auto simp: firstMin_def)
  show "firstMin f (b # w # xs) r"
  proof (cases us)
    case Nil
    then show ?thesis using x wb unfolding firstMin_def by (intro exI [of _ "[]"] exI [of _ "w # xs"]) auto
  next
    case (Cons u us')
    then show ?thesis using x wb unfolding firstMin_def by (intro exI [of _ "b # w # us'"] exI [of _ vs]) auto
  qed
qed

lemma firstMin_unique: "firstMin f xs a \<Longrightarrow> firstMin f xs b \<Longrightarrow> a = b"
  unfolding firstMin_def by (fastforce simp: append_eq_append_conv2 append_eq_Cons_conv Cons_eq_append_conv)

definition scored :: "WorkerInfo \<Rightarrow> WorkerInfo \<times> rat" where
  "scored b = (b, workerLoadScore b)"

lemma pickLoop_step:
  "pickLoop ids req (w # ws) (map_option scored best) =
    (if \<not> eligible ids req w then pickLoop ids req ws (map_option scored best)
     else pickLoop ids req ws (map_option scored (case best of
       None \<Rightarrow> Some w | Some b \<Rightarrow> if workerLoadScore w < workerLoadScore b then Some w else Some b)))"
  by (auto simp: eligible_def scored_def Let_def split: option.splits)

lemma pickLoop_spec:
  "case pickLoop ids req ws (map_option scored best) of
      None \<Rightarrow> best = None \<and> filter (eligible ids req) ws = []
    | Some r \<Rightarrow> firstMin workerLoadScore ((case best of None \<Rightarrow> [] | Some b \<Rightarrow> [b]) @ filter (eligible ids req) ws) r"
proof (induction ws arbitrary: best)
  case Nil
  then show ?case by (cases best) (auto simp: firstMin_single scored_def)
next
  case (Cons w ws)
  from Cons.IH [of best] Cons.IH [of "Some w"] show ?case
    unfolding pickLoop_step
    by (cases best) (auto split: option.splits intro: firstMin_drop firstMin_keep)
qed

lemma pickLowestLoadWorker_iff:
  "pickLowestLoadWorker ws ids requireSeen = Some b \<longleftrightarrow> firstMin workerLoadScore (filter (eligible ids requireSeen) ws) b"
  "pickLowestLoadWorker ws ids requireSeen = None \<longleftrightarrow> filter (eligible ids requireSeen) ws = []"
proof -
  have spec: "case pickLowestLoadWorker ws ids requireSeen of None \<Rightarrow> filter (eligible ids requireSeen) ws = []
    | Some r \<Rightarrow> firstMin workerLoadScore (filter (eligible ids requireSeen) ws) r"
    using pickLoop_spec [where ids = ids and req = requireSeen and ws = ws and best = None] by (auto simp: pickLowestLoadWorker_def split: option.splits)
  have "\<not> firstMin workerLoadScore [] x" for x by (simp add: firstMin_def)
  then show "pickLowestLoadWorker ws ids requireSeen = Some b \<longleftrightarrow> firstMin workerLoadScore (filter (eligible ids requireSeen) ws) b"
    and "pickLowestLoadWorker ws ids requireSeen = None \<longleftrightarrow> filter (eligible ids requireSeen) ws = []"
    using spec firstMin_unique [of workerLoadScore "filter (eligible ids requireSeen) ws"]
    by (auto simp del: filter_empty_conv split: option.splits)
qed

lemma foldl_max:
  "foldl (\<lambda>m g. if f g > m then f g else m) a gs = Max (insert a (f ` set gs))" for a :: "'a::linorder"
proof (induction gs arbitrary: a)
  case (Cons g gs)
  have "foldl (\<lambda>m g. if f g > m then f g else m) a (g # gs) = Max (insert (max a (f g)) (f ` set gs))"
    using Cons.IH by (simp add: max_def not_less less_imp_le)
  also have "\<dots> = Max (insert a (f ` set (g # gs)))"
    by (cases "gs = []") (auto simp: Max_insert max.assoc)
  finally show ?case .
qed simp

lemma workerLoadScore_Max:
  "wStatus w \<noteq> WorkerBusy \<Longrightarrow> workerLoadScore w = Max (insert 0 (gpuUtilization ` set (wGPUs w)))"
  by (simp add: workerLoadScore_def foldl_max)

section \<open>Heartbeats\<close>

lemma markAlive_sel [simp]:
  "ctlKv (markAlive i t c) = ctlKv c" "ctlKv (markSeen i c) = ctlKv c" "lastseen (markSeen i c) = lastseen c"
  "set (seenIds (markSeen i c)) = insert i (set (seenIds c))" "set (seenIds (markAlive i t c)) = insert i (set (seenIds c))"
  "lastseen (markAlive i t c) = (i, t) # filter (\<lambda>p. fst p \<noteq> i) (lastseen c)"
  by (auto simp: markAlive_def markSeen_def)

lemma markAlive_seenIds [simp]: "seenIds (markAlive i t c) = seenIds (markSeen i c)" "seenIds (markSeen i c) \<noteq> []"
  by (auto simp: markAlive_def markSeen_def)

lemma saveIndexLocked_sel:
  assumes "saveIndexLocked J post s = Some (e, s')"
  shows "seenIds (fst s') = seenIds (fst s) \<and> lastseen (fst s') = lastseen (fst s)"
  using assms by (auto simp: saveIndexLocked_def bind_Some_iff split: option.splits)

lemma heartbeatTick_sel:
  assumes "heartbeatTick J post timeout now s = Some s'"
  shows "seenIds (fst s') = filter (\<lambda>i. \<not> expired timeout now (fst s) i) (seenIds (fst s))"
    and "lastseen (fst s') = filter (\<lambda>p. \<not> now - snd p > timeout) (lastseen (fst s))"
  using assms by (auto simp: heartbeatTick_def Let_def bind_Some_iff dest!: saveIndexLocked_sel split: if_splits)

section \<open>Through the key/value service\<close>

lemma worker_key_not_index [simp]: "''worker/'' @ i \<noteq> workersIndexKey"
  by (simp add: workersIndexKey_def)

lemma markSeen_fold: "set (seenIds (fold markSeen ids c)) = set ids \<union> set (seenIds c)"
  "ctlKv (fold markSeen ids c) = ctlKv c" "lastseen (fold markSeen ids c) = lastseen c"
  by (induction ids arbitrary: c) auto

lemma loadIndex_fresh:
  assumes "seenIds (fst s) = []" and "loadIndex J post s = Some (Inr ids, s')"
  obtains raw kv w where "kvGet post workersIndexKey (ctlKv (fst s), snd s) = Some (Inr raw, kv, w)"
    and "fst s' = fold markSeen ids ((fst s)\<lparr>ctlKv := kv\<rparr>)" and "if raw = '''' then ids = [] else unmarshalIds J raw = Some ids"
proof -
  obtain r0 kv w where g: "kvGet post workersIndexKey (ctlKv (fst s), snd s) = Some (r0, kv, w)"
    and l: "(case r0 of Inl err \<Rightarrow> (Inl err, (fst s)\<lparr>ctlKv := kv\<rparr>, w)
       | Inr raw \<Rightarrow> if raw = '''' then (Inr [], (fst s)\<lparr>ctlKv := kv\<rparr>, w)
           else case unmarshalIds J raw of None \<Rightarrow> (Inl jsonError, (fst s)\<lparr>ctlKv := kv\<rparr>, w)
             | Some ids \<Rightarrow> (Inr ids, fold markSeen ids ((fst s)\<lparr>ctlKv := kv\<rparr>), w)) = (Inr ids, s')"
    using assms by (auto simp: loadIndex_def bind_Some_iff Let_def)
  from l obtain raw where raw: "r0 = Inr raw" by (cases r0) auto
  show thesis
    using that [OF g [unfolded raw]] l unfolding raw
    by (cases "raw = ''''"; cases "unmarshalIds J raw") auto
qed

context kv_backend
begin

lemma saveIndex:
  assumes "inv (ctlKv (fst s), snd s)" and "saveIndexLocked J post s = Some (None, s')"
  obtains data where "marshalIds J (idsLocked J (fst s)) = Some data" and "sem (snd s') = (sem (snd s))(workersIndexKey \<mapsto> data)"
    and "inv (ctlKv (fst s'), snd s')" and "addrs (ctlKv (fst s')) = addrs (ctlKv (fst s))"
proof -
  obtain data kv w where d: "marshalIds J (idsLocked J (fst s)) = Some data"
    "kvPut post workersIndexKey data (ctlKv (fst s), snd s) = Some (None, kv, w)" "s' = ((fst s)\<lparr>ctlKv := kv\<rparr>, w)"
    using assms(2) by (auto simp: saveIndexLocked_def bind_Some_iff split: option.splits)
  from put_sem [OF assms(1) d(2)] put_inv [OF assms(1) d(2)] kvPut_addrs [OF _ d(2)] inv_client [OF assms(1)] d(1,3)
  show thesis by (intro that [of data]) auto
qed

lemma GetWorker_reads:
  assumes "inv (ctlKv (fst s), snd s)" and "GetWorker J post i s = Some (r, s')"
  shows "inv (ctlKv (fst s'), snd s')" and "sem (snd s') = sem (snd s)" and "seenIds (fst s') = seenIds (fst s)"
    and "addrs (ctlKv (fst s')) = addrs (ctlKv (fst s))"
    and "r = Inr info \<Longrightarrow> \<exists>raw. sem (snd s) (''worker/'' @ i) = Some raw \<and> unmarshalWorker J raw = Some info"
proof -
  obtain r' kv w where g: "kvGet post (''worker/'' @ i) (ctlKv (fst s), snd s) = Some (r', kv, w)"
    "fst s' = (fst s)\<lparr>ctlKv := kv\<rparr>" "snd s' = w" "r = workerOf J i r'"
    using assms(2) by (auto simp: GetWorker_def bind_Some_iff)
  show "inv (ctlKv (fst s'), snd s')" "sem (snd s') = sem (snd s)" "seenIds (fst s') = seenIds (fst s)"
    using get_inv [OF assms(1) g(1)] get_sem [OF assms(1) g(1)] g(2,3) by auto
  show "addrs (ctlKv (fst s')) = addrs (ctlKv (fst s))"
    using kvGet_addrs [OF _ g(1)] inv_client [OF assms(1)] g(2) by simp
  show "\<exists>raw. sem (snd s) (''worker/'' @ i) = Some raw \<and> unmarshalWorker J raw = Some info" if ri: "r = Inr info"
  proof -
    obtain raw where "r' = Inr raw" "raw \<noteq> ''''" "unmarshalWorker J raw = Some info"
      using g(4) ri by (auto simp: workerOf_def split: option.splits sum.splits if_splits)
    with get_value [OF assms(1) g(1) [unfolded \<open>r' = Inr raw\<close>]] show ?thesis by (auto split: option.splits)
  qed
qed

text \<open>A successful registration stores the record and the index.\<close>

lemma RegisterWorker_stores:
  assumes "inv (ctlKv (fst s), snd s)" and "RegisterWorker J post now info s = Some (None, s')"
  obtains data ids where "marshalWorker J (EnsureID info) = Some data" and "marshalIds J (keyOrder J (seenIds (fst s'))) = Some ids"
    and "sem (snd s') = (sem (snd s))(WorkerKey info \<mapsto> data, workersIndexKey \<mapsto> ids)"
    and "set (seenIds (fst s')) = insert (wID (EnsureID info)) (set (seenIds (fst s)))"
    and "inv (ctlKv (fst s'), snd s')" and "addrs (ctlKv (fst s')) = addrs (ctlKv (fst s))"
proof -
  let ?i = "wID (EnsureID info)" and ?key = "WorkerKey (EnsureID info)"
  obtain data kv w where d: "marshalWorker J (EnsureID info) = Some data"
    "kvPut post ?key data (ctlKv (fst s), snd s) = Some (None, kv, w)"
    and save: "saveIndexLocked J post (markAlive ?i now ((fst s)\<lparr>ctlKv := kv\<rparr>), w) = Some (None, s')"
    using assms(2) by (auto simp: RegisterWorker_def Let_def bind_Some_iff split: option.splits if_splits)
  let ?s1 = "(markAlive ?i now ((fst s)\<lparr>ctlKv := kv\<rparr>), w)"
  have inv1: "inv (ctlKv (fst ?s1), snd ?s1)" using put_inv [OF assms(1) d(2)] by simp
  obtain ids where ids: "marshalIds J (idsLocked J (fst ?s1)) = Some ids" "sem (snd s') = (sem (snd ?s1))(workersIndexKey \<mapsto> ids)"
    "inv (ctlKv (fst s'), snd s')" "addrs (ctlKv (fst s')) = addrs (ctlKv (fst ?s1))"
    using inv1 save by (rule saveIndex)
  have sel: "seenIds (fst s') = seenIds (fst ?s1)" using saveIndexLocked_sel [OF save] by blast
  show thesis
  proof (rule that [OF d(1) _ _ _ ids(3)])
    show "marshalIds J (keyOrder J (seenIds (fst s'))) = Some ids" using ids(1) unfolding sel idsLocked_def .
    show "sem (snd s') = (sem (snd s))(WorkerKey info \<mapsto> data, workersIndexKey \<mapsto> ids)"
      using ids(2) put_sem [OF assms(1) d(2)] by (simp add: WorkerKey_EnsureID)
    show "set (seenIds (fst s')) = insert ?i (set (seenIds (fst s)))" unfolding sel by simp
    show "addrs (ctlKv (fst s')) = addrs (ctlKv (fst s))"
      using ids(4) kvPut_addrs [OF _ d(2)] inv_client [OF assms(1)] by simp
  qed
qed

text \<open>A new controller on the same service reads back the index the old one saved.\<close>

lemma loadIndex_saved:
  assumes "inv (ctlKv (fst s), snd s)" and "sem (snd s) workersIndexKey = Some raw" and "raw \<noteq> ''''" and "unmarshalIds J raw = Some ids"
    and "seenIds (fst s) = []" and "loadIndex J post s = Some (Inr r, s')"
  shows "r = ids" and "set (seenIds (fst s')) = set ids" and "lastseen (fst s') = lastseen (fst s)"
proof -
  obtain raw' kv w where l: "kvGet post workersIndexKey (ctlKv (fst s), snd s) = Some (Inr raw', kv, w)"
    "fst s' = fold markSeen r ((fst s)\<lparr>ctlKv := kv\<rparr>)" "if raw' = '''' then r = [] else unmarshalIds J raw' = Some r"
    using assms(5,6) by (rule loadIndex_fresh)
  have "raw' = raw" using get_value [OF assms(1) l(1)] assms(2) by simp
  then have "r = ids" and "fst s' = fold markSeen ids ((fst s)\<lparr>ctlKv := kv\<rparr>)" using l(2,3) assms(3,4) by auto
  then show "r = ids" "set (seenIds (fst s')) = set ids" "lastseen (fst s') = lastseen (fst s)"
    using assms(5) by (simp_all add: markSeen_fold)
qed

end

context available_backend
begin

lemma GetWorker_finds:
  assumes "inv (ctlKv (fst s), snd s)" and "addrs (ctlKv (fst s)) \<noteq> []" and "sem (snd s) (''worker/'' @ i) = Some raw"
    and "raw \<noteq> ''''" and "unmarshalWorker J raw = Some info"
  obtains s' where "GetWorker J post i s = Some (Inr info, s')"
proof -
  obtain v kv w where g: "kvGet post (''worker/'' @ i) (ctlKv (fst s), snd s) = Some (Inr v, kv, w)"
    using get_ok [OF assms(1), of "''worker/'' @ i"] assms(2) by auto
  with get_value [OF assms(1) g] assms(3-5) show thesis
    by (intro that [of "((fst s)\<lparr>ctlKv := kv\<rparr>, w)"]) (simp add: GetWorker_def workerOf_def)
qed

lemma GetWorker_returns:
  assumes "inv (ctlKv (fst s), snd s)"
  shows "\<exists>r s'. GetWorker J post i s = Some (r, s')"
proof -
  obtain r kv w where "kvGet post (''worker/'' @ i) (ctlKv (fst s), snd s) = Some (r, kv, w)"
    using get_total [OF assms, of "''worker/'' @ i"] by auto
  then show ?thesis by (simp add: GetWorker_def)
qed

text \<open>Every worker whose record is stored is listed.\<close>

lemma getWorkers_finds:
  assumes "inv (ctlKv (fst s), snd s)" and "addrs (ctlKv (fst s)) \<noteq> []" and "sem (snd s) (''worker/'' @ i) = Some raw"
    and "raw \<noteq> ''''" and "unmarshalWorker J raw = Some info"
  shows "\<exists>out s'. getWorkers J post ids s = Some (out, s') \<and> seenIds (fst s') = seenIds (fst s) \<and> (i \<in> set ids \<longrightarrow> info \<in> set out)"
  using assms(1-3)
proof (induction ids arbitrary: s)
  case (Cons j js)
  obtain r s1 where g: "GetWorker J post j s = Some (r, s1)"
    using GetWorker_returns [OF Cons.prems(1)] by blast
  note reads = GetWorker_reads [OF Cons.prems(1) g]
  have "sem (snd s1) (''worker/'' @ i) = Some raw" and "addrs (ctlKv (fst s1)) \<noteq> []"
    using Cons.prems(2,3) reads(2,4) by simp_all
  then obtain out s2 where IH: "getWorkers J post js s1 = Some (out, s2)" "seenIds (fst s2) = seenIds (fst s1)" "i \<in> set js \<longrightarrow> info \<in> set out"
    using Cons.IH [OF reads(1)] by blast
  have "r = Inr info" if "j = i"
    using g unfolding that by (rule_tac GetWorker_finds [OF Cons.prems assms(4,5)]) simp
  then show ?case using g IH reads(3) by (auto split: sum.splits)
qed simp

lemma registered_listed:
  assumes "inv (ctlKv (fst s), snd s)" and "addrs (ctlKv (fst s)) \<noteq> []" and "RegisterWorker J post now info s = Some (None, s1)"
    and "\<And>d. marshalWorker J (EnsureID info) = Some d \<Longrightarrow> d \<noteq> '''' \<and> unmarshalWorker J d = Some (EnsureID info)"
    and "\<And>xs. set (keyOrder J xs) = set xs"
  shows "\<exists>ws s2. ListWorkers J post s1 = Some (Inr ws, s2) \<and> EnsureID info \<in> set ws \<and> wID (EnsureID info) \<in> set (seenIds (fst s2))"
proof -
  let ?i = "wID (EnsureID info)"
  obtain d ids where r: "marshalWorker J (EnsureID info) = Some d"
    "sem (snd s1) = (sem (snd s))(WorkerKey info \<mapsto> d, workersIndexKey \<mapsto> ids)"
    "set (seenIds (fst s1)) = insert ?i (set (seenIds (fst s)))" "inv (ctlKv (fst s1), snd s1)"
    "addrs (ctlKv (fst s1)) = addrs (ctlKv (fst s))"
    using assms(1,3) by (rule RegisterWorker_stores)
  have sem: "sem (snd s1) (''worker/'' @ ?i) = Some d" unfolding r(2) WorkerKey_EnsureID by (simp add: workersIndexKey_def)
  have "addrs (ctlKv (fst s1)) \<noteq> []" using r(5) assms(2) by simp
  then obtain out s2 where g: "getWorkers J post (idsLocked J (fst s1)) s1 = Some (out, s2)" "seenIds (fst s2) = seenIds (fst s1)"
      "?i \<in> set (idsLocked J (fst s1)) \<longrightarrow> EnsureID info \<in> set out"
    using getWorkers_finds [OF r(4) _ sem] assms(4) [OF r(1)] by blast
  have "seenIds (fst s1) \<noteq> []" using r(3) by auto
  with g r(3) assms(5) show ?thesis by (simp add: ListWorkers_def loadIndex_def idsLocked_def)
qed

lemma registered_can_be_picked:
  assumes "inv (ctlKv (fst s), snd s)" and "addrs (ctlKv (fst s)) \<noteq> []" and "RegisterWorker J post now info s = Some (None, s1)"
    and "\<And>d. marshalWorker J (EnsureID info) = Some d \<Longrightarrow> d \<noteq> '''' \<and> unmarshalWorker J d = Some (EnsureID info)"
    and "\<And>xs. set (keyOrder J xs) = set xs" and "wStatus info \<noteq> WorkerOffline"
  shows "\<exists>best s2. PickBestWorker J post s1 = Some (Inr best, s2) \<and> workerLoadScore best \<le> workerLoadScore (EnsureID info)"
proof -
  obtain ws s2 where l: "ListWorkers J post s1 = Some (Inr ws, s2)" "EnsureID info \<in> set ws" "wID (EnsureID info) \<in> set (seenIds (fst s2))"
    using registered_listed [OF assms(1-5)] by blast
  let ?el = "filter (eligible (seenIds (fst s2)) True) ws"
  have el: "EnsureID info \<in> set ?el" using l assms(6) by (simp add: eligible_def)
  then have "?el \<noteq> []" by (metis empty_iff empty_set)
  then obtain best where best: "pickLowestLoadWorker ws (seenIds (fst s2)) True = Some best"
    using pickLowestLoadWorker_iff(2) [of ws "seenIds (fst s2)" True] by blast
  then have "firstMin workerLoadScore ?el best" using pickLowestLoadWorker_iff(1) by blast
  then have "workerLoadScore best \<le> workerLoadScore (EnsureID info)" using el by (rule firstMin_le)
  then show ?thesis using l(1) best by (simp add: PickBestWorker_def)
qed

end

text \<open>What the controller answers was decoded from the key/value service.\<close>

lemma getWorkers_decoded: "getWorkers J post ids s = Some (out, s') \<Longrightarrow> w \<in> set out \<Longrightarrow> \<exists>raw. unmarshalWorker J raw = Some w"
proof (induction ids arbitrary: s out s')
  case (Cons i ids)
  then obtain r s1 out' s2 where g: "GetWorker J post i s = Some (r, s1)" "getWorkers J post ids s1 = Some (out', s2)"
    "out = (case r of Inl err \<Rightarrow> out' | Inr info \<Rightarrow> info # out')"
    by (auto simp: bind_Some_iff)
  obtain q where q: "r = workerOf J i q" using g(1) by (auto simp: GetWorker_def bind_Some_iff)
  have "\<exists>raw. unmarshalWorker J raw = Some info" if "r = Inr info" for info
    using q that by (cases q) (auto simp: workerOf_def split: option.split_asm if_split_asm)
  then show ?case using Cons.IH [OF g(2)] Cons.prems(2) g(3) by (cases r) auto
qed simp

lemma PickBestWorker_decoded:
  assumes "PickBestWorker J post s = Some (Inr best, s')"
  shows "\<exists>raw. unmarshalWorker J raw = Some best"
proof -
  obtain r s1 where l: "ListWorkers J post s = Some (r, s1)" using assms by (auto simp: PickBestWorker_def bind_Some_iff)
  with assms obtain ws where ws: "r = Inr ws" "\<exists>ids req. pickLowestLoadWorker ws ids req = Some best"
    by (cases r) (auto simp: PickBestWorker_def split: option.split_asm)
  then obtain ids req where "firstMin workerLoadScore (filter (eligible ids req) ws) best"
    using pickLowestLoadWorker_iff(1) by blast
  then have "best \<in> set (filter (eligible ids req) ws)" unfolding firstMin_def by (metis in_set_conv_decomp)
  moreover obtain r' s2 where "loadIndex J post s = Some (r', s2)" using l by (auto simp: ListWorkers_def bind_Some_iff)
  with l ws(1) obtain ids' s3 where "getWorkers J post ids' s2 = Some (ws, s3)"
    by (cases r') (auto simp: ListWorkers_def bind_Some_iff)
  ultimately show ?thesis using getWorkers_decoded by (meson filter_is_subset subsetD)
qed

section \<open>The life of a controller\<close>

text \<open>
  What happens to a controller while a worker \<open>wid\<close> is silent: ticks of the heartbeat checker at any time, requests of any kind that do not come from this worker, and changes of the
  world behind the client.
\<close>

inductive ctl_step :: "codec \<Rightarrow> 'w transport \<Rightarrow> int \<Rightarrow> string \<Rightarrow> Controller \<times> 'w \<Rightarrow> Controller \<times> 'w \<Rightarrow> bool" for J post timeout wid where
  tick: "heartbeatTick J post timeout now s = Some s' \<Longrightarrow> ctl_step J post timeout wid s s'"
| request: "CtlServeHTTP J post now meth path body s = Some (out, s') \<Longrightarrow> (\<And>info. decodeWorker J body = Inr info \<Longrightarrow> wID info \<noteq> wid) \<Longrightarrow>
    ctl_step J post timeout wid s s'"
| world: "ctl_step J post timeout wid (c, w) (c, w')"

text \<open>Known to the controller, without a recorded heartbeat.\<close>

definition neverHeard :: "string \<Rightarrow> Controller \<Rightarrow> bool" where
  "neverHeard wid c \<longleftrightarrow> wid \<in> set (seenIds c) \<and> wid \<notin> fst ` set (lastseen c)"

lemma neverHeard_markAlive: "neverHeard wid c \<Longrightarrow> i \<noteq> wid \<Longrightarrow> neverHeard wid (markAlive i now c)"
  by (auto simp: neverHeard_def)

lemma neverHeard_kv [simp]: "neverHeard wid (c\<lparr>ctlKv := kv\<rparr>) = neverHeard wid c"
  by (simp add: neverHeard_def)

lemma neverHeard_save: "saveIndexLocked J post s = Some (e, s') \<Longrightarrow> neverHeard wid (fst s') = neverHeard wid (fst s)"
  by (simp add: neverHeard_def saveIndexLocked_sel)

lemma neverHeard_tick: "heartbeatTick J post timeout now s = Some s' \<Longrightarrow> neverHeard wid (fst s) \<Longrightarrow> neverHeard wid (fst s')"
  using heartbeatTick_sel [of J post timeout now s s'] by (force simp: neverHeard_def expired_def)

lemma neverHeard_register:
  assumes "RegisterWorker J post now info s = Some (e, s')" and "neverHeard wid (fst s)" and "wID (EnsureID info) \<noteq> wid"
  shows "neverHeard wid (fst s')"
  using assms
  by (auto simp: RegisterWorker_def bind_Some_iff Let_def neverHeard_save intro!: neverHeard_markAlive split: option.splits if_splits)

lemma neverHeard_heartbeat:
  "Heartbeat J post now info s = Some (e, s') \<Longrightarrow> neverHeard wid (fst s) \<Longrightarrow> wID info \<noteq> wid \<Longrightarrow> neverHeard wid (fst s')"
  by (auto simp: Heartbeat_def neverHeard_save intro!: neverHeard_markAlive)

lemma getWorkers_keeps: "getWorkers J post ids s = Some (out, s') \<Longrightarrow> seenIds (fst s') = seenIds (fst s) \<and> lastseen (fst s') = lastseen (fst s)"
  by (induction ids arbitrary: s out) (fastforce simp: GetWorker_def bind_Some_iff)+

lemma neverHeard_list: "ListWorkers J post s = Some (r, s') \<Longrightarrow> neverHeard wid (fst s) \<Longrightarrow> neverHeard wid (fst s')"
  by (auto simp: ListWorkers_def loadIndex_def bind_Some_iff neverHeard_def dest!: getWorkers_keeps split: if_splits sum.splits)

lemma PickBestWorker_lists: "PickBestWorker J post s = Some (r, s') \<Longrightarrow> \<exists>r'. ListWorkers J post s = Some (r', s')"
  unfolding PickBestWorker_def bind_Some_iff by (force split: sum.split_asm option.split_asm)

lemma neverHeard_best: "PickBestWorker J post s = Some (r, s') \<Longrightarrow> neverHeard wid (fst s) \<Longrightarrow> neverHeard wid (fst s')"
  using PickBestWorker_lists neverHeard_list by metis

lemma decodeWorker_ensured: "decodeWorker J body = Inr info \<Longrightarrow> EnsureID info = info"
  by (auto simp: decodeWorker_def split: option.splits if_splits)

lemma neverHeard_reads:
  "handleList J post s = Some (out, s') \<Longrightarrow> neverHeard wid (fst s) \<Longrightarrow> neverHeard wid (fst s')"
  "handleBest J post s = Some (out, s') \<Longrightarrow> neverHeard wid (fst s) \<Longrightarrow> neverHeard wid (fst s')"
  by (auto simp: handleList_def handleBest_def bind_Some_iff dest: neverHeard_list neverHeard_best)

lemma ctl_step_neverHeard: "ctl_step J post timeout wid s s' \<Longrightarrow> neverHeard wid (fst s) \<Longrightarrow> neverHeard wid (fst s')"
proof (induction rule: ctl_step.induct)
  case (tick now s s')
  then show ?case by (rule neverHeard_tick)
next
  case (request now meth path body s out s')
  then show ?case
    by (auto simp: CtlServeHTTP_def handleRegister_def handleHeartbeat_def bind_Some_iff decodeWorker_ensured
        split: if_splits sum.splits intro: neverHeard_register neverHeard_heartbeat neverHeard_reads)
qed simp

lemma ctl_steps_neverHeard: "(ctl_step J post timeout wid)\<^sup>*\<^sup>* s s' \<Longrightarrow> neverHeard wid (fst s) \<Longrightarrow> neverHeard wid (fst s')"
  by (induction rule: rtranclp_induct) (auto dest: ctl_step_neverHeard)

end
