(* ===== verification/Control_Theorems.thy ===== *)
theory Control_Theorems
  imports Controller_Facts
begin

text \<open>
  Properties of the two clients of the key/value service and of the controller, with the concrete
  instances at which their hypotheses hold.
\<close>

section \<open>The clerk\<close>

text \<open>C12: A clerk's calls take effect once and in order. Whatever the network answers, if a log keeps a part of what a clerk
  sends in the order it was sent, a fresh server that applies it ends with the store a plain map has after some of
  the wanted operations, each once and in order.\<close>

theorem clerk_exactly_once:
  assumes "clerkRun g p fuel calls (ck, w, []) = (w', tr)" and "subseq cmds tr" and "map Command msgs = map Some cmds"
    and "kvStore kv = Map.empty" and "recordMap kv = Map.empty"
  shows "\<exists>rs kv' ops. applyAll sz msgs kv = Some (rs, kv') \<and> subseq ops (wanted (ckClientId ck) (ckSeqId ck) calls) \<and>
    kvStore kv' = specRun ops Map.empty"
proof -
  have tr: "repeated (wanted (ckClientId ck) (ckSeqId ck) calls) tr"
    using clerkRun_repeated [of g p fuel calls ck w "[]"] assms(1) by simp
  have "inOrder cmds" using subseq_inOrder [OF assms(2) repeated_inOrder [OF tr wanted_inOrder]] .
  then show ?thesis
    using applied_once [OF assms(3) _ assms(4,5)] repeated_firsts [OF tr assms(2)] by blast
qed

definition freshServer :: KVServer where
  "freshServer = fst (StartKVServer 1 0 MakePersister (-1) 0)"

lemma freshServer_empty: "kvStore freshServer = Map.empty" "recordMap freshServer = Map.empty"
  by (simp_all add: freshServer_def StartKVServer_def Let_def persister_defs split: prod.splits)

text \<open>A network that loses the first request and answers OK from then on.\<close>

definition lossy :: "string \<Rightarrow> PutAppendArgs \<Rightarrow> nat \<Rightarrow> PutAppendReply option \<times> nat" where
  "lossy e args n = (if n = 0 then None else Some \<lparr>parErr = OK, parLeaderId = 0\<rparr>, Suc n)"

definition twoCalls :: "clerk_call list" where
  "twoCalls = [ClerkPutAppend ''k'' ''a'' ''Append'', ClerkPutAppend ''k'' ''b'' ''Append'']"

definition lossyTrace :: "Op list" where
  "lossyTrace = snd (clerkRun (\<lambda>e args n. (None, n)) lossy 5 twoCalls (MakeClerk [''s0'', ''s1''] 7, 0, []))"

theorem clerk_exactly_once_witness:
  "length lossyTrace = 3 \<and> (\<exists>rs kv' ops. applyAll (\<lambda>_. 0) (map (\<lambda>c. zeroApplyMsg\<lparr>Command := Some c\<rparr>) lossyTrace) freshServer = Some (rs, kv') \<and>
     subseq ops (wanted 7 0 twoCalls) \<and> kvStore kv' = specRun ops Map.empty)"
proof -
  obtain w' where r: "clerkRun (\<lambda>e args n. (None, n)) lossy 5 twoCalls (MakeClerk [''s0'', ''s1''] 7, 0, []) = (w', lossyTrace)"
    unfolding lossyTrace_def by (metis prod.collapse)
  have "length lossyTrace = 3" by code_simp
  moreover have "ckClientId (MakeClerk [''s0'', ''s1''] 7) = 7" "ckSeqId (MakeClerk [''s0'', ''s1''] 7) = 0"
    by (simp_all add: MakeClerk_def)
  ultimately show ?thesis
    using clerk_exactly_once [OF r subseq_order.refl, of "map (\<lambda>c. zeroApplyMsg\<lparr>Command := Some c\<rparr>) lossyTrace" freshServer "\<lambda>_. 0"]
      freshServer_empty by (simp add: comp_def)
qed

text \<open>C30: A clerk finds the leader. If one server answers and every other server fails, a put returns after at most one round
  through the servers.\<close>

theorem clerk_finds_leader:
  assumes "0 \<le> currLeader ck" and "currLeader ck < int (length (ckServers ck))" and "0 \<le> j" and "j < int (length (ckServers ck))"
    and "putAnswers call ck j" and "\<And>i. 0 \<le> i \<Longrightarrow> i < int (length (ckServers ck)) \<Longrightarrow> i \<noteq> j \<Longrightarrow> putFails call ck i"
    and "length (ckServers ck) \<le> fuel"
  shows "\<exists>ck' w'. clerkPutAppend call fuel key val op (ck, w) = Returned () ck' w'"
proof -
  let ?st = "('''', ck\<lparr>ckSeqId := ckSeqId ck + 1\<rparr>, w)"
  have "returned (clerkPutLoop call key val op (ckSeqId ck) fuel ?st)"
    using assms by (intro putRetry.answered_within_round [of ?st j]) (simp_all add: OK_def putAnswers_def putFails_def)
  then show ?thesis by (auto simp: clerkPutAppend_def returned_def split: clerk_out.splits)
qed

theorem clerk_finds_leader_witness:
  "\<exists>ck' w'. clerkPutAppend (\<lambda>e args (w :: unit). (if e = ''s2'' then Some \<lparr>parErr = OK, parLeaderId = 2\<rparr> else None, w)) 3 ''k'' ''v'' ''Put''
     (MakeClerk [''s0'', ''s1'', ''s2''] 7, ()) = Returned () ck' w'"
  by (rule clerk_finds_leader [of _ 2]) (auto simp: MakeClerk_def putAnswers_def putFails_def nth_Cons' split: if_splits)

section \<open>The HTTP client\<close>

text \<open>One round of requests. A call posts the same numbered request to at most one round of servers, beginning with the
  current one, and always returns.\<close>

lemma client_round:
  assumes "clientOk c" and "addrs c \<noteq> []"
  shows "\<exists>r c' w' m. execute (posting post) req (c, w, tr) =
      Some (r, c', w', tr @ map (\<lambda>i. (urlAt c i, req\<lparr>hClientID := clientID c, hSeqID := seqID c + 1\<rparr>)) [0..<m]) \<and>
    m \<le> length (addrs c) \<and> clientOk c' \<and> seqID c' = seqID c + 1"
proof -
  obtain req' c1 where p: "prepareRequest req c = (req', c1)" by fastforce
  note sel = prepareRequest_sel [OF p]
  have url: "urlAt c1 i = urlAt c i" for i using sel by (simp add: urlAt_def)
  show ?thesis
    using executeLoop_posts [of c1 post req' "length (addrs c1)" w tr] executeLoop_ok [of c1 "posting post" req' "length (addrs c1)" "(w, tr)"]
      assms sel by (auto simp: execute_def p url)
qed

text \<open>The client finds the leader. If one address gives a definite answer and every other one fails or is not the leader,
  a call returns a definite answer.\<close>

lemma client_finds_leader:
  assumes "clientOk c" and "addrs c \<noteq> []" and "0 \<le> j" and "j < int (length (addrs c))"
    and "addrAnswers post c j" and "\<And>i. 0 \<le> i \<Longrightarrow> i < int (length (addrs c)) \<Longrightarrow> i \<noteq> j \<Longrightarrow> addrFails post c i"
  shows "\<exists>resp s'. execute post req (c, w) = Some (Inr resp, s') \<and> rErr resp \<noteq> ErrWrongLeader \<and> rErr resp \<noteq> ErrTimeOut"
proof -
  obtain req' c1 where p: "prepareRequest req c = (req', c1)" by fastforce
  note sel = prepareRequest_sel [OF p]
  have "gotAnswer (executeLoop post req' (length (addrs c1)) (c1, w))"
    using assms sel by (intro clientRetry.answered_within_round [of "(c1, w)" j]) (auto simp: addrAnswers_def addrFails_def clientOk_def)
  then show ?thesis
    using assms(2) by (auto simp: execute_def p gotAnswer_def definite_def split: option.splits sum.splits)
qed

section \<open>From the client to the store\<close>

definition leaderServer :: KVServer where
  "leaderServer = freshServer\<lparr>kvRf := (kvRf freshServer)\<lparr>rstate := 0\<rparr>\<rparr>"

definition someClient :: Client where
  "someClient = NewClient [''a''] 7"

lemma some_stackInv: "stackInv (someClient, leaderServer)"
proof -
  have "clientOk someClient" "clientID someClient = 7" "seqID someClient = 0" "leading leaderServer" by code_simp+
  then show ?thesis using freshServer_empty by (simp add: stackInv_def leaderServer_def)
qed

lemma some_addrs: "addrs someClient \<noteq> []"
  by code_simp

text \<open>C29: Read your writes, end to end. On a leader that commits, a value put through the HTTP client is read back under its key, and
  other keys read as before.\<close>

theorem read_your_writes:
  assumes "stackInv s" and "kvPut (serve sz) k v s = Some (None, s1)" and "kvGet (serve sz) k' s1 = Some (Inr v', s2)"
  shows "v' = (if k' = k then v else case kvStore (snd s) k' of Some x \<Rightarrow> x | None \<Rightarrow> '''')"
  by (rule stack.get_after_put [OF assms])

theorem read_your_writes_witness:
  "\<exists>s1 s2. kvPut (serve (\<lambda>_. 0)) ''k'' ''v'' (someClient, leaderServer) = Some (None, s1) \<and> kvGet (serve (\<lambda>_. 0)) ''k'' s1 = Some (Inr ''v'', s2)"
proof -
  obtain s1 where p: "kvPut (serve (\<lambda>_. 0)) ''k'' ''v'' (someClient, leaderServer) = Some (None, s1)"
    using liveStack.put_ok [OF some_stackInv, of "''k''" "\<lambda>_. 0" "''v''"] some_addrs by auto
  have a: "addrs (fst s1) \<noteq> []"
    using kvPut_addrs [of someClient _ _ _ leaderServer None "fst s1" "snd s1"] p some_addrs stack.inv_client [OF some_stackInv] by simp
  obtain v' s2 where g: "kvGet (serve (\<lambda>_. 0)) ''k'' s1 = Some (Inr v', s2)"
    using liveStack.get_ok [OF stack.put_inv [OF some_stackInv p] a] by blast
  show ?thesis using read_your_writes [OF some_stackInv p g] p g by auto
qed

text \<open>C38: Overtaken requests get foreign answers. When of two reads of one client the later one reaches the server first, the earlier one is
  answered with the value of the later one's key.\<close>

theorem overtaken_read:
  assumes "stackInv (c, kv)" and "prepareRequest (kvRequest ''get'' a '''') c = (ra, c1)" and "prepareRequest (kvRequest ''get'' b '''') c1 = (rb, c2)"
    and "kvStore kv b = Some vb" and "b \<noteq> ''''" and "a \<noteq> ''''"
  shows "\<exists>kv1 code kv2. serve sz url rb kv = (Some (HttpJson code \<lparr>rOK = True, rValue = vb, rErr = OK\<rparr>), kv1) \<and> kvStore kv1 = kvStore kv \<and>
    serve sz url' ra kv1 = (Some (HttpJson code \<lparr>rOK = True, rValue = vb, rErr = OK\<rparr>), kv2)"
proof -
  have ra: "ra = (kvRequest ''get'' a '''')\<lparr>hClientID := clientID c, hSeqID := seqID c + 1\<rparr>"
    and rb: "rb = (kvRequest ''get'' b '''')\<lparr>hClientID := clientID c, hSeqID := seqID c + 2\<rparr>"
    using prepareRequest_sel [OF assms(2)] prepareRequest_sel [OF assms(3)] by simp_all
  let ?cmd = "requestOp rb" and ?reply = "\<lparr>orErr = OK, orValue = vb\<rparr>"
  have new: "seen (clientID c) (seqID c + 2) kv = None"
    using assms(1) by (auto simp: stackInv_def seen_def split: option.splits)
  have cmd: "opType ?cmd = ''Get''" "opKey ?cmd = b" "opClientId ?cmd = clientID c" "opSeqId ?cmd = seqID c + 2"
    by (simp_all add: requestOp_def rb kvRequest_def)
  have sm: "smStep ?cmd (smData kv) = (?reply, kvStore kv, (recordMap kv)(clientID c \<mapsto> \<lparr>LastSeqId = seqID c + 2, LastReply = ?reply\<rparr>))"
    using smStep_fresh [of ?cmd kv] new assms(4) by (simp add: cmd applyToStateMachine_def getHandler_def)
  obtain kv1 where 1: "leading kv1" "smData kv1 = snd (smStep ?cmd (smData kv))"
    "serve sz url rb kv = (Some (HttpJson 200 \<lparr>rOK = True, rValue = vb, rErr = OK\<rparr>), kv1)"
    using serve_fresh [of kv rb sz] assms(1,5) new sm
    by (auto simp: stackInv_def rb kvRequest_def httpResponseFromErr_def httpStatus_def Let_def err_defs)
  have "serve sz url' ra kv1 = (Some (HttpJson 200 \<lparr>rOK = True, rValue = vb, rErr = OK\<rparr>), kv1)"
    using 1(1,2) assms(1,6) unfolding sm
    by (simp add: serve_def ServeHTTP_def executeHTTPWithClient_def GetBegin_def seen_def KVKilled_def leading_def stackInv_def
        ra kvRequest_def httpResponseFromErr_def httpStatus_def Let_def err_defs)
  then show ?thesis using 1 sm by auto
qed

theorem overtaken_read_witness:
  "\<exists>ra rb c1 c2 kv1 code kv2. prepareRequest (kvRequest ''get'' ''x'' '''') someClient = (ra, c1) \<and>
     prepareRequest (kvRequest ''get'' ''y'' '''') c1 = (rb, c2) \<and>
     serve (\<lambda>_. 0) ''a/kv'' rb (leaderServer\<lparr>kvStore := [''x'' \<mapsto> ''1'', ''y'' \<mapsto> ''2'']\<rparr>) = (Some (HttpJson code \<lparr>rOK = True, rValue = ''2'', rErr = OK\<rparr>), kv1) \<and>
     kvStore kv1 ''x'' = Some ''1'' \<and> serve (\<lambda>_. 0) ''a/kv'' ra kv1 = (Some (HttpJson code \<lparr>rOK = True, rValue = ''2'', rErr = OK\<rparr>), kv2)"
proof -
  let ?kv = "leaderServer\<lparr>kvStore := [''x'' \<mapsto> ''1'', ''y'' \<mapsto> ''2'']\<rparr>"
  have inv: "stackInv (someClient, ?kv)" using some_stackInv by (simp add: stackInv_def leading_def)
  obtain ra c1 where 1: "prepareRequest (kvRequest ''get'' ''x'' '''') someClient = (ra, c1)" by fastforce
  obtain rb c2 where 2: "prepareRequest (kvRequest ''get'' ''y'' '''') c1 = (rb, c2)" by fastforce
  show ?thesis using overtaken_read [OF inv 1 2, of "''2''" "\<lambda>_. 0" "''a/kv''" "''a/kv''"] 1 2 by fastforce
qed

section \<open>The controller\<close>

definition someWorker :: WorkerInfo where
  "someWorker = \<lparr>wID = '''', wIP = ''10.0.0.1'', wPort = 8000, wGPUs = [], wStatus = WorkerIdle\<rparr>"

definition someCodec :: codec where
  "someCodec = \<lparr>marshalWorker = \<lambda>w. Some ''w'', unmarshalWorker = \<lambda>s. Some (EnsureID someWorker), marshalIds = \<lambda>ids. Some ''i'',
     unmarshalIds = \<lambda>s. Some [wID (EnsureID someWorker)], keyOrder = \<lambda>xs. xs\<rparr>"

definition someController :: Controller where
  "someController = \<lparr>ctlKv = someClient, seenIds = [], lastseen = []\<rparr>"

lemma registration_succeeds:
  assumes "marshalWorker J (EnsureID info) = Some d" and "\<And>ids. marshalIds J ids = Some e"
  shows "\<exists>s1. RegisterWorker J (serve sz) now info (someController, leaderServer) = Some (None, s1)"
proof -
  obtain c1 w1 where 1: "kvPut (serve sz) (WorkerKey (EnsureID info)) d (someClient, leaderServer) = Some (None, c1, w1)"
    using liveStack.put_ok [OF some_stackInv] some_addrs by (fastforce simp: WorkerKey_EnsureID)
  have "addrs c1 \<noteq> []" using kvPut_addrs [OF _ 1] stack.inv_client [OF some_stackInv] some_addrs by simp
  then obtain c2 w2 where "kvPut (serve sz) workersIndexKey e (c1, w1) = Some (None, c2, w2)"
    using liveStack.put_ok [OF stack.put_inv [OF some_stackInv 1]] by (fastforce simp: workersIndexKey_def)
  then show ?thesis
    using 1 assms by (simp add: RegisterWorker_def saveIndexLocked_def someController_def)
qed

lemma some_registration: "\<exists>s1. RegisterWorker someCodec (serve sz) 0 someWorker (someController, leaderServer) = Some (None, s1)"
  by (rule registration_succeeds) (simp_all add: someCodec_def)

text \<open>C32: The index survives the controller. A controller that starts with empty memory on the service where another one has just registered a worker loads exactly
  the ids the other one knew. The JSON codec has to restore the list it wrote.\<close>

theorem index_survives_restart:
  assumes "stackInv (ctlKv c, kv)" and "RegisterWorker J (serve sz) now info (c, kv) = Some (None, c1, kv1)"
    and "\<And>d. marshalIds J (keyOrder J (seenIds c1)) = Some d \<Longrightarrow> d \<noteq> '''' \<and> unmarshalIds J d = Some (keyOrder J (seenIds c1))"
    and "\<And>xs. set (keyOrder J xs) = set xs"
    and "stackInv (ctlKv c', kv1)" and "seenIds c' = []" and "loadIndex J (serve sz) (c', kv1) = Some (Inr ids, c2, kv2)"
  shows "set ids = set (seenIds c1) \<and> set (seenIds c2) = set (seenIds c1) \<and> wID (EnsureID info) \<in> set ids"
proof -
  have s: "stackInv (ctlKv (fst (c, kv)), snd (c, kv))" and s': "stackInv (ctlKv (fst (c', kv1)), snd (c', kv1))"
    using assms(1,5) by simp_all
  obtain d raw where r: "marshalIds J (keyOrder J (seenIds (fst (c1, kv1)))) = Some raw"
    "kvStore (snd (c1, kv1)) = (kvStore (snd (c, kv)))(WorkerKey info \<mapsto> d, workersIndexKey \<mapsto> raw)"
    "set (seenIds (fst (c1, kv1))) = insert (wID (EnsureID info)) (set (seenIds (fst (c, kv))))"
    using s assms(2) by (rule stack.RegisterWorker_stores)
  have raw: "raw \<noteq> ''''" "unmarshalIds J raw = Some (keyOrder J (seenIds c1))" using assms(3) r(1) by simp_all
  have "kvStore (snd (c', kv1)) workersIndexKey = Some raw" using r(2) by simp
  from stack.loadIndex_saved [OF s' this raw _ assms(7)] show ?thesis using r(3) assms(4,6) by simp
qed

theorem index_survives_restart_witness:
  "\<exists>c1 kv1 ids s2. RegisterWorker someCodec (serve (\<lambda>_. 0)) 0 someWorker (someController, leaderServer) = Some (None, c1, kv1) \<and>
     loadIndex someCodec (serve (\<lambda>_. 0)) (someController\<lparr>ctlKv := ctlKv c1\<rparr>, kv1) = Some (Inr ids, s2) \<and> set ids = set (seenIds c1)"
proof -
  obtain c1 kv1 where r: "RegisterWorker someCodec (serve (\<lambda>_. 0)) 0 someWorker (someController, leaderServer) = Some (None, c1, kv1)"
    using some_registration by (metis prod.collapse)
  have kv: "stackInv (ctlKv someController, leaderServer)" using some_stackInv by (simp add: someController_def)
  have reg: "stackInv (ctlKv c1, kv1) \<and> addrs (ctlKv c1) = addrs someClient \<and> set (seenIds c1) = {wID (EnsureID someWorker)}"
    by (rule stack.RegisterWorker_stores [where s = "(someController, leaderServer)" and s' = "(c1, kv1)"])
      (use kv r in \<open>auto simp: someController_def\<close>)
  have seen: "seenIds c1 = [wID (EnsureID someWorker)]"
    using r by (auto simp: RegisterWorker_def someController_def someCodec_def bind_Some_iff Let_def markAlive_def markSeen_def
        dest!: saveIndexLocked_sel split: if_splits)
  let ?c' = "someController\<lparr>ctlKv := ctlKv c1\<rparr>"
  obtain v c2 w2 where g: "kvGet (serve (\<lambda>_. 0)) workersIndexKey (ctlKv c1, kv1) = Some (Inr v, c2, w2)"
    using liveStack.get_ok [of "(ctlKv c1, kv1)" workersIndexKey "\<lambda>_. 0"] reg some_addrs by (auto simp: workersIndexKey_def)
  obtain ids s2 where l: "loadIndex someCodec (serve (\<lambda>_. 0)) (?c', kv1) = Some (Inr ids, s2)"
    using g by (cases "v = []") (auto simp: loadIndex_def someController_def someCodec_def Let_def)
  show ?thesis
    using index_survives_restart [OF kv r, of ?c' ids "fst s2" "snd s2"] r l seen reg by (simp add: someCodec_def someController_def)
qed

text \<open>C31: The scheduler's choice. \<open>pickLowestLoadWorker\<close> returns the first of the eligible workers whose load is least, and nothing
  exactly when no worker is eligible.\<close>

theorem lowest_load_worker:
  "(pickLowestLoadWorker ws ids requireSeen = Some b \<longleftrightarrow>
     (\<exists>us vs. filter (\<lambda>w. (requireSeen \<longrightarrow> wID w \<in> set ids) \<and> wStatus w \<noteq> WorkerOffline) ws = us @ b # vs \<and>
        (\<forall>u \<in> set us. workerLoadScore b < workerLoadScore u) \<and> (\<forall>v \<in> set vs. workerLoadScore b \<le> workerLoadScore v))) \<and>
   (pickLowestLoadWorker ws ids requireSeen = None \<longleftrightarrow>
     filter (\<lambda>w. (requireSeen \<longrightarrow> wID w \<in> set ids) \<and> wStatus w \<noteq> WorkerOffline) ws = [])"
  using pickLowestLoadWorker_iff [of ws ids requireSeen] unfolding firstMin_def eligible_def by simp

definition gpuWorker :: "string \<Rightarrow> WorkerStatus \<Rightarrow> rat list \<Rightarrow> WorkerInfo" where
  "gpuWorker i st us = \<lparr>wID = i, wIP = ''h'', wPort = 1, wGPUs = map (\<lambda>u. \<lparr>gpuID = 0, gpuModel = '''', gpuMemoryMB = 0, gpuUtilization = u\<rparr>) us, wStatus = st\<rparr>"

theorem lowest_load_worker_witness:
  "pickLowestLoadWorker [gpuWorker ''a'' WorkerBusy [0], gpuWorker ''b'' WorkerIdle [1/2, 3/4], gpuWorker ''c'' WorkerOffline [], gpuWorker ''d'' WorkerIdle [1/4]]
     [''a'', ''b''] True = Some (gpuWorker ''b'' WorkerIdle [1/2, 3/4])"
proof -
  let ?ws = "[gpuWorker ''a'' WorkerBusy [0], gpuWorker ''b'' WorkerIdle [1/2, 3/4], gpuWorker ''c'' WorkerOffline [], gpuWorker ''d'' WorkerIdle [1/4]]"
  let ?b = "gpuWorker ''b'' WorkerIdle [1/2, 3/4]"
  have f: "filter (\<lambda>w. (True \<longrightarrow> wID w \<in> set [''a'', ''b'']) \<and> wStatus w \<noteq> WorkerOffline) ?ws = [gpuWorker ''a'' WorkerBusy [0]] @ ?b # []"
    by (simp add: gpuWorker_def status_defs)
  have "workerLoadScore ?b < workerLoadScore (gpuWorker ''a'' WorkerBusy [0])"
    by (simp add: gpuWorker_def workerLoadScore_def status_defs)
  then show ?thesis
    using f lowest_load_worker [of ?ws "[''a'', ''b'']" True ?b] by fastforce
qed

text \<open>Expiry. A tick of the heartbeat checker keeps exactly the seen workers that have no heartbeat older than the timeout; what has no
  recorded heartbeat stays.\<close>

lemma heartbeat_expiry:
  assumes "heartbeatTick J post timeout now s = Some s'"
  shows "set (seenIds (fst s')) =
      {i \<in> set (seenIds (fst s)). \<forall>t. (i, t) \<in> set (lastseen (fst s)) \<longrightarrow> now \<le> t + timeout} \<and>
    set (lastseen (fst s')) = {(i, t). (i, t) \<in> set (lastseen (fst s)) \<and> now \<le> t + timeout}"
  using heartbeatTick_sel [OF assms] by (auto simp: expired_def)

text \<open>C39: Workers loaded from the index never expire. After a restart the loaded ids have no recorded heartbeat. A loaded worker that is never heard of again stays known
  for ever: no sequence of ticks of the heartbeat checker, at whatever times, and of requests of others removes it.\<close>

theorem loaded_workers_never_expire:
  assumes "seenIds (fst s) = []" and "lastseen (fst s) = []" and "loadIndex J post s = Some (Inr ids, s1)" and "wid \<in> set ids"
    and "(ctl_step J post timeout wid)\<^sup>*\<^sup>* s1 s2"
  shows "wid \<in> set (seenIds (fst s2))"
proof -
  have "set (seenIds (fst s1)) = set ids" "lastseen (fst s1) = []"
    using assms(2) by (rule_tac [!] loadIndex_fresh [OF assms(1,3)]) (simp_all add: markSeen_fold assms(1))
  then have "neverHeard wid (fst s1)" using assms(4) by (simp add: neverHeard_def)
  then show ?thesis using ctl_steps_neverHeard [OF assms(5)] by (simp add: neverHeard_def)
qed

definition indexPost :: "unit transport" where
  "indexPost url req w = (Some (HttpJson 200 \<lparr>rOK = True, rValue = ''i'', rErr = OK\<rparr>), w)"

definition restartedController :: Controller where
  "restartedController = \<lparr>ctlKv = \<lparr>addrs = [''a''], curr = 0, clientID = 7, seqID = 0\<rparr>, seenIds = [], lastseen = []\<rparr>"

theorem loaded_workers_never_expire_witness:
  "\<exists>s1 s2 s3. loadIndex someCodec indexPost (restartedController, ()) = Some (Inr [wID (EnsureID someWorker)], s1) \<and>
     heartbeatTick someCodec indexPost 6 1000000 s1 = Some s2 \<and> heartbeatTick someCodec indexPost 6 2000000 s2 = Some s3 \<and>
     wID (EnsureID someWorker) \<in> set (seenIds (fst s3))"
proof -
  obtain s1 where l: "loadIndex someCodec indexPost (restartedController, ()) = Some (Inr [wID (EnsureID someWorker)], s1)" "lastseen (fst s1) = []"
    by (simp add: loadIndex_def kvGet_def execute_def prepareRequest_def nextAddr_def doOnce_def indexPost_def restartedController_def
        someCodec_def idx_def err_defs markSeen_def Let_def)
  then obtain s2 where t: "heartbeatTick someCodec indexPost 6 1000000 s1 = Some s2" by (simp add: heartbeatTick_def Let_def)
  then have "lastseen (fst s2) = []" using heartbeatTick_sel(2) [OF t] l(2) by simp
  then obtain s3 where u: "heartbeatTick someCodec indexPost 6 2000000 s2 = Some s3" by (simp add: heartbeatTick_def Let_def)
  have run: "(ctl_step someCodec indexPost 6 (wID (EnsureID someWorker)))\<^sup>*\<^sup>* s1 s3"
    using ctl_step.tick [OF t] ctl_step.tick [OF u] by (meson rtranclp.rtrancl_into_rtrancl rtranclp.rtrancl_refl)
  have "wID (EnsureID someWorker) \<in> set (seenIds (fst s3))"
    by (rule loaded_workers_never_expire [OF _ _ l(1) _ run]) (simp_all add: restartedController_def)
  then show ?thesis using l(1) t u by blast
qed

text \<open>Keys tell workers apart. Two workers without an id of their own have the same key exactly if they have the same address; and the key is the one
  under which \<open>GetWorker\<close> looks.\<close>

lemma worker_keys_distinct:
  assumes "wID v = ''''" and "wID w = ''''"
  shows "(WorkerKey v = WorkerKey w \<longleftrightarrow> wIP v = wIP w \<and> wPort v = wPort w) \<and> WorkerKey v = ''worker/'' @ wID (EnsureID v)"
  using EnsureID_inject [OF assms] by (simp add: WorkerKey_EnsureID)

text \<open>Address lists. \<open>ParseKVAddrs\<close> recovers a comma-separated list of addresses without blanks and commas.\<close>

lemma parse_addrs_roundtrip:
  assumes "as \<noteq> []" and "\<And>a. a \<in> set as \<Longrightarrow> a \<noteq> '''' \<and> CHR '','' \<notin> set a \<and> \<not> isSpace (hd a) \<and> \<not> isSpace (last a)"
  shows "ParseKVAddrs (joinWith (CHR '','') as) = as"
proof -
  have "trimSpace a = a" if a: "a \<in> set as" for a
  proof -
    have "dropWhile isSpace a = a" using assms(2) [OF a] by (cases a) auto
    then show ?thesis using assms(2) [OF a] by (simp add: trimSpace_def trimRightBy_id)
  qed
  then have "map trimSpace as = as" by (simp add: map_idI)
  moreover have "splitOn (CHR '','') (joinWith (CHR '','') as) = as" using assms by (intro splitOn_joinWith) auto
  ultimately show ?thesis using assms(2) by (auto simp: ParseKVAddrs_def filter_id_conv)
qed

end
