(* ===== verification/Go_Pipeline.thy ===== *)
theory Go_Pipeline
  imports Go_Prelude "HOL-Library.Multiset"
begin

text \<open>
  Buffered channels between goroutines, as the gateway and the worker use them: a queue of bounded
  length that senders append to and receivers take from. The locale \<open>draining\<close> is the argument that such
  a pipeline comes to rest: if every step that is not a new request uses up work, and a state that is not at rest has a
  step, then every way of going on ends at rest.
\<close>

section \<open>Channels\<close>

text \<open>A send that would not block, and a receive.\<close>

definition trySend :: "nat \<Rightarrow> 'a \<Rightarrow> 'a list \<Rightarrow> 'a list option" where
  "trySend cap x q = (if length q < cap then Some (q @ [x]) else None)"

definition recv :: "'a list \<Rightarrow> ('a \<times> 'a list) option" where
  "recv q = (case q of [] \<Rightarrow> None | x # xs \<Rightarrow> Some (x, xs))"

lemma trySend_Some_iff: "trySend cap x q = Some q' \<longleftrightarrow> length q < cap \<and> q' = q @ [x]"
  by (auto simp: trySend_def)

lemma recv_Some_iff: "recv q = Some (x, q') \<longleftrightarrow> q = x # q'"
  by (cases q) (auto simp: recv_def)

text \<open>What a pool of goroutines holds, one slot per goroutine.\<close>

fun held :: "nat option list \<Rightarrow> nat list" where
  "held [] = []"
| "held (None # gs) = held gs"
| "held (Some h # gs) = h # held gs"

lemma held_set: "h \<in> set (held gs) \<longleftrightarrow> (\<exists>g < length gs. gs ! g = Some h)"
proof (induction gs rule: held.induct)
  case (2 gs)
  then show ?case by (auto simp: less_Suc_eq_0_disj)
next
  case (3 h' gs)
  then show ?case by (auto simp: less_Suc_eq_0_disj)
qed simp

lemma held_replicate [simp]: "held (replicate n None) = []"
  by (induction n) auto

lemma held_take: "g < length gs \<Longrightarrow> gs ! g = None \<Longrightarrow> mset (held (gs[g := Some h])) = add_mset h (mset (held gs))"
proof (induction gs arbitrary: g rule: held.induct)
  case (2 gs)
  then show ?case by (cases g) auto
next
  case (3 h' gs)
  then show ?case by (cases g) auto
qed simp

lemma held_drop: "g < length gs \<Longrightarrow> gs ! g = Some h \<Longrightarrow> mset (held gs) = add_mset h (mset (held (gs[g := None])))"
  using held_take [of g "gs[g := None]" h] list_update_id [of gs g] by simp

lemma held_length_take: "g < length gs \<Longrightarrow> gs ! g = None \<Longrightarrow> length (held (gs[g := Some h])) = Suc (length (held gs))"
  using held_take [of g gs h] by (metis size_add_mset size_mset)

lemma held_length_drop: "g < length gs \<Longrightarrow> gs ! g = Some h \<Longrightarrow> length (held gs) = Suc (length (held (gs[g := None])))"
  using held_drop [of g gs h] by (metis size_add_mset size_mset)

lemma sum_list_update: "h < length ts \<Longrightarrow> (\<Sum>t \<leftarrow> ts[h := t']. f t) + f (ts ! h) = (\<Sum>t \<leftarrow> ts. f t) + (f t' :: nat)"
proof (induction ts arbitrary: h)
  case (Cons t ts)
  then show ?case by (cases h) auto
qed simp

section \<open>Coming to rest\<close>

locale draining =
  fixes step :: "'s \<Rightarrow> 's \<Rightarrow> bool"
    and inv :: "'s \<Rightarrow> bool"
    and work :: "'s \<Rightarrow> nat"
    and rest :: "'s \<Rightarrow> bool"
  assumes inv_step: "inv s \<Longrightarrow> step s s' \<Longrightarrow> inv s'"
    and work_step: "inv s \<Longrightarrow> step s s' \<Longrightarrow> work s' < work s"
    and progress: "inv s \<Longrightarrow> \<not> rest s \<Longrightarrow> \<exists>s'. step s s'"
begin

lemma inv_steps: "(step ^^ n) s s' \<Longrightarrow> inv s \<Longrightarrow> inv s'"
  by (induction n arbitrary: s') (auto intro: inv_step)

lemma work_steps: "(step ^^ n) s s' \<Longrightarrow> inv s \<Longrightarrow> work s' + n \<le> work s"
proof (induction n arbitrary: s')
  case (Suc n)
  then obtain t where "(step ^^ n) s t" "step t s'" by auto
  with Suc.IH [of t] Suc.prems inv_steps work_step show ?case by fastforce
qed simp

lemma comes_to_rest:
  assumes "inv s"
  shows "\<exists>n s'. (step ^^ n) s s' \<and> rest s' \<and> n \<le> work s"
  using assms
proof (induction "work s" arbitrary: s rule: less_induct)
  case less
  show ?case
  proof (cases "rest s")
    case True
    then show ?thesis by (intro exI [of _ 0]) auto
  next
    case False
    then obtain t where t: "step s t" using progress less.prems by blast
    obtain n s' where n: "(step ^^ n) t s'" "rest s'" "n \<le> work t"
      using less.hyps [OF work_step [OF less.prems t] inv_step [OF less.prems t]] by blast
    have "(step ^^ Suc n) s s'" using t n(1) by (metis relpowp_Suc_I2)
    then show ?thesis using n(2,3) work_step [OF less.prems t] by (metis Suc_leI le_less_trans)
  qed
qed

text \<open>A run that cannot go on is at rest.\<close>

lemma stuck_at_rest: "(step ^^ n) s s' \<Longrightarrow> inv s \<Longrightarrow> \<not> (\<exists>t. step s' t) \<Longrightarrow> rest s'"
  using inv_steps progress by blast

end

end
