(* ===== verification/Worker.thy ===== *)
theory Worker
  imports Go_Pipeline Models "HOL-Library.Word"
begin

text \<open>
  The worker: \<open>src/worker/backend.go\<close>, \<open>pool.go\<close> and \<open>server.go\<close>. The pool is a state that
  the goroutines change one step at a time: tasks are objects on a heap (their position in
  \<open>tasks\<close> is the pointer), the queue is a buffered channel of pointers, every GPU loop holds at most one
  task. HTTP exchanges with the inference engine and the moment a context is cancelled are arguments.
\<close>

section \<open>Backends\<close>

text \<open>Durations are in nanoseconds. \<open>ctxAt\<close> is when the context is done, relative to the call, and its error.\<close>

record MockBackend =
  mbWorkerID :: string
  mbDelay :: int

definition mockHealth :: "MockBackend \<Rightarrow> string option" where
  "mockHealth b = None"

definition mockGenerate :: "MockBackend \<Rightarrow> (int \<times> string) option \<Rightarrow> string \<Rightarrow> ChatResponse \<times> string option" where
  "mockGenerate b ctxAt prompt =
    (let delay = (if mbDelay b \<le> 0 then 500000000 else mbDelay b);
         reply = (\<lparr>Reply = ''[mock] reply to: '' @ prompt, WorkerID = mbWorkerID b, GPUID = 0\<rparr>, None)
     in case ctxAt of
       None \<Rightarrow> reply
     | Some (t, err) \<Rightarrow> if t < delay then (zeroChatResponse, Some err) else reply)"

record VLLMBackend =
  BaseURL :: string
  vModel :: string
  vMaxTokens :: int
  vWorkerID :: string

definition NewVLLMBackend :: "string \<Rightarrow> string \<Rightarrow> int \<Rightarrow> string \<Rightarrow> VLLMBackend" where
  "NewVLLMBackend baseURL model maxTokens workerID =
    \<lparr>BaseURL = trimRight baseURL ''/'', vModel = model, vMaxTokens = maxTokens, vWorkerID = workerID\<rparr>"

record vllmChatRequest =
  vqModel :: string
  vqMessages :: "ChatMessage list"
  vqMaxTokens :: int

record vllmChatResponse =
  vrModel :: string
  vrChoices :: "ChatMessage list"

definition vllmHealth :: "(string \<Rightarrow> httpResult) \<Rightarrow> VLLMBackend \<Rightarrow> string option" where
  "vllmHealth get b =
    (case get (BaseURL b @ ''/v1/models'') of
       Inl err \<Rightarrow> Some err
     | Inr resp \<Rightarrow>
         if respCode resp \<noteq> 200
         then Some (''vllm health: '' @ respStatus resp @ '' '' @ trimSpace (case respBody resp of Some raw \<Rightarrow> raw | None \<Rightarrow> ''''))
         else None)"

definition vllmRequest :: "VLLMBackend \<Rightarrow> string \<Rightarrow> vllmChatRequest" where
  "vllmRequest b prompt =
    \<lparr>vqModel = vModel b, vqMessages = [\<lparr>Role = ''user'', Content = prompt\<rparr>],
     vqMaxTokens = (if vMaxTokens b \<le> 0 then 256 else vMaxTokens b)\<rparr>"

definition vllmGenerate ::
  "(string \<Rightarrow> vllmChatRequest \<Rightarrow> httpResult) \<Rightarrow> (string \<Rightarrow> vllmChatResponse option) \<Rightarrow> VLLMBackend \<Rightarrow> string \<Rightarrow>
   ChatResponse \<times> string option" where
  "vllmGenerate post unmarshal b prompt =
    (case post (BaseURL b @ ''/v1/chat/completions'') (vllmRequest b prompt) of
       Inl err \<Rightarrow> (zeroChatResponse, Some err)
     | Inr resp \<Rightarrow> (case respBody resp of
         None \<Rightarrow> (zeroChatResponse, Some ''read'')
       | Some raw \<Rightarrow>
           if respCode resp \<noteq> 200 then (zeroChatResponse, Some (''vllm: '' @ respStatus resp @ '' '' @ trimSpace raw))
           else (case unmarshal raw of
             None \<Rightarrow> (zeroChatResponse, Some ''json'')
           | Some out \<Rightarrow> (case vrChoices out of
               [] \<Rightarrow> (zeroChatResponse, Some ''vllm response has no choices'')
             | c # cs \<Rightarrow> (\<lparr>Reply = Content c, WorkerID = vWorkerID b, GPUID = 0\<rparr>, None)))))"

text \<open>
  \<open>WaitForBackend\<close>: each round has the result of the health check and, if the context is done before the next tick,
  its error. \<open>None\<close> is a call that is still waiting after these rounds.
\<close>

fun WaitForBackend :: "(string option \<times> string option) list \<Rightarrow> string option option" where
  "WaitForBackend [] = None"
| "WaitForBackend ((health, ctx) # rounds) =
    (if health = None then Some None
     else case ctx of Some err \<Rightarrow> Some (Some err) | None \<Rightarrow> WaitForBackend rounds)"

section \<open>The pool\<close>

definition defaultQueueCap :: nat where
  "defaultQueueCap = 1024"

record taskResult =
  trResponse :: ChatResponse
  trErr :: "string option"

text \<open>Where the goroutine in \<open>Submit\<close> is.\<close>

datatype submit_status = Enqueueing | Waiting | Finished taskResult

record Task =
  taskID :: string
  taskPrompt :: string
  taskDone :: "taskResult option"
  taskStatus :: submit_status

record Pool =
  queue :: "nat list"
  gpuCount :: nat
  poolWorkerID :: string
  poolSeq :: "64 word"
  tasks :: "Task list"
  gpus :: "nat option list"

definition NewPool :: "string \<Rightarrow> int \<Rightarrow> Pool" where
  "NewPool workerID n =
    (let g = nat (if n < 1 then 1 else n)
     in \<lparr>queue = [], gpuCount = g, poolWorkerID = workerID, poolSeq = 0, tasks = [], gpus = replicate g None\<rparr>)"

definition setTask :: "nat \<Rightarrow> (Task \<Rightarrow> Task) \<Rightarrow> Pool \<Rightarrow> Pool" where
  "setTask h f p = p\<lparr>tasks := (tasks p)[h := f (tasks p ! h)]\<rparr>"

text \<open>\<open>Submit\<close>, piece by piece.\<close>

definition submitBegin :: "string \<Rightarrow> Pool \<Rightarrow> Pool" where
  "submitBegin prompt p =
    (let s = poolSeq p + 1;
         task = \<lparr>taskID = poolWorkerID p @ ''-'' @ showNat (unat s), taskPrompt = prompt, taskDone = None, taskStatus = Enqueueing\<rparr>
     in p\<lparr>poolSeq := s, tasks := tasks p @ [task]\<rparr>)"

definition submitEnqueue :: "nat \<Rightarrow> Pool \<Rightarrow> Pool option" where
  "submitEnqueue h p = do {
     q \<leftarrow> trySend defaultQueueCap h (queue p);
     Some (setTask h (\<lambda>t. t\<lparr>taskStatus := Waiting\<rparr>) (p\<lparr>queue := q\<rparr>)) }"

definition submitFail :: "string \<Rightarrow> nat \<Rightarrow> Pool \<Rightarrow> Pool" where
  "submitFail err h p = setTask h (\<lambda>t. t\<lparr>taskStatus := Finished \<lparr>trResponse = zeroChatResponse, trErr = Some err\<rparr>\<rparr>) p"

definition submitReceive :: "nat \<Rightarrow> Pool \<Rightarrow> Pool option" where
  "submitReceive h p =
    (case taskDone (tasks p ! h) of
       None \<Rightarrow> None
     | Some r \<Rightarrow> Some (setTask h (\<lambda>t. t\<lparr>taskDone := None, taskStatus := Finished r\<rparr>) p))"

text \<open>\<open>gpuLoop\<close>: taking a task, and delivering what the backend returned; \<open>None\<close> is a send that blocks.\<close>

definition gpuTake :: "nat \<Rightarrow> Pool \<Rightarrow> Pool option" where
  "gpuTake g p = do { (h, q) \<leftarrow> recv (queue p); Some (p\<lparr>queue := q, gpus := (gpus p)[g := Some h]\<rparr>) }"

definition fillResponse :: "string \<Rightarrow> nat \<Rightarrow> ChatResponse \<Rightarrow> ChatResponse" where
  "fillResponse workerID g resp =
    resp\<lparr>WorkerID := (if WorkerID resp = '''' then workerID else WorkerID resp), GPUID := int g\<rparr>"

definition gpuFinish :: "nat \<Rightarrow> ChatResponse \<times> string option \<Rightarrow> Pool \<Rightarrow> Pool option" where
  "gpuFinish g r p = do {
     h \<leftarrow> gpus p ! g;
     (if taskDone (tasks p ! h) = None
      then Some (setTask h (\<lambda>t. t\<lparr>taskDone := Some \<lparr>trResponse = fillResponse (poolWorkerID p) g (fst r), trErr = snd r\<rparr>\<rparr>)
                   (p\<lparr>gpus := (gpus p)[g := None]\<rparr>))
      else None) }"

text \<open>
  The steps of a pool whose backend may answer a prompt as \<open>gen\<close> says. \<open>serve_step\<close> are those the pool
  makes by itself; \<open>pool_step\<close> adds new calls and cancelled contexts.
\<close>

inductive serve_step :: "(string \<Rightarrow> ChatResponse \<times> string option \<Rightarrow> bool) \<Rightarrow> Pool \<Rightarrow> Pool \<Rightarrow> bool" for gen where
  enqueue: "h < length (tasks p) \<Longrightarrow> taskStatus (tasks p ! h) = Enqueueing \<Longrightarrow> submitEnqueue h p = Some p' \<Longrightarrow> serve_step gen p p'"
| timeout: "h < length (tasks p) \<Longrightarrow> taskStatus (tasks p ! h) = Enqueueing \<Longrightarrow>
     serve_step gen p (submitFail ''queue full, enqueue timeout'' h p)"
| take_task: "g < length (gpus p) \<Longrightarrow> gpus p ! g = None \<Longrightarrow> gpuTake g p = Some p' \<Longrightarrow> serve_step gen p p'"
| finish: "g < length (gpus p) \<Longrightarrow> gpus p ! g = Some h \<Longrightarrow> gen (taskPrompt (tasks p ! h)) r \<Longrightarrow> gpuFinish g r p = Some p' \<Longrightarrow> serve_step gen p p'"
| receive: "h < length (tasks p) \<Longrightarrow> taskStatus (tasks p ! h) = Waiting \<Longrightarrow> submitReceive h p = Some p' \<Longrightarrow> serve_step gen p p'"

inductive pool_step :: "(string \<Rightarrow> ChatResponse \<times> string option \<Rightarrow> bool) \<Rightarrow> Pool \<Rightarrow> Pool \<Rightarrow> bool" for gen where
  own: "serve_step gen p p' \<Longrightarrow> pool_step gen p p'"
| submit: "pool_step gen p (submitBegin prompt p)"
| cancel: "h < length (tasks p) \<Longrightarrow> taskStatus (tasks p ! h) = Enqueueing \<or> taskStatus (tasks p ! h) = Waiting \<Longrightarrow>
     pool_step gen p (submitFail ctxErr h p)"

section \<open>HTTP\<close>

definition promptFromRequest :: "ChatRequest \<Rightarrow> string" where
  "promptFromRequest req =
    (if Prompt req \<noteq> '''' then Prompt req
     else case find (\<lambda>m. Role m = ''user'' \<and> Content m \<noteq> '''') (rev (Messages req)) of
       Some m \<Rightarrow> Content m
     | None \<Rightarrow> '''')"

datatype chat_out = ChatError string int | ChatNotFound | ChatOK ChatResponse

text \<open>\<open>handleChat\<close> up to \<open>Submit\<close> (the prompt to submit), and after it.\<close>

definition workerChat :: "('b \<Rightarrow> ChatRequest option) \<Rightarrow> 'b option \<Rightarrow> chat_out + string" where
  "workerChat parse body =
    (case body of
       None \<Rightarrow> Inl (ChatError ''read'' 400)
     | Some b \<Rightarrow> (case parse b of
         None \<Rightarrow> Inl (ChatError ''invalid json'' 400)
       | Some req \<Rightarrow>
           let prompt = promptFromRequest req in
           if prompt = '''' then Inl (ChatError ''prompt required'' 400) else Inr prompt))"

definition workerReply :: "taskResult \<Rightarrow> chat_out" where
  "workerReply r = (case trErr r of Some err \<Rightarrow> ChatError err 503 | None \<Rightarrow> ChatOK (trResponse r))"

definition workerServe :: "('b \<Rightarrow> ChatRequest option) \<Rightarrow> string \<Rightarrow> string \<Rightarrow> 'b option \<Rightarrow> chat_out + string" where
  "workerServe parse meth path body =
    (if meth = ''POST'' \<and> path = ''/v1/chat/completions'' then workerChat parse body else Inl ChatNotFound)"

end
