(* ===== verification/Gateway.thy ===== *)
theory Gateway
  imports Worker
begin

text \<open>
  The gateway: \<open>src/gateway/gateway.go\<close>. Two queues with a pool of goroutines behind each: the first layer asks the
  controller for a worker, the second one forwards the prompt to it. As in \<open>Worker\<close>, jobs are objects
  on a heap and a step is what one goroutine does between two channel operations. The HTTP client is a function from
  URLs and bodies to answers, one of a set of possible ones at each call; \<open>U\<close> and \<open>V\<close> decode the bodies.
\<close>

section \<open>State\<close>

datatype job_status = JobEnqueueing | JobWaiting | JobDone chat_out

record clientJob =
  jobPrompt :: string
  jobResult :: "(string + ChatResponse) option"
  jobStatus :: job_status

record dispatchJob =
  djPrompt :: string
  djWorker :: WorkerInfo
  djJob :: nat

datatype conn_state = ConnIdle | ConnPicking nat | ConnSending nat WorkerInfo

record Gateway =
  controllerURL :: string
  connJobs :: "nat list"
  dispatchJobs :: "dispatchJob list"
  jobs :: "clientJob list"
  connWorkers :: "conn_state list"
  dispatchWorkers :: "dispatchJob option list"

definition connCap :: nat where "connCap = 256"
definition dispatchCap :: nat where "dispatchCap = 1024"

definition NewGateway :: "string \<Rightarrow> int \<Rightarrow> int \<Rightarrow> Gateway" where
  "NewGateway url connPoolSize dispatchPoolSize =
    \<lparr>controllerURL = url, connJobs = [], dispatchJobs = [], jobs = [],
     connWorkers = replicate (nat (if connPoolSize < 1 then 32 else connPoolSize)) ConnIdle,
     dispatchWorkers = replicate (nat (if dispatchPoolSize < 1 then 32 else dispatchPoolSize)) None\<rparr>"

section \<open>Requests to the other services\<close>

definition pickWorker :: "(string \<Rightarrow> httpResult) \<Rightarrow> (string \<Rightarrow> WorkerInfo option) \<Rightarrow> string \<Rightarrow> string + WorkerInfo" where
  "pickWorker get U url =
    (case get (url @ ''/workers/best'') of
       Inl err \<Rightarrow> Inl err
     | Inr resp \<Rightarrow>
         if respCode resp \<noteq> 200 then Inl (''controller: '' @ respStatus resp)
         else (case respBody resp of
           None \<Rightarrow> Inl ''read''
         | Some raw \<Rightarrow> (case U raw of None \<Rightarrow> Inl ''json'' | Some winfo \<Rightarrow> Inr winfo)))"

definition workerURL :: "WorkerInfo \<Rightarrow> string" where
  "workerURL w = ''http://'' @ wIP w @ '':'' @ showInt (wPort w) @ ''/v1/chat/completions''"

definition forwardToWorker ::
  "(string \<Rightarrow> ChatRequest \<Rightarrow> httpResult) \<Rightarrow> (string \<Rightarrow> ChatResponse option) \<Rightarrow> WorkerInfo \<Rightarrow> string \<Rightarrow> string + ChatResponse" where
  "forwardToWorker post V w prompt =
    (case post (workerURL w) (promptRequest prompt) of
       Inl err \<Rightarrow> Inl err
     | Inr resp \<Rightarrow>
         if respCode resp \<noteq> 200
         then Inl (''worker '' @ wID w @ '': '' @ respStatus resp @ '' ('' @ (case respBody resp of Some raw \<Rightarrow> raw | None \<Rightarrow> '''') @ '')'')
         else (case respBody resp of
           None \<Rightarrow> Inl ''read''
         | Some raw \<Rightarrow> (case V raw of None \<Rightarrow> Inl ''json'' | Some out \<Rightarrow> Inr out)))"

definition gwPrompt :: "ChatRequest \<Rightarrow> string" where
  "gwPrompt req =
    (if Prompt req \<noteq> '''' then Prompt req
     else case find (\<lambda>m. Role m = ''user'' \<and> Content m \<noteq> '''') (rev (Messages req)) of
       Some m \<Rightarrow> Content m
     | None \<Rightarrow> '''')"

section \<open>HandleChat\<close>

text \<open>Before the job is made: an answer, or the prompt of the job.\<close>

definition chatRequest :: "('b \<Rightarrow> ChatRequest option) \<Rightarrow> string \<Rightarrow> 'b option \<Rightarrow> chat_out + string" where
  "chatRequest parse meth body =
    (if meth \<noteq> ''POST'' then Inl (ChatError ''method not allowed'' 405)
     else case body of
       None \<Rightarrow> Inl (ChatError ''read'' 400)
     | Some b \<Rightarrow> (case parse b of
         None \<Rightarrow> Inl (ChatError ''invalid json'' 400)
       | Some req \<Rightarrow>
           let prompt = gwPrompt req in
           if prompt = '''' then Inl (ChatError ''prompt required'' 400) else Inr prompt))"

definition gwServe :: "('b \<Rightarrow> ChatRequest option) \<Rightarrow> string \<Rightarrow> string \<Rightarrow> 'b option \<Rightarrow> chat_out + string" where
  "gwServe parse meth path body =
    (if path = ''/v1/chat/completions'' then chatRequest parse meth body else Inl ChatNotFound)"

definition setJob :: "nat \<Rightarrow> (clientJob \<Rightarrow> clientJob) \<Rightarrow> Gateway \<Rightarrow> Gateway" where
  "setJob h f g = g\<lparr>jobs := (jobs g)[h := f (jobs g ! h)]\<rparr>"

definition newJob :: "string \<Rightarrow> Gateway \<Rightarrow> Gateway" where
  "newJob prompt g = g\<lparr>jobs := jobs g @ [\<lparr>jobPrompt = prompt, jobResult = None, jobStatus = JobEnqueueing\<rparr>]\<rparr>"

definition enqueueConn :: "nat \<Rightarrow> Gateway \<Rightarrow> Gateway option" where
  "enqueueConn h g = do {
     q \<leftarrow> trySend connCap h (connJobs g);
     Some (setJob h (\<lambda>j. j\<lparr>jobStatus := JobWaiting\<rparr>) (g\<lparr>connJobs := q\<rparr>)) }"

definition jobOverload :: "nat \<Rightarrow> Gateway \<Rightarrow> Gateway" where
  "jobOverload h g = setJob h (\<lambda>j. j\<lparr>jobStatus := JobDone (ChatError ''gateway overloaded'' 503)\<rparr>) g"

definition respond :: "string + ChatResponse \<Rightarrow> chat_out" where
  "respond res = (case res of Inl err \<Rightarrow> ChatError err 502 | Inr resp \<Rightarrow> ChatOK resp)"

definition receiveResult :: "nat \<Rightarrow> Gateway \<Rightarrow> Gateway option" where
  "receiveResult h g =
    (case jobResult (jobs g ! h) of
       None \<Rightarrow> None
     | Some res \<Rightarrow> Some (setJob h (\<lambda>j. j\<lparr>jobResult := None, jobStatus := JobDone (respond res)\<rparr>) g))"

section \<open>The goroutines\<close>

text \<open>\<open>job.resultCh <- res\<close>: the channel has room for one result; \<open>None\<close> is a send that blocks.\<close>

definition sendResult :: "nat \<Rightarrow> string + ChatResponse \<Rightarrow> Gateway \<Rightarrow> Gateway option" where
  "sendResult h res g =
    (if jobResult (jobs g ! h) = None then Some (setJob h (\<lambda>j. j\<lparr>jobResult := Some res\<rparr>) g) else None)"

definition connTake :: "nat \<Rightarrow> Gateway \<Rightarrow> Gateway option" where
  "connTake i g = do { (h, q) \<leftarrow> recv (connJobs g); Some (g\<lparr>connJobs := q, connWorkers := (connWorkers g)[i := ConnPicking h]\<rparr>) }"

definition connPicked :: "nat \<Rightarrow> nat \<Rightarrow> string + WorkerInfo \<Rightarrow> Gateway \<Rightarrow> Gateway option" where
  "connPicked i h r g =
    (case r of
       Inl err \<Rightarrow> sendResult h (Inl err) (g\<lparr>connWorkers := (connWorkers g)[i := ConnIdle]\<rparr>)
     | Inr winfo \<Rightarrow> Some (g\<lparr>connWorkers := (connWorkers g)[i := ConnSending h winfo]\<rparr>))"

definition connSend :: "nat \<Rightarrow> nat \<Rightarrow> WorkerInfo \<Rightarrow> Gateway \<Rightarrow> Gateway option" where
  "connSend i h winfo g = do {
     q \<leftarrow> trySend dispatchCap \<lparr>djPrompt = jobPrompt (jobs g ! h), djWorker = winfo, djJob = h\<rparr> (dispatchJobs g);
     Some (g\<lparr>dispatchJobs := q, connWorkers := (connWorkers g)[i := ConnIdle]\<rparr>) }"

definition connTimeout :: "nat \<Rightarrow> nat \<Rightarrow> Gateway \<Rightarrow> Gateway option" where
  "connTimeout i h g = sendResult h (Inl ''dispatch queue full'') (g\<lparr>connWorkers := (connWorkers g)[i := ConnIdle]\<rparr>)"

definition dispatchTake :: "nat \<Rightarrow> Gateway \<Rightarrow> Gateway option" where
  "dispatchTake k g = do {
     (d, q) \<leftarrow> recv (dispatchJobs g);
     Some (g\<lparr>dispatchJobs := q, dispatchWorkers := (dispatchWorkers g)[k := Some d]\<rparr>) }"

definition dispatchFinish :: "nat \<Rightarrow> dispatchJob \<Rightarrow> string + ChatResponse \<Rightarrow> Gateway \<Rightarrow> Gateway option" where
  "dispatchFinish k d res g = sendResult (djJob d) res (g\<lparr>dispatchWorkers := (dispatchWorkers g)[k := None]\<rparr>)"

text \<open>The steps, for the sets of answers the HTTP client may give.\<close>

inductive route_step ::
  "(string \<Rightarrow> httpResult) set \<Rightarrow> (string \<Rightarrow> WorkerInfo option) \<Rightarrow> (string \<Rightarrow> ChatRequest \<Rightarrow> httpResult) set \<Rightarrow>
   (string \<Rightarrow> ChatResponse option) \<Rightarrow> Gateway \<Rightarrow> Gateway \<Rightarrow> bool" for gets U posts V where
  enqueue: "h < length (jobs g) \<Longrightarrow> jobStatus (jobs g ! h) = JobEnqueueing \<Longrightarrow> enqueueConn h g = Some g' \<Longrightarrow> route_step gets U posts V g g'"
| overload: "h < length (jobs g) \<Longrightarrow> jobStatus (jobs g ! h) = JobEnqueueing \<Longrightarrow> route_step gets U posts V g (jobOverload h g)"
| conn_take: "i < length (connWorkers g) \<Longrightarrow> connWorkers g ! i = ConnIdle \<Longrightarrow> connTake i g = Some g' \<Longrightarrow> route_step gets U posts V g g'"
| conn_pick: "i < length (connWorkers g) \<Longrightarrow> connWorkers g ! i = ConnPicking h \<Longrightarrow> get \<in> gets \<Longrightarrow>
     connPicked i h (pickWorker get U (controllerURL g)) g = Some g' \<Longrightarrow> route_step gets U posts V g g'"
| conn_send: "i < length (connWorkers g) \<Longrightarrow> connWorkers g ! i = ConnSending h w \<Longrightarrow> connSend i h w g = Some g' \<Longrightarrow> route_step gets U posts V g g'"
| conn_timeout: "i < length (connWorkers g) \<Longrightarrow> connWorkers g ! i = ConnSending h w \<Longrightarrow> connTimeout i h g = Some g' \<Longrightarrow> route_step gets U posts V g g'"
| dispatch_take: "k < length (dispatchWorkers g) \<Longrightarrow> dispatchWorkers g ! k = None \<Longrightarrow> dispatchTake k g = Some g' \<Longrightarrow> route_step gets U posts V g g'"
| dispatch_finish: "k < length (dispatchWorkers g) \<Longrightarrow> dispatchWorkers g ! k = Some d \<Longrightarrow> post \<in> posts \<Longrightarrow>
     dispatchFinish k d (forwardToWorker post V (djWorker d) (djPrompt d)) g = Some g' \<Longrightarrow> route_step gets U posts V g g'"
| receive: "h < length (jobs g) \<Longrightarrow> jobStatus (jobs g ! h) = JobWaiting \<Longrightarrow> receiveResult h g = Some g' \<Longrightarrow> route_step gets U posts V g g'"

inductive gateway_step ::
  "(string \<Rightarrow> httpResult) set \<Rightarrow> (string \<Rightarrow> WorkerInfo option) \<Rightarrow> (string \<Rightarrow> ChatRequest \<Rightarrow> httpResult) set \<Rightarrow>
   (string \<Rightarrow> ChatResponse option) \<Rightarrow> Gateway \<Rightarrow> Gateway \<Rightarrow> bool" for gets U posts V where
  own: "route_step gets U posts V g g' \<Longrightarrow> gateway_step gets U posts V g g'"
| request: "gwServe (parse :: string \<Rightarrow> ChatRequest option) meth path body = Inr prompt \<Longrightarrow> gateway_step gets U posts V g (newJob prompt g)"

end
