(* ===== verification/Worker_Facts.thy ===== *)
theory Worker_Facts
  imports Worker
begin

text \<open>
  The invariant of the worker's pool: a task is in at most one place (the queue or one GPU), its result
  channel is empty while it is there, and a result was generated for the task's own prompt. The pool is an instance of
  \<open>draining\<close>: without new calls it comes to rest with every call answered.
\<close>

section \<open>Places\<close>

definition inFlight :: "Pool \<Rightarrow> nat list" where
  "inFlight p = queue p @ held (gpus p)"

section \<open>The invariant\<close>

definition ownResult :: "(string \<Rightarrow> ChatResponse \<times> string option \<Rightarrow> bool) \<Rightarrow> string \<Rightarrow> nat \<Rightarrow> string \<Rightarrow> taskResult \<Rightarrow> bool" where
  "ownResult gen wid n prompt r \<longleftrightarrow> (\<exists>g resp err. g < n \<and> gen prompt (resp, err) \<and> r = \<lparr>trResponse = fillResponse wid g resp, trErr = err\<rparr>)"

text \<open>A task by itself, given whether it is in flight.\<close>

definition taskOk :: "(string \<Rightarrow> ChatResponse \<times> string option \<Rightarrow> bool) \<Rightarrow> string \<Rightarrow> nat \<Rightarrow> bool \<Rightarrow> Task \<Rightarrow> bool" where
  "taskOk gen wid n flying t \<longleftrightarrow>
     (case taskDone t of None \<Rightarrow> True | Some r \<Rightarrow> \<not> flying \<and> ownResult gen wid n (taskPrompt t) r) \<and>
     (case taskStatus t of
        Enqueueing \<Rightarrow> \<not> flying \<and> taskDone t = None
      | Waiting \<Rightarrow> flying \<or> taskDone t \<noteq> None
      | Finished r \<Rightarrow> (\<exists>err. r = \<lparr>trResponse = zeroChatResponse, trErr = Some err\<rparr>) \<or> ownResult gen wid n (taskPrompt t) r)"

definition poolInv :: "(string \<Rightarrow> ChatResponse \<times> string option \<Rightarrow> bool) \<Rightarrow> Pool \<Rightarrow> bool" where
  "poolInv gen p \<longleftrightarrow> 0 < gpuCount p \<and> length (gpus p) = gpuCount p \<and> length (queue p) \<le> defaultQueueCap \<and>
     distinct (inFlight p) \<and> set (inFlight p) \<subseteq> {..<length (tasks p)} \<and>
     poolSeq p = of_nat (length (tasks p)) \<and>
     (\<forall>h < length (tasks p). taskID (tasks p ! h) = poolWorkerID p @ ''-'' @ showNat (unat (of_nat (Suc h) :: 64 word)) \<and>
        taskOk gen (poolWorkerID p) (gpuCount p) (h \<in> set (inFlight p)) (tasks p ! h))"

lemma poolInv_D:
  assumes "poolInv gen p"
  shows "0 < gpuCount p" "length (gpus p) = gpuCount p" "length (queue p) \<le> defaultQueueCap" "distinct (inFlight p)"
    "h \<in> set (inFlight p) \<Longrightarrow> h < length (tasks p)" "poolSeq p = of_nat (length (tasks p))"
    "h < length (tasks p) \<Longrightarrow> taskID (tasks p ! h) = poolWorkerID p @ ''-'' @ showNat (unat (of_nat (Suc h) :: 64 word))"
    "h < length (tasks p) \<Longrightarrow> taskOk gen (poolWorkerID p) (gpuCount p) (h \<in> set (inFlight p)) (tasks p ! h)"
  using assms by (auto simp: poolInv_def)

lemma setTask_sel [simp]:
  "queue (setTask h f p) = queue p" "gpuCount (setTask h f p) = gpuCount p" "poolWorkerID (setTask h f p) = poolWorkerID p"
  "poolSeq (setTask h f p) = poolSeq p" "gpus (setTask h f p) = gpus p" "length (tasks (setTask h f p)) = length (tasks p)"
  "inFlight (setTask h f p) = inFlight p"
  by (simp_all add: setTask_def inFlight_def)

lemma setTask_nth: "k < length (tasks p) \<Longrightarrow> tasks (setTask h f p) ! k = (if k = h then f (tasks p ! k) else tasks p ! k)"
  by (auto simp: setTask_def nth_list_update)

text \<open>One rule for all steps that change one task: what has to be shown is about that task and the places.\<close>

lemma poolInv_update:
  assumes inv: "poolInv gen p"
    and sel: "gpuCount p' = gpuCount p" "length (gpus p') = length (gpus p)" "length (queue p') \<le> defaultQueueCap"
      "poolWorkerID p' = poolWorkerID p" "poolSeq p' = poolSeq p" "length (tasks p') = length (tasks p)"
    and dist: "distinct (inFlight p')" and places: "set (inFlight p') - {h} = set (inFlight p) - {h}"
    and others: "\<And>k. k < length (tasks p) \<Longrightarrow> k \<noteq> h \<Longrightarrow> tasks p' ! k = tasks p ! k"
    and task: "h < length (tasks p)" "taskID (tasks p' ! h) = taskID (tasks p ! h)"
      "taskOk gen (poolWorkerID p) (gpuCount p) (h \<in> set (inFlight p')) (tasks p' ! h)"
  shows "poolInv gen p'"
proof -
  have in_iff: "k \<in> set (inFlight p') \<longleftrightarrow> k \<in> set (inFlight p)" if "k \<noteq> h" for k
    using places that by blast
  have "taskID (tasks p' ! k) = poolWorkerID p @ ''-'' @ showNat (unat (of_nat (Suc k) :: 64 word)) \<and>
      taskOk gen (poolWorkerID p) (gpuCount p) (k \<in> set (inFlight p')) (tasks p' ! k)" if "k < length (tasks p)" for k
    using that poolInv_D(7,8) [OF inv, of k] task others [of k] in_iff [of k] by (cases "k = h") auto
  moreover have "set (inFlight p') \<subseteq> {..<length (tasks p)}"
    using places poolInv_D(5) [OF inv] task(1) by blast
  ultimately show ?thesis
    unfolding poolInv_def using poolInv_D(1,2,6) [OF inv] sel dist by simp
qed

lemma poolInv_submit: "poolInv gen p \<Longrightarrow> poolInv gen (submitBegin prompt p)"
proof -
  assume inv: "poolInv gen p"
  have "length (tasks p) \<notin> set (inFlight p)" using poolInv_D(5) [OF inv] by blast
  moreover have "of_nat (Suc (length (tasks p))) = poolSeq p + 1" using poolInv_D(6) [OF inv] by simp
  moreover have "inFlight (submitBegin prompt p) = inFlight p" by (simp add: submitBegin_def inFlight_def Let_def)
  moreover have "set (inFlight p) \<subseteq> {..<Suc (length (tasks p))}" using poolInv_D(5) [OF inv] by fastforce
  ultimately show ?thesis
    using poolInv_D [OF inv] unfolding poolInv_def
    by (auto simp: submitBegin_def Let_def nth_append less_Suc_eq taskOk_def ac_simps)
qed

lemma poolInv_fail:
  assumes inv: "poolInv gen p" and h: "h < length (tasks p)"
  shows "poolInv gen (submitFail err h p)"
  using poolInv_D(2-4) [OF inv] h poolInv_D(8) [OF inv h]
  by (intro poolInv_update [OF inv, where h = h])
    (auto simp: submitFail_def setTask_nth taskOk_def split: option.splits submit_status.splits)

lemma poolInv_enqueue:
  assumes inv: "poolInv gen p" and h: "h < length (tasks p)" "taskStatus (tasks p ! h) = Enqueueing" and e: "submitEnqueue h p = Some p'"
  shows "poolInv gen p'"
proof -
  note ok = poolInv_D(8) [OF inv h(1), unfolded taskOk_def h(2), simplified]
  have p': "p' = setTask h (\<lambda>t. t\<lparr>taskStatus := Waiting\<rparr>) (p\<lparr>queue := queue p @ [h]\<rparr>)" "length (queue p) < defaultQueueCap"
    using e by (auto simp: submitEnqueue_def bind_Some_iff trySend_Some_iff)
  have f: "inFlight p' = queue p @ h # held (gpus p)" by (simp add: p'(1)) (simp add: inFlight_def)
  have d: "distinct (inFlight p')" "set (inFlight p') = insert h (set (inFlight p))"
    using poolInv_D(4) [OF inv] ok unfolding f by (auto simp: inFlight_def)
  show ?thesis
    by (rule poolInv_update [OF inv, where h = h])
      (use p' d h ok in \<open>simp_all add: setTask_nth taskOk_def insert_Diff_if\<close>)
qed

lemma poolInv_take:
  assumes inv: "poolInv gen p" and g: "g < length (gpus p)" "gpus p ! g = None" and t: "gpuTake g p = Some p'"
  shows "poolInv gen p'"
proof -
  obtain h q where q: "queue p = h # q" "p' = p\<lparr>queue := q, gpus := (gpus p)[g := Some h]\<rparr>"
    using t by (auto simp: gpuTake_def bind_Some_iff recv_Some_iff)
  have m: "mset (inFlight p') = mset (inFlight p)" using held_take [OF g, of h] q by (simp add: inFlight_def)
  have h: "h < length (tasks p)" using poolInv_D(5) [OF inv, of h] q(1) by (simp add: inFlight_def)
  show ?thesis
    using poolInv_D(3) [OF inv] poolInv_D(8) [OF inv h] mset_eq_setD [OF m] mset_eq_imp_distinct_iff [OF m] poolInv_D(4) [OF inv] h q
    by (intro poolInv_update [OF inv, where h = h]) simp_all
qed

lemma poolInv_finish:
  assumes inv: "poolInv gen p" and g: "g < length (gpus p)" "gpus p ! g = Some h" and gen: "gen (taskPrompt (tasks p ! h)) r"
    and f: "gpuFinish g r p = Some p'"
  shows "poolInv gen p'"
proof -
  have fl: "h \<in> set (inFlight p)" using g by (auto simp: inFlight_def held_set)
  have h: "h < length (tasks p)" using poolInv_D(5) [OF inv fl] .
  let ?r = "\<lparr>trResponse = fillResponse (poolWorkerID p) g (fst r), trErr = snd r\<rparr>"
  have p': "p' = setTask h (\<lambda>t. t\<lparr>taskDone := Some ?r\<rparr>) (p\<lparr>gpus := (gpus p)[g := None]\<rparr>)"
    using g(2) f by (auto simp: gpuFinish_def split: if_splits)
  have m: "mset (inFlight p) = mset (h # inFlight p')" using held_drop [OF g] by (simp add: p') (simp add: inFlight_def)
  have d: "distinct (inFlight p')" "h \<notin> set (inFlight p')" "set (inFlight p) = insert h (set (inFlight p'))"
    using mset_eq_imp_distinct_iff [OF m] poolInv_D(4) [OF inv] mset_eq_setD [OF m] by auto
  have "ownResult gen (poolWorkerID p) (gpuCount p) (taskPrompt (tasks p ! h)) ?r"
    using gen g(1) poolInv_D(2) [OF inv] unfolding ownResult_def by (metis prod.collapse)
  then have t: "taskOk gen (poolWorkerID p) (gpuCount p) False ((tasks p ! h)\<lparr>taskDone := Some ?r\<rparr>)"
    using poolInv_D(8) [OF inv h] fl by (auto simp: taskOk_def split: submit_status.splits)
  have nth: "tasks p' ! k = (if k = h then (tasks p ! h)\<lparr>taskDone := Some ?r\<rparr> else tasks p ! k)" if "k < length (tasks p)" for k
    using that by (simp add: p' setTask_def nth_list_update)
  show ?thesis
    by (rule poolInv_update [OF inv, where h = h]) (use poolInv_D(3) [OF inv] d h t nth in \<open>simp_all add: p'\<close>)
qed

lemma poolInv_receive:
  assumes inv: "poolInv gen p" and h: "h < length (tasks p)" "taskStatus (tasks p ! h) = Waiting" and r: "submitReceive h p = Some p'"
  shows "poolInv gen p'"
proof -
  obtain x where x: "taskDone (tasks p ! h) = Some x" "p' = setTask h (\<lambda>t. t\<lparr>taskDone := None, taskStatus := Finished x\<rparr>) p"
    using r by (auto simp: submitReceive_def split: option.splits)
  show ?thesis
    using poolInv_D(3,4) [OF inv] h(1) x poolInv_D(8) [OF inv h(1)]
    by (intro poolInv_update [OF inv, where h = h]) (auto simp: setTask_nth taskOk_def)
qed

lemma poolInv_serve: "serve_step gen p p' \<Longrightarrow> poolInv gen p \<Longrightarrow> poolInv gen p'"
  by (induction rule: serve_step.induct)
    (blast intro: poolInv_enqueue poolInv_fail poolInv_take poolInv_finish poolInv_receive)+

lemma poolInv_step: "pool_step gen p p' \<Longrightarrow> poolInv gen p \<Longrightarrow> poolInv gen p'"
  by (induction rule: pool_step.induct) (auto intro: poolInv_serve poolInv_submit poolInv_fail)

lemma poolInv_new: "poolInv gen (NewPool wid n)"
  by (simp add: NewPool_def poolInv_def inFlight_def Let_def)

lemma poolInv_reach: "(pool_step gen)\<^sup>*\<^sup>* (NewPool wid n) p \<Longrightarrow> poolInv gen p"
  by (induction rule: rtranclp_induct) (auto intro: poolInv_new poolInv_step)

section \<open>Coming to rest\<close>

definition statusWork :: "Task \<Rightarrow> nat" where
  "statusWork t = (case taskStatus t of Enqueueing \<Rightarrow> 4 | Waiting \<Rightarrow> 1 | Finished r \<Rightarrow> 0)"

definition poolWork :: "Pool \<Rightarrow> nat" where
  "poolWork p = (\<Sum>t \<leftarrow> tasks p. statusWork t) + 2 * length (queue p) + length (held (gpus p))"

definition allAnswered :: "Pool \<Rightarrow> bool" where
  "allAnswered p \<longleftrightarrow> (\<forall>t \<in> set (tasks p). \<exists>r. taskStatus t = Finished r)"

lemma poolWork_setTask:
  "h < length (tasks p) \<Longrightarrow> poolWork (setTask h f p) + statusWork (tasks p ! h) = poolWork p + statusWork (f (tasks p ! h))"
  using sum_list_update [of h "tasks p" statusWork "f (tasks p ! h)"] by (simp add: poolWork_def setTask_def)

lemma poolWork_serve: "serve_step gen p p' \<Longrightarrow> poolInv gen p \<Longrightarrow> poolWork p' < poolWork p"
proof (induction rule: serve_step.induct)
  case (enqueue h p p')
  then have "p' = setTask h (\<lambda>t. t\<lparr>taskStatus := Waiting\<rparr>) (p\<lparr>queue := queue p @ [h]\<rparr>)"
    by (auto simp: submitEnqueue_def bind_Some_iff trySend_Some_iff)
  then show ?case
    using poolWork_setTask [of h "p\<lparr>queue := queue p @ [h]\<rparr>" "\<lambda>t. t\<lparr>taskStatus := Waiting\<rparr>"] enqueue(1,2)
    by (simp add: statusWork_def poolWork_def)
next
  case (timeout h p)
  then show ?case
    using poolWork_setTask [of h p "\<lambda>t. t\<lparr>taskStatus := Finished \<lparr>trResponse = zeroChatResponse, trErr = Some ''queue full, enqueue timeout''\<rparr>\<rparr>"]
    by (simp add: submitFail_def statusWork_def)
next
  case (take_task g p p')
  then show ?case
    using held_length_take [of g "gpus p"] by (auto simp: gpuTake_def bind_Some_iff recv_Some_iff poolWork_def)
next
  case (finish g p h r p')
  have "h < length (tasks p)" using finish poolInv_D(5) [of gen p h] by (auto simp: inFlight_def held_set)
  moreover obtain t' where "p' = setTask h (\<lambda>t. t\<lparr>taskDone := t'\<rparr>) (p\<lparr>gpus := (gpus p)[g := None]\<rparr>)"
    using finish(2,4) by (auto simp: gpuFinish_def split: if_splits)
  ultimately show ?case
    using poolWork_setTask [of h "p\<lparr>gpus := (gpus p)[g := None]\<rparr>" "\<lambda>t. t\<lparr>taskDone := t'\<rparr>"] held_length_drop [OF finish(1,2)]
    by (simp add: statusWork_def poolWork_def)
next
  case (receive h p p')
  then obtain x where "p' = setTask h (\<lambda>t. t\<lparr>taskDone := None, taskStatus := Finished x\<rparr>) p"
    by (auto simp: submitReceive_def split: option.splits)
  then show ?case
    using poolWork_setTask [of h p "\<lambda>t. t\<lparr>taskDone := None, taskStatus := Finished x\<rparr>"] receive(1,2) by (simp add: statusWork_def)
qed

text \<open>The GPU loop never blocks on the result channel, so a pool with an unanswered call has a step.\<close>

lemma gpuFinish_sends:
  assumes "poolInv gen p" and "g < length (gpus p)" and "gpus p ! g = Some h"
  shows "gpuFinish g r p \<noteq> None"
proof -
  have "h \<in> set (inFlight p)" using assms(2,3) by (auto simp: inFlight_def held_set)
  then have "taskDone (tasks p ! h) = None"
    using poolInv_D(8) [OF assms(1) poolInv_D(5) [OF assms(1)], of h] by (auto simp: taskOk_def split: option.splits)
  then show ?thesis using assms(3) by (simp add: gpuFinish_def)
qed

lemma pool_progress:
  assumes inv: "poolInv gen p" and gen: "\<And>prompt. \<exists>r. gen prompt r" and "\<not> allAnswered p"
  shows "\<exists>p'. serve_step gen p p'"
proof -
  obtain h where h: "h < length (tasks p)" "\<And>r. taskStatus (tasks p ! h) \<noteq> Finished r"
    using assms(3) by (auto simp: allAnswered_def in_set_conv_nth)
  consider "taskStatus (tasks p ! h) = Enqueueing" | "taskStatus (tasks p ! h) = Waiting" "taskDone (tasks p ! h) \<noteq> None"
    | "h \<in> set (inFlight p)"
    using h poolInv_D(8) [OF inv h(1)] by (cases "taskStatus (tasks p ! h)") (auto simp: taskOk_def)
  then show ?thesis
  proof cases
    case 1
    then show ?thesis using serve_step.timeout h(1) by blast
  next
    case 2
    then obtain p' where "submitReceive h p = Some p'" by (auto simp: submitReceive_def)
    then show ?thesis using serve_step.receive 2 h(1) by blast
  next
    case 3
    show ?thesis
    proof (cases "held (gpus p) = []")
      case True
      then have free: "gpus p ! 0 = None" "0 < length (gpus p)"
        using held_set [of "the (gpus p ! 0)" "gpus p"] poolInv_D(1,2) [OF inv] by (cases "gpus p ! 0"; auto)+
      obtain q qs where "queue p = q # qs" using 3 True by (cases "queue p") (auto simp: inFlight_def)
      then have "gpuTake 0 p = Some (p\<lparr>queue := qs, gpus := (gpus p)[0 := Some q]\<rparr>)" by (simp add: gpuTake_def recv_def)
      then show ?thesis using serve_step.take_task free by blast
    next
      case False
      then obtain g k where g: "g < length (gpus p)" "gpus p ! g = Some k"
        using held_set [of "hd (held (gpus p))" "gpus p"] by auto
      obtain r where "gen (taskPrompt (tasks p ! k)) r" using gen by blast
      then show ?thesis using serve_step.finish [OF g] gpuFinish_sends [OF inv g, of r] by blast
    qed
  qed
qed

interpretation poolDrain: draining "serve_step gen" "\<lambda>p. poolInv gen p \<and> (\<forall>prompt. \<exists>r. gen prompt r)" poolWork allAnswered
  for gen
  by unfold_locales (blast intro: poolInv_serve poolWork_serve pool_progress)+

end
