(* ===== verification/Gateway_Facts.thy ===== *)
theory Gateway_Facts
  imports Gateway Worker_Facts
begin

text \<open>
  The invariant of the gateway: a job is in exactly one place until its result is sent, so the send on its result
  channel never blocks; a dispatched job carries the prompt of its client; a reply was given to that prompt. The gateway is an instance of
  \<open>draining\<close>: without new requests it comes to rest with every client answered.
\<close>

section \<open>The invariant\<close>

definition connHeld :: "conn_state \<Rightarrow> nat option" where
  "connHeld s = (case s of ConnIdle \<Rightarrow> None | ConnPicking h \<Rightarrow> Some h | ConnSending h w \<Rightarrow> Some h)"

definition flying :: "Gateway \<Rightarrow> nat list" where
  "flying g = connJobs g @ held (map connHeld (connWorkers g)) @ map djJob (dispatchJobs g) @
     held (map (map_option djJob) (dispatchWorkers g))"

definition ownReply :: "(string \<Rightarrow> ChatRequest \<Rightarrow> httpResult) set \<Rightarrow> (string \<Rightarrow> ChatResponse option) \<Rightarrow> string \<Rightarrow> ChatResponse \<Rightarrow> bool" where
  "ownReply posts V prompt resp \<longleftrightarrow> (\<exists>post \<in> posts. \<exists>w. forwardToWorker post V w prompt = Inr resp)"

definition outOk :: "(string \<Rightarrow> ChatRequest \<Rightarrow> httpResult) set \<Rightarrow> (string \<Rightarrow> ChatResponse option) \<Rightarrow> string \<Rightarrow> chat_out \<Rightarrow> bool" where
  "outOk posts V prompt out \<longleftrightarrow> (case out of
     ChatOK resp \<Rightarrow> ownReply posts V prompt resp | ChatError err code \<Rightarrow> code = 502 \<or> code = 503 | ChatNotFound \<Rightarrow> False)"

definition jobOk :: "(string \<Rightarrow> ChatRequest \<Rightarrow> httpResult) set \<Rightarrow> (string \<Rightarrow> ChatResponse option) \<Rightarrow> bool \<Rightarrow> clientJob \<Rightarrow> bool" where
  "jobOk posts V fl j \<longleftrightarrow>
     (fl \<longrightarrow> jobResult j = None) \<and>
     (\<forall>resp. jobResult j = Some (Inr resp) \<longrightarrow> ownReply posts V (jobPrompt j) resp) \<and>
     (case jobStatus j of
        JobEnqueueing \<Rightarrow> \<not> fl \<and> jobResult j = None
      | JobWaiting \<Rightarrow> fl \<or> jobResult j \<noteq> None
      | JobDone out \<Rightarrow> \<not> fl \<and> jobResult j = None \<and> outOk posts V (jobPrompt j) out)"

definition dispatched :: "Gateway \<Rightarrow> dispatchJob set" where
  "dispatched g = set (dispatchJobs g) \<union> {d. Some d \<in> set (dispatchWorkers g)}"

definition gwInv :: "(string \<Rightarrow> ChatRequest \<Rightarrow> httpResult) set \<Rightarrow> (string \<Rightarrow> ChatResponse option) \<Rightarrow> Gateway \<Rightarrow> bool" where
  "gwInv posts V g \<longleftrightarrow> connWorkers g \<noteq> [] \<and> dispatchWorkers g \<noteq> [] \<and> length (connJobs g) \<le> connCap \<and> length (dispatchJobs g) \<le> dispatchCap \<and>
     distinct (flying g) \<and> set (flying g) \<subseteq> {..<length (jobs g)} \<and>
     (\<forall>d \<in> dispatched g. djPrompt d = jobPrompt (jobs g ! djJob d)) \<and>
     (\<forall>h < length (jobs g). jobOk posts V (h \<in> set (flying g)) (jobs g ! h))"

lemma gwInv_D:
  assumes "gwInv posts V g"
  shows "connWorkers g \<noteq> []" "dispatchWorkers g \<noteq> []" "length (connJobs g) \<le> connCap" "length (dispatchJobs g) \<le> dispatchCap"
    "distinct (flying g)" "h \<in> set (flying g) \<Longrightarrow> h < length (jobs g)"
    "d \<in> dispatched g \<Longrightarrow> djPrompt d = jobPrompt (jobs g ! djJob d)"
    "h < length (jobs g) \<Longrightarrow> jobOk posts V (h \<in> set (flying g)) (jobs g ! h)"
  using assms by (auto simp: gwInv_def)

lemma setJob_sel [simp]:
  "controllerURL (setJob h f g) = controllerURL g" "connJobs (setJob h f g) = connJobs g" "dispatchJobs (setJob h f g) = dispatchJobs g"
  "connWorkers (setJob h f g) = connWorkers g" "dispatchWorkers (setJob h f g) = dispatchWorkers g"
  "length (jobs (setJob h f g)) = length (jobs g)" "flying (setJob h f g) = flying g" "dispatched (setJob h f g) = dispatched g"
  by (simp_all add: setJob_def flying_def dispatched_def)

lemma setJob_nth: "k < length (jobs g) \<Longrightarrow> jobs (setJob h f g) ! k = (if k = h then f (jobs g ! k) else jobs g ! k)"
  by (auto simp: setJob_def nth_list_update)

lemma held_mem: "Some d \<in> set xs \<Longrightarrow> f d \<in> set (held (map (map_option f) xs))"
proof (induction xs)
  case (Cons x xs)
  then show ?case by (cases x) auto
qed simp

lemma dispatched_flying: "d \<in> dispatched g \<Longrightarrow> djJob d \<in> set (flying g)"
  using held_mem [of d "dispatchWorkers g" djJob] by (auto simp: dispatched_def flying_def)

text \<open>One rule for all steps: what has to be shown is about one job and the places.\<close>

lemma gwInv_update:
  assumes inv: "gwInv posts V g"
    and sel: "length (connWorkers g') = length (connWorkers g)" "length (dispatchWorkers g') = length (dispatchWorkers g)"
      "length (connJobs g') \<le> connCap" "length (dispatchJobs g') \<le> dispatchCap" "length (jobs g') = length (jobs g)"
    and places: "distinct (flying g')" "set (flying g') - {h} = set (flying g) - {h}"
    and others: "\<And>k. k < length (jobs g) \<Longrightarrow> k \<noteq> h \<Longrightarrow> jobs g' ! k = jobs g ! k"
    and job: "h < length (jobs g)" "jobPrompt (jobs g' ! h) = jobPrompt (jobs g ! h)" "jobOk posts V (h \<in> set (flying g')) (jobs g' ! h)"
    and disp: "\<And>d. d \<in> dispatched g' \<Longrightarrow> d \<in> dispatched g \<or> djPrompt d = jobPrompt (jobs g ! djJob d)"
  shows "gwInv posts V g'"
proof -
  have in_iff: "k \<in> set (flying g') \<longleftrightarrow> k \<in> set (flying g)" if "k \<noteq> h" for k using places(2) that by blast
  have sub: "set (flying g') \<subseteq> {..<length (jobs g)}" using places(2) gwInv_D(6) [OF inv] job(1) by blast
  have prompt: "jobPrompt (jobs g' ! k) = jobPrompt (jobs g ! k)" if "k < length (jobs g)" for k
    using others [OF that] job(2) by (cases "k = h") auto
  have "djPrompt d = jobPrompt (jobs g' ! djJob d)" if "d \<in> dispatched g'" for d
    using disp [OF that] gwInv_D(7) [OF inv, of d] prompt [of "djJob d"] dispatched_flying [OF that] sub by auto
  moreover have "jobOk posts V (k \<in> set (flying g')) (jobs g' ! k)" if "k < length (jobs g)" for k
    using gwInv_D(8) [OF inv that] job(3) others [OF that] in_iff by (cases "k = h") auto
  ultimately show ?thesis
    unfolding gwInv_def using sel places(1) sub gwInv_D(1,2) [OF inv] by auto
qed

section \<open>Preservation\<close>

lemma gwInv_enqueue:
  assumes inv: "gwInv posts V g" and h: "h < length (jobs g)" "jobStatus (jobs g ! h) = JobEnqueueing" and e: "enqueueConn h g = Some g'"
  shows "gwInv posts V g'"
proof -
  note ok = gwInv_D(8) [OF inv h(1), unfolded jobOk_def h(2), simplified]
  have g': "g' = setJob h (\<lambda>j. j\<lparr>jobStatus := JobWaiting\<rparr>) (g\<lparr>connJobs := connJobs g @ [h]\<rparr>)" "length (connJobs g) < connCap"
    using e by (auto simp: enqueueConn_def bind_Some_iff trySend_Some_iff)
  have f: "mset (flying g') = mset (h # flying g)" by (simp add: g'(1)) (simp add: flying_def)
  have d: "distinct (flying g')" "set (flying g') = insert h (set (flying g))"
    using mset_eq_imp_distinct_iff [OF f] mset_eq_setD [OF f] gwInv_D(5) [OF inv] ok by auto
  have nth: "jobs g' ! k = (if k = h then (jobs g ! h)\<lparr>jobStatus := JobWaiting\<rparr> else jobs g ! k)" if "k < length (jobs g)" for k
    using that by (simp add: g'(1) setJob_def nth_list_update)
  show ?thesis
    by (rule gwInv_update [OF inv, where h = h])
      (use g' gwInv_D(4) [OF inv] d h ok nth in \<open>auto simp: jobOk_def dispatched_def\<close>)
qed

lemma gwInv_overload:
  assumes inv: "gwInv posts V g" and h: "h < length (jobs g)" "jobStatus (jobs g ! h) = JobEnqueueing"
  shows "gwInv posts V (jobOverload h g)"
proof -
  note ok = gwInv_D(8) [OF inv h(1), unfolded jobOk_def h(2), simplified]
  show ?thesis
    by (rule gwInv_update [OF inv, where h = h])
      (use gwInv_D(3-5) [OF inv] h ok in \<open>auto simp: jobOverload_def setJob_nth jobOk_def outOk_def\<close>)
qed

text \<open>A job moves from one place to the next.\<close>

lemma gwInv_move:
  assumes inv: "gwInv posts V g" and m: "mset (flying g') = mset (flying g)" and h: "h \<in> set (flying g)" and "jobs g' = jobs g"
    and "length (connWorkers g') = length (connWorkers g)" "length (dispatchWorkers g') = length (dispatchWorkers g)"
      "length (connJobs g') \<le> connCap" "length (dispatchJobs g') \<le> dispatchCap"
    and "\<And>d. d \<in> dispatched g' \<Longrightarrow> d \<in> dispatched g \<or> djPrompt d = jobPrompt (jobs g ! djJob d)"
  shows "gwInv posts V g'"
proof -
  have hl: "h < length (jobs g)" using gwInv_D(6) [OF inv h] .
  show ?thesis
    by (rule gwInv_update [OF inv, where h = h])
      (use assms(4-9) gwInv_D(5) [OF inv] gwInv_D(8) [OF inv hl] hl mset_eq_imp_distinct_iff [OF m] mset_eq_setD [OF m] in auto)
qed

text \<open>A job leaves the pipeline with its result.\<close>

lemma sendResult_leaves:
  assumes inv: "gwInv posts V g" and m: "mset (flying g) = mset (h # flying g1)" and "jobs g1 = jobs g"
    and "length (connWorkers g1) = length (connWorkers g)" "length (dispatchWorkers g1) = length (dispatchWorkers g)"
      "connJobs g1 = connJobs g" "dispatchJobs g1 = dispatchJobs g" "dispatched g1 \<subseteq> dispatched g"
    and own: "\<And>resp. res = Inr resp \<Longrightarrow> ownReply posts V (jobPrompt (jobs g ! h)) resp" and s: "sendResult h res g1 = Some g'"
  shows "gwInv posts V g'"
proof -
  have fl: "h \<in> set (flying g)" using mset_eq_setD [OF m] by simp
  have h: "h < length (jobs g)" using gwInv_D(6) [OF inv fl] .
  have d: "distinct (flying g1)" "h \<notin> set (flying g1)" "set (flying g) = insert h (set (flying g1))"
    using mset_eq_imp_distinct_iff [OF m] mset_eq_setD [OF m] gwInv_D(5) [OF inv] by auto
  have g': "g' = setJob h (\<lambda>j. j\<lparr>jobResult := Some res\<rparr>) g1" using s by (auto simp: sendResult_def split: if_splits)
  have t: "jobOk posts V False ((jobs g ! h)\<lparr>jobResult := Some res\<rparr>)"
    using gwInv_D(8) [OF inv h] fl own by (auto simp: jobOk_def split: job_status.splits)
  have nth: "jobs g' ! k = (if k = h then (jobs g ! h)\<lparr>jobResult := Some res\<rparr> else jobs g ! k)" if "k < length (jobs g)" for k
    using that assms(3) by (simp add: g' setJob_def nth_list_update)
  show ?thesis
    by (rule gwInv_update [OF inv, where h = h])
      (use assms(3-8) gwInv_D(3,4) [OF inv] d h t nth in \<open>auto simp: g'\<close>)
qed

lemma sendResult_returns:
  assumes "gwInv posts V g" and "h \<in> set (flying g)" and "jobs g1 = jobs g"
  shows "sendResult h res g1 \<noteq> None"
  using gwInv_D(8) [OF assms(1) gwInv_D(6) [OF assms(1,2)]] assms(2,3) by (simp add: sendResult_def jobOk_def)

lemma gwInv_receive:
  assumes inv: "gwInv posts V g" and h: "h < length (jobs g)" "jobStatus (jobs g ! h) = JobWaiting" and r: "receiveResult h g = Some g'"
  shows "gwInv posts V g'"
proof -
  obtain res where res: "jobResult (jobs g ! h) = Some res"
    "g' = setJob h (\<lambda>j. j\<lparr>jobResult := None, jobStatus := JobDone (respond res)\<rparr>) g"
    using r by (auto simp: receiveResult_def split: option.splits)
  have "outOk posts V (jobPrompt (jobs g ! h)) (respond res)"
    using gwInv_D(8) [OF inv h(1)] res(1) by (cases res) (auto simp: jobOk_def outOk_def respond_def)
  then have t: "jobOk posts V (h \<in> set (flying g)) ((jobs g ! h)\<lparr>jobResult := None, jobStatus := JobDone (respond res)\<rparr>)"
    using gwInv_D(8) [OF inv h(1)] res(1) by (auto simp: jobOk_def)
  show ?thesis
    by (rule gwInv_update [OF inv, where h = h])
      (use gwInv_D(3-5) [OF inv] h t in \<open>auto simp: res(2) setJob_nth\<close>)
qed

text \<open>How the slots of the goroutines change what is in flight.\<close>

lemma connWorkers_take:
  "i < length (connWorkers g) \<Longrightarrow> connHeld (connWorkers g ! i) = None \<Longrightarrow> connHeld s = Some h \<Longrightarrow>
   mset (held (map connHeld ((connWorkers g)[i := s]))) = add_mset h (mset (held (map connHeld (connWorkers g))))"
  by (simp add: map_update held_take)

lemma connWorkers_drop:
  "i < length (connWorkers g) \<Longrightarrow> connHeld (connWorkers g ! i) = Some h \<Longrightarrow>
   mset (held (map connHeld (connWorkers g))) = add_mset h (mset (held (map connHeld ((connWorkers g)[i := ConnIdle]))))"
  using held_drop [of i "map connHeld (connWorkers g)" h] by (simp add: map_update connHeld_def)

lemma dispatchWorkers_take:
  "k < length (dispatchWorkers g) \<Longrightarrow> dispatchWorkers g ! k = None \<Longrightarrow>
   mset (held (map (map_option djJob) ((dispatchWorkers g)[k := Some d]))) = add_mset (djJob d) (mset (held (map (map_option djJob) (dispatchWorkers g))))"
  by (simp add: map_update held_take)

lemma dispatchWorkers_drop:
  "k < length (dispatchWorkers g) \<Longrightarrow> dispatchWorkers g ! k = Some d \<Longrightarrow>
   mset (held (map (map_option djJob) (dispatchWorkers g))) = add_mset (djJob d) (mset (held (map (map_option djJob) ((dispatchWorkers g)[k := None]))))"
  using held_drop [of k "map (map_option djJob) (dispatchWorkers g)" "djJob d"] by (simp add: map_update)

lemma connHeld_flying: "i < length (connWorkers g) \<Longrightarrow> connHeld (connWorkers g ! i) = Some h \<Longrightarrow> h \<in> set (flying g)"
  by (auto simp: flying_def held_set)

lemma connHeld_simps [simp]: "connHeld ConnIdle = None" "connHeld (ConnPicking h) = Some h" "connHeld (ConnSending h w) = Some h"
  by (simp_all add: connHeld_def)

lemma update_mem: "x \<in> set (xs[k := y]) \<Longrightarrow> x = y \<or> x \<in> set xs"
  by (meson insertE set_update_subset_insert subsetD)

lemma gwInv_conn_take:
  assumes inv: "gwInv posts V g" and i: "i < length (connWorkers g)" "connWorkers g ! i = ConnIdle" and t: "connTake i g = Some g'"
  shows "gwInv posts V g'"
proof -
  obtain h q where q: "connJobs g = h # q" "g' = g\<lparr>connJobs := q, connWorkers := (connWorkers g)[i := ConnPicking h]\<rparr>"
    using t by (auto simp: connTake_def bind_Some_iff recv_Some_iff)
  show ?thesis
    using gwInv_D(3,4) [OF inv] q connWorkers_take [OF i(1), of "ConnPicking h" h] i(2)
    by (intro gwInv_move [OF inv, of g' h]) (auto simp: flying_def dispatched_def)
qed

lemma gwInv_conn_idle:
  assumes inv: "gwInv posts V g" and i: "i < length (connWorkers g)" "connHeld (connWorkers g ! i) = Some h"
    and s: "sendResult h (Inl err) (g\<lparr>connWorkers := (connWorkers g)[i := ConnIdle]\<rparr>) = Some g'"
  shows "gwInv posts V g'"
  by (rule sendResult_leaves [OF inv _ _ _ _ _ _ _ _ s])
    (use connWorkers_drop [OF i] in \<open>simp_all add: flying_def dispatched_def\<close>)

lemma gwInv_conn_pick:
  assumes inv: "gwInv posts V g" and i: "i < length (connWorkers g)" "connWorkers g ! i = ConnPicking h" and p: "connPicked i h r g = Some g'"
  shows "gwInv posts V g'"
proof (cases r)
  case (Inl err)
  then show ?thesis using p gwInv_conn_idle [OF inv i(1), of h] i(2) by (simp add: connPicked_def)
next
  case (Inr w)
  then have g': "g' = g\<lparr>connWorkers := (connWorkers g)[i := ConnSending h w]\<rparr>" using p by (simp add: connPicked_def)
  have same: "map connHeld ((connWorkers g)[i := ConnSending h w]) = map connHeld (connWorkers g)"
    using i by (simp add: map_update list_update_same_conv)
  show ?thesis
    using gwInv_D(3,4) [OF inv] connHeld_flying [OF i(1), of h] i(2) g' same
    by (intro gwInv_move [OF inv, of g' h]) (auto simp: flying_def dispatched_def)
qed

lemma gwInv_conn_send:
  assumes inv: "gwInv posts V g" and i: "i < length (connWorkers g)" "connWorkers g ! i = ConnSending h w" and s: "connSend i h w g = Some g'"
  shows "gwInv posts V g'"
proof -
  let ?d = "\<lparr>djPrompt = jobPrompt (jobs g ! h), djWorker = w, djJob = h\<rparr>"
  have g': "g' = g\<lparr>dispatchJobs := dispatchJobs g @ [?d], connWorkers := (connWorkers g)[i := ConnIdle]\<rparr>" "length (dispatchJobs g) < dispatchCap"
    using s by (auto simp: connSend_def bind_Some_iff trySend_Some_iff)
  show ?thesis
    using gwInv_D(3) [OF inv] connHeld_flying [OF i(1), of h] i(2) g' connWorkers_drop [OF i(1), of h]
    by (intro gwInv_move [OF inv, of g' h]) (auto simp: flying_def dispatched_def)
qed

lemma gwInv_dispatch_take:
  assumes inv: "gwInv posts V g" and k: "k < length (dispatchWorkers g)" "dispatchWorkers g ! k = None" and t: "dispatchTake k g = Some g'"
  shows "gwInv posts V g'"
proof -
  obtain d q where q: "dispatchJobs g = d # q" "g' = g\<lparr>dispatchJobs := q, dispatchWorkers := (dispatchWorkers g)[k := Some d]\<rparr>"
    using t by (auto simp: dispatchTake_def bind_Some_iff recv_Some_iff)
  show ?thesis
    using gwInv_D(3,4) [OF inv] q dispatchWorkers_take [OF k, of d]
    by (intro gwInv_move [OF inv, of g' "djJob d"]) (auto simp: flying_def dispatched_def dest!: update_mem)
qed

lemma gwInv_dispatch_finish:
  assumes inv: "gwInv posts V g" and k: "k < length (dispatchWorkers g)" "dispatchWorkers g ! k = Some d" and post: "post \<in> posts"
    and f: "dispatchFinish k d (forwardToWorker post V w (djPrompt d)) g = Some g'"
  shows "gwInv posts V g'"
proof -
  have "d \<in> dispatched g" using k nth_mem [of k "dispatchWorkers g"] by (auto simp: dispatched_def)
  note prompt = gwInv_D(7) [OF inv this]
  have disp: "dispatched (g\<lparr>dispatchWorkers := (dispatchWorkers g)[k := None]\<rparr>) \<subseteq> dispatched g"
    by (auto simp: dispatched_def dest!: update_mem)
  show ?thesis
    by (rule sendResult_leaves [OF inv _ _ _ _ _ _ disp _ f [unfolded dispatchFinish_def]])
      (use dispatchWorkers_drop [OF k] prompt post in \<open>auto simp: flying_def ownReply_def\<close>)
qed

lemma gwInv_route: "route_step gets U posts V g g' \<Longrightarrow> gwInv posts V g \<Longrightarrow> gwInv posts V g'"
proof (induction rule: route_step.induct)
  case (conn_timeout i g h w g')
  then show ?case using gwInv_conn_idle [of posts V g i h] by (simp add: connTimeout_def)
qed (blast intro: gwInv_enqueue gwInv_overload gwInv_conn_take gwInv_conn_pick gwInv_conn_send gwInv_dispatch_take gwInv_dispatch_finish gwInv_receive)+

lemma gwInv_request: "gwInv posts V g \<Longrightarrow> gwInv posts V (newJob prompt g)"
proof -
  assume inv: "gwInv posts V g"
  have same: "flying (newJob prompt g) = flying g" "dispatched (newJob prompt g) = dispatched g"
    by (simp_all add: newJob_def flying_def dispatched_def)
  have "length (jobs g) \<notin> set (flying g)" using gwInv_D(6) [OF inv] by blast
  moreover have "djJob d < length (jobs g)" if "d \<in> dispatched g" for d using gwInv_D(6) [OF inv dispatched_flying [OF that]] .
  ultimately show "gwInv posts V (newJob prompt g)"
    using gwInv_D [OF inv] gwInv_D(6) [OF inv, THEN less_SucI] unfolding gwInv_def same
    by (auto simp: newJob_def nth_append less_Suc_eq jobOk_def)
qed

lemma gwInv_step: "gateway_step gets U posts V g g' \<Longrightarrow> gwInv posts V g \<Longrightarrow> gwInv posts V g'"
  by (induction rule: gateway_step.induct) (auto intro: gwInv_route gwInv_request)

lemma gwInv_new: "gwInv posts V (NewGateway url m n)"
  by (simp add: NewGateway_def gwInv_def flying_def dispatched_def map_replicate)

lemma gwInv_reach: "(gateway_step gets U posts V)\<^sup>*\<^sup>* (NewGateway url m n) g \<Longrightarrow> gwInv posts V g"
  by (induction rule: rtranclp_induct) (auto intro: gwInv_new gwInv_step)

section \<open>Coming to rest\<close>

definition jobWork :: "clientJob \<Rightarrow> nat" where
  "jobWork j = (case jobStatus j of JobEnqueueing \<Rightarrow> 7 | JobWaiting \<Rightarrow> 1 | JobDone out \<Rightarrow> 0)"

definition connWork :: "conn_state \<Rightarrow> nat" where
  "connWork s = (case s of ConnIdle \<Rightarrow> 0 | ConnPicking h \<Rightarrow> 4 | ConnSending h w \<Rightarrow> 3)"

definition gwWork :: "Gateway \<Rightarrow> nat" where
  "gwWork g = (\<Sum>j \<leftarrow> jobs g. jobWork j) + 5 * length (connJobs g) + (\<Sum>s \<leftarrow> connWorkers g. connWork s) +
     2 * length (dispatchJobs g) + (\<Sum>d \<leftarrow> dispatchWorkers g. if d = None then 0 else 1)"

definition allServed :: "Gateway \<Rightarrow> bool" where
  "allServed g \<longleftrightarrow> (\<forall>j \<in> set (jobs g). \<exists>out. jobStatus j = JobDone out)"

lemma gwWork_setJob:
  "h < length (jobs g) \<Longrightarrow> gwWork (setJob h f g) + jobWork (jobs g ! h) = gwWork g + jobWork (f (jobs g ! h))"
  using sum_list_update [of h "jobs g" jobWork "f (jobs g ! h)"] by (simp add: gwWork_def setJob_def)

lemma gwWork_conn:
  "i < length (connWorkers g) \<Longrightarrow> gwWork (g\<lparr>connWorkers := (connWorkers g)[i := s]\<rparr>) + connWork (connWorkers g ! i) = gwWork g + connWork s"
  using sum_list_update [of i "connWorkers g" connWork s] by (simp add: gwWork_def)

lemma gwWork_dispatch:
  "k < length (dispatchWorkers g) \<Longrightarrow> gwWork (g\<lparr>dispatchWorkers := (dispatchWorkers g)[k := d]\<rparr>) + (if dispatchWorkers g ! k = None then 0 else 1) =
   gwWork g + (if d = None then 0 else 1)"
  using sum_list_update [of k "dispatchWorkers g" "\<lambda>d. if d = None then 0 else 1" d] by (simp add: gwWork_def)

lemma gwWork_queue:
  "gwWork (g\<lparr>connJobs := q\<rparr>) + 5 * length (connJobs g) = gwWork g + 5 * length q"
  "gwWork (g\<lparr>dispatchJobs := ds\<rparr>) + 2 * length (dispatchJobs g) = gwWork g + 2 * length ds"
  by (simp_all add: gwWork_def)

lemma gwWork_send: "h < length (jobs g) \<Longrightarrow> sendResult h res g = Some g' \<Longrightarrow> gwWork g' = gwWork g"
  using gwWork_setJob [of h g "\<lambda>j. j\<lparr>jobResult := Some res\<rparr>"] by (auto simp: sendResult_def jobWork_def split: if_splits)

lemma gwWork_idle:
  assumes "gwInv posts V g" and i: "i < length (connWorkers g)" "connHeld (connWorkers g ! i) = Some h"
    and s: "sendResult h res (g\<lparr>connWorkers := (connWorkers g)[i := ConnIdle]\<rparr>) = Some g'"
  shows "gwWork g' < gwWork g"
  using gwInv_D(6) [OF assms(1) connHeld_flying [OF i]] gwWork_send [OF _ s] gwWork_conn [OF i(1), of ConnIdle] i(2)
  by (cases "connWorkers g ! i") (simp_all add: connWork_def)

lemma gwWork_route: "route_step gets U posts V g g' \<Longrightarrow> gwInv posts V g \<Longrightarrow> gwWork g' < gwWork g"
proof (induction rule: route_step.induct)
  case (enqueue h g g')
  then show ?case
    using gwWork_setJob [of h "g\<lparr>connJobs := connJobs g @ [h]\<rparr>" "\<lambda>j. j\<lparr>jobStatus := JobWaiting\<rparr>"] gwWork_queue(1) [of "connJobs g @ [h]" g]
    by (auto simp: enqueueConn_def bind_Some_iff trySend_Some_iff jobWork_def)
next
  case (overload h g)
  then show ?case
    using gwWork_setJob [of h g "\<lambda>j. j\<lparr>jobStatus := JobDone (ChatError ''gateway overloaded'' 503)\<rparr>"] by (simp add: jobOverload_def jobWork_def)
next
  case (conn_take i g g')
  then obtain h q where q: "connJobs g = h # q" "g' = g\<lparr>connJobs := q, connWorkers := (connWorkers g)[i := ConnPicking h]\<rparr>"
    by (auto simp: connTake_def bind_Some_iff recv_Some_iff)
  then show ?case
    using gwWork_conn [of i "g\<lparr>connJobs := q\<rparr>" "ConnPicking h"] gwWork_queue(1) [of q g] conn_take(1,2) by (simp add: connWork_def)
next
  case (conn_pick i g h get g')
  then have held: "connHeld (connWorkers g ! i) = Some h" by simp
  show ?case
    using conn_pick(1,2,4) gwWork_idle [OF conn_pick(5,1) held] gwWork_conn [OF conn_pick(1), of "ConnSending h w" for w]
    by (cases "pickWorker get U (controllerURL g)") (fastforce simp: connPicked_def connWork_def less_eq_Suc_le)+
next
  case (conn_send i g h w g')
  let ?q = "dispatchJobs g @ [\<lparr>djPrompt = jobPrompt (jobs g ! h), djWorker = w, djJob = h\<rparr>]"
  have "g' = g\<lparr>dispatchJobs := ?q, connWorkers := (connWorkers g)[i := ConnIdle]\<rparr>"
    using conn_send(3) by (auto simp: connSend_def bind_Some_iff trySend_Some_iff)
  then show ?case
    using gwWork_conn [of i "g\<lparr>dispatchJobs := ?q\<rparr>" ConnIdle] gwWork_queue(2) [of ?q g] conn_send(1,2) by (simp add: connWork_def)
next
  case (conn_timeout i g h w g')
  then show ?case using gwWork_idle [OF conn_timeout(4,1), of h] by (simp add: connTimeout_def)
next
  case (dispatch_take k g g')
  then obtain d q where q: "dispatchJobs g = d # q" "g' = g\<lparr>dispatchJobs := q, dispatchWorkers := (dispatchWorkers g)[k := Some d]\<rparr>"
    by (auto simp: dispatchTake_def bind_Some_iff recv_Some_iff)
  then show ?case
    using gwWork_dispatch [of k "g\<lparr>dispatchJobs := q\<rparr>" "Some d"] gwWork_queue(2) [of q g] dispatch_take(1,2) by simp
next
  case (dispatch_finish k g d post g')
  have "d \<in> dispatched g" using dispatch_finish(1,2) nth_mem [of k "dispatchWorkers g"] by (auto simp: dispatched_def)
  then have h: "djJob d < length (jobs g)" using gwInv_D(6) [OF dispatch_finish(5) dispatched_flying] by blast
  show ?case
    using dispatch_finish(2) h gwWork_dispatch [OF dispatch_finish(1), of None] gwWork_send [OF _ dispatch_finish(4) [unfolded dispatchFinish_def]]
    by simp
next
  case (receive h g g')
  then obtain res where "g' = setJob h (\<lambda>j. j\<lparr>jobResult := None, jobStatus := JobDone (respond res)\<rparr>) g"
    by (auto simp: receiveResult_def split: option.splits)
  then show ?case
    using gwWork_setJob [of h g "\<lambda>j. j\<lparr>jobResult := None, jobStatus := JobDone (respond res)\<rparr>"] receive(1,2) by (simp add: jobWork_def)
qed

text \<open>A job in flight can move.\<close>

lemma conn_moves:
  assumes inv: "gwInv posts V g" and "gets \<noteq> {}" and i: "i < length (connWorkers g)" "connHeld (connWorkers g ! i) = Some h"
  shows "\<exists>g'. route_step gets U posts V g g'"
proof -
  have send: "sendResult h res (g\<lparr>connWorkers := cw\<rparr>) \<noteq> None" for res cw
    using sendResult_returns [OF inv connHeld_flying [OF i]] by simp
  show ?thesis
  proof (cases "connWorkers g ! i")
    case (ConnPicking h')
    then obtain get where "get \<in> gets" using assms(2) by blast
    moreover have "connPicked i h (pickWorker get U (controllerURL g)) g \<noteq> None"
      using send by (auto simp: connPicked_def split: sum.splits)
    ultimately show ?thesis using route_step.conn_pick [OF i(1)] ConnPicking i(2) by fastforce
  next
    case (ConnSending h' w)
    then show ?thesis
      using route_step.conn_timeout [OF i(1)] i(2) send unfolding connTimeout_def by fastforce
  qed (use i in simp)
qed

lemma in_flight_places:
  assumes "h \<in> set (flying g)"
  shows "(\<exists>i < length (connWorkers g). connHeld (connWorkers g ! i) \<noteq> None) \<or> (\<exists>k < length (dispatchWorkers g). dispatchWorkers g ! k \<noteq> None) \<or>
    connJobs g \<noteq> [] \<or> dispatchJobs g \<noteq> []"
  using assms by (auto simp: flying_def held_set)

lemma dispatch_moves:
  assumes inv: "gwInv posts V g" and "posts \<noteq> {}" and k: "k < length (dispatchWorkers g)" "dispatchWorkers g ! k = Some d"
  shows "\<exists>g'. route_step gets U posts V g g'"
proof -
  obtain post where post: "post \<in> posts" using assms(2) by blast
  have "d \<in> dispatched g" using k nth_mem [of k "dispatchWorkers g"] by (auto simp: dispatched_def)
  then have "dispatchFinish k d (forwardToWorker post V (djWorker d) (djPrompt d)) g \<noteq> None"
    using sendResult_returns [OF inv dispatched_flying] by (simp add: dispatchFinish_def)
  then show ?thesis using route_step.dispatch_finish [OF k post] by blast
qed

lemma flying_moves:
  assumes inv: "gwInv posts V g" and nets: "gets \<noteq> {}" "posts \<noteq> {}" and h: "h \<in> set (flying g)"
  shows "\<exists>g'. route_step gets U posts V g g'"
proof (cases "(\<exists>i < length (connWorkers g). connHeld (connWorkers g ! i) \<noteq> None) \<or> (\<exists>k < length (dispatchWorkers g). dispatchWorkers g ! k \<noteq> None)")
  case True
  then show ?thesis using conn_moves [OF inv nets(1)] dispatch_moves [OF inv nets(2)] by blast
next
  case False
  have cw: "0 < length (connWorkers g)" "0 < length (dispatchWorkers g)" using gwInv_D(1,2) [OF inv] by simp_all
  then have "connWorkers g ! 0 = ConnIdle" "dispatchWorkers g ! 0 = None"
    using False by (cases "connWorkers g ! 0", auto)
  moreover have "connJobs g \<noteq> [] \<or> dispatchJobs g \<noteq> []" using in_flight_places [OF h] False by blast
  ultimately show ?thesis
    using route_step.conn_take [OF cw(1)] route_step.dispatch_take [OF cw(2)]
    by (cases "connJobs g"; cases "dispatchJobs g") (fastforce simp: connTake_def dispatchTake_def recv_def)+
qed

lemma gateway_progress:
  assumes inv: "gwInv posts V g" and nets: "gets \<noteq> {}" "posts \<noteq> {}" and "\<not> allServed g"
  shows "\<exists>g'. route_step gets U posts V g g'"
proof -
  obtain h where h: "h < length (jobs g)" "\<And>out. jobStatus (jobs g ! h) \<noteq> JobDone out"
    using assms(4) by (auto simp: allServed_def in_set_conv_nth)
  consider "jobStatus (jobs g ! h) = JobEnqueueing" | "jobStatus (jobs g ! h) = JobWaiting" "jobResult (jobs g ! h) \<noteq> None"
    | "h \<in> set (flying g)"
    using h gwInv_D(8) [OF inv h(1)] by (cases "jobStatus (jobs g ! h)") (auto simp: jobOk_def)
  then show ?thesis
  proof cases
    case 1
    then show ?thesis using route_step.overload h(1) by blast
  next
    case 2
    then obtain g' where "receiveResult h g = Some g'" by (auto simp: receiveResult_def)
    then show ?thesis using route_step.receive 2 h(1) by blast
  next
    case 3
    then show ?thesis using flying_moves [OF inv nets] by blast
  qed
qed

interpretation gatewayDrain: draining "route_step gets U posts V" "\<lambda>g. gwInv posts V g \<and> gets \<noteq> {} \<and> posts \<noteq> {}" gwWork allServed
  for gets U posts V
  by unfold_locales (blast intro: gwInv_route gwWork_route gateway_progress)+

end
