(* ===== verification/Data_Theorems.thy ===== *)
theory Data_Theorems
  imports Gateway_Facts
begin

text \<open>
  The properties of the data plane: the worker's pool and the gateway. Each witness is a run of the pool or the
  gateway from its initial state.
\<close>

section \<open>Two runs\<close>

text \<open>A pool with one GPU and the mock backend serves one call.\<close>

definition mockGen :: "string \<Rightarrow> ChatResponse \<times> string option \<Rightarrow> bool" where
  "mockGen prompt r \<longleftrightarrow> r = mockGenerate \<lparr>mbWorkerID = '''', mbDelay = 0\<rparr> None prompt"

definition exTask :: "taskResult option \<Rightarrow> submit_status \<Rightarrow> Task" where
  "exTask d s = \<lparr>taskID = ''w-1'', taskPrompt = ''hi'', taskDone = d, taskStatus = s\<rparr>"

definition exPool :: "nat list \<Rightarrow> nat option \<Rightarrow> taskResult option \<Rightarrow> submit_status \<Rightarrow> Pool" where
  "exPool q g d s = \<lparr>queue = q, gpuCount = 1, poolWorkerID = ''w'', poolSeq = 1, tasks = [exTask d s], gpus = [g]\<rparr>"

definition exAnswer :: taskResult where
  "exAnswer = \<lparr>trResponse = \<lparr>Reply = ''[mock] reply to: hi'', WorkerID = ''w'', GPUID = 0\<rparr>, trErr = None\<rparr>"

lemmas exPool_simps = exPool_def exTask_def exAnswer_def setTask_def trySend_def recv_def defaultQueueCap_def

lemma exPool_submit: "submitBegin ''hi'' (NewPool ''w'' 1) = exPool [] None None Enqueueing"
  by (simp add: exPool_simps submitBegin_def NewPool_def showNat.simps digit_def char_of_def bit_simps)

lemma exPool_computing: "(pool_step mockGen)\<^sup>*\<^sup>* (NewPool ''w'' 1) (exPool [] (Some 0) None Waiting)"
proof -
  have "(pool_step mockGen)\<^sup>*\<^sup>* (NewPool ''w'' 1) (exPool [] None None Enqueueing)"
    using pool_step.submit [of mockGen "NewPool ''w'' 1" "''hi''"] by (intro r_into_rtranclp) (simp add: exPool_submit)
  also have "pool_step mockGen (exPool [] None None Enqueueing) (exPool [0] None None Waiting)"
    by (rule pool_step.own, rule serve_step.enqueue [of 0]) (simp_all add: exPool_simps submitEnqueue_def)
  also (rtranclp.rtrancl_into_rtrancl) have "pool_step mockGen (exPool [0] None None Waiting) (exPool [] (Some 0) None Waiting)"
    by (rule pool_step.own, rule serve_step.take_task [of 0]) (simp_all add: exPool_simps gpuTake_def)
  finally (rtranclp.rtrancl_into_rtrancl) show ?thesis .
qed

lemma exPool_run: "(pool_step mockGen)\<^sup>*\<^sup>* (NewPool ''w'' 1) (exPool [] None None (Finished exAnswer))"
proof -
  note exPool_computing
  also have "pool_step mockGen (exPool [] (Some 0) None Waiting) (exPool [] None (Some exAnswer) Waiting)"
    by (rule pool_step.own, rule serve_step.finish [of 0 _ 0 _ "mockGenerate \<lparr>mbWorkerID = '''', mbDelay = 0\<rparr> None ''hi''"])
      (simp_all add: exPool_simps gpuFinish_def mockGen_def mockGenerate_def fillResponse_def)
  also (rtranclp.rtrancl_into_rtrancl) have "pool_step mockGen (exPool [] None (Some exAnswer) Waiting) (exPool [] None None (Finished exAnswer))"
    by (rule pool_step.own, rule serve_step.receive [of 0]) (simp_all add: exPool_simps submitReceive_def)
  finally (rtranclp.rtrancl_into_rtrancl) show ?thesis .
qed

text \<open>A gateway with one goroutine in each layer serves one request.\<close>

definition exWorker :: WorkerInfo where
  "exWorker = \<lparr>wID = ''w'', wIP = ''10.0.0.1'', wPort = 9000, wGPUs = [], wStatus = ''idle''\<rparr>"

definition exGet :: "string \<Rightarrow> httpResult" where
  "exGet url = Inr \<lparr>respCode = 200, respStatus = ''200 OK'', respBody = Some ''worker''\<rparr>"

definition exPost :: "string \<Rightarrow> ChatRequest \<Rightarrow> httpResult" where
  "exPost url req =
    (if req = promptRequest ''hi'' then Inr \<lparr>respCode = 200, respStatus = ''200 OK'', respBody = Some ''[mock] reply to: hi''\<rparr>
     else Inl ''connection refused'')"

definition exDecode :: "string \<Rightarrow> ChatResponse option" where
  "exDecode raw = Some \<lparr>Reply = raw, WorkerID = ''w'', GPUID = 0\<rparr>"

definition exGw :: "nat list \<Rightarrow> dispatchJob list \<Rightarrow> conn_state \<Rightarrow> dispatchJob option \<Rightarrow> (string + ChatResponse) option \<Rightarrow> job_status \<Rightarrow> Gateway" where
  "exGw q ds c d r s =
    \<lparr>controllerURL = ''http://c'', connJobs = q, dispatchJobs = ds, jobs = [\<lparr>jobPrompt = ''hi'', jobResult = r, jobStatus = s\<rparr>],
     connWorkers = [c], dispatchWorkers = [d]\<rparr>"

definition exDispatch :: dispatchJob where
  "exDispatch = \<lparr>djPrompt = ''hi'', djWorker = exWorker, djJob = 0\<rparr>"

definition exReply :: ChatResponse where
  "exReply = \<lparr>Reply = ''[mock] reply to: hi'', WorkerID = ''w'', GPUID = 0\<rparr>"

abbreviation exStep :: "Gateway \<Rightarrow> Gateway \<Rightarrow> bool" where
  "exStep \<equiv> gateway_step {exGet} (\<lambda>raw. Some exWorker) {exPost} exDecode"

lemmas exGw_simps = exGw_def exDispatch_def setJob_def trySend_def recv_def connCap_def dispatchCap_def

lemma exGw_dispatching: "exStep\<^sup>*\<^sup>* (NewGateway ''http://c'' 1 1) (exGw [] [] ConnIdle (Some exDispatch) None JobWaiting)"
proof -
  have "gwServe (\<lambda>b :: string. Some (promptRequest b)) ''POST'' ''/v1/chat/completions'' (Some ''hi'') = Inr ''hi''"
    by (simp add: gwServe_def chatRequest_def gwPrompt_def promptRequest_def)
  from gateway_step.request [OF this, of "{exGet}" "\<lambda>raw. Some exWorker" "{exPost}" exDecode "NewGateway ''http://c'' 1 1"]
  have "exStep\<^sup>*\<^sup>* (NewGateway ''http://c'' 1 1) (exGw [] [] ConnIdle None None JobEnqueueing)"
    by (intro r_into_rtranclp) (simp add: newJob_def NewGateway_def exGw_def)
  also have "exStep (exGw [] [] ConnIdle None None JobEnqueueing) (exGw [0] [] ConnIdle None None JobWaiting)"
    by (rule gateway_step.own, rule route_step.enqueue [of 0]) (simp_all add: exGw_simps enqueueConn_def)
  also (rtranclp.rtrancl_into_rtrancl) have "exStep (exGw [0] [] ConnIdle None None JobWaiting) (exGw [] [] (ConnPicking 0) None None JobWaiting)"
    by (rule gateway_step.own, rule route_step.conn_take [of 0]) (simp_all add: exGw_simps connTake_def)
  also (rtranclp.rtrancl_into_rtrancl) have "exStep (exGw [] [] (ConnPicking 0) None None JobWaiting) (exGw [] [] (ConnSending 0 exWorker) None None JobWaiting)"
    by (rule gateway_step.own, rule route_step.conn_pick [of 0 _ 0 exGet])
      (simp_all add: exGw_simps connPicked_def pickWorker_def exGet_def)
  also (rtranclp.rtrancl_into_rtrancl) have "exStep (exGw [] [] (ConnSending 0 exWorker) None None JobWaiting) (exGw [] [exDispatch] ConnIdle None None JobWaiting)"
    by (rule gateway_step.own, rule route_step.conn_send [of 0 _ 0 exWorker]) (simp_all add: exGw_simps connSend_def)
  also (rtranclp.rtrancl_into_rtrancl) have "exStep (exGw [] [exDispatch] ConnIdle None None JobWaiting) (exGw [] [] ConnIdle (Some exDispatch) None JobWaiting)"
    by (rule gateway_step.own, rule route_step.dispatch_take [of 0]) (simp_all add: exGw_simps dispatchTake_def)
  finally (rtranclp.rtrancl_into_rtrancl) show ?thesis .
qed

lemma exGw_run: "exStep\<^sup>*\<^sup>* (NewGateway ''http://c'' 1 1) (exGw [] [] ConnIdle None None (JobDone (ChatOK exReply)))"
proof -
  note exGw_dispatching
  also have "exStep (exGw [] [] ConnIdle (Some exDispatch) None JobWaiting) (exGw [] [] ConnIdle None (Some (Inr exReply)) JobWaiting)"
    by (rule gateway_step.own, rule route_step.dispatch_finish [of 0 _ exDispatch exPost])
      (simp_all add: exGw_simps dispatchFinish_def sendResult_def forwardToWorker_def exPost_def promptRequest_def exDecode_def exReply_def)
  also (rtranclp.rtrancl_into_rtrancl) have "exStep (exGw [] [] ConnIdle None (Some (Inr exReply)) JobWaiting) (exGw [] [] ConnIdle None None (JobDone (ChatOK exReply)))"
    by (rule gateway_step.own, rule route_step.receive [of 0]) (simp_all add: exGw_simps receiveResult_def respond_def)
  finally (rtranclp.rtrancl_into_rtrancl) show ?thesis .
qed

section \<open>The worker's pool\<close>

lemma showNat_inject: "showNat a = showNat b \<Longrightarrow> a = b"
  using readNat_showNat by metis

text \<open>
  C15: In every reachable state of the pool a call of \<open>Submit\<close> that returns without an error returns what the backend generated
  for the prompt of this very call, with the index of one of the pool's GPUs and a worker id; whatever the goroutines interleave, no result goes to another call.
\<close>

theorem pool_own_result:
  assumes "(pool_step gen)\<^sup>*\<^sup>* (NewPool wid n) p"
    and "h < length (tasks p)" and "taskStatus (tasks p ! h) = Finished r" and "trErr r = None"
  shows "\<exists>g resp. gen (taskPrompt (tasks p ! h)) (resp, None) \<and> g < gpuCount p \<and> trResponse r = fillResponse (poolWorkerID p) g resp"
  using poolInv_D(8) [OF poolInv_reach [OF assms(1)] assms(2)] assms(3,4) by (fastforce simp: taskOk_def ownResult_def)

theorem pool_own_result_witness:
  "\<exists>g resp. mockGen ''hi'' (resp, None) \<and> g < 1 \<and> trResponse exAnswer = fillResponse ''w'' g resp"
  using pool_own_result [OF exPool_run, of 0 exAnswer] by (simp add: exPool_def exTask_def exAnswer_def)

text \<open>
  The queue of the pool never holds more than 1024 tasks, a task is never on two GPUs or both queued and on a GPU, and a GPU
  loop that has a result can always send it: the channel of the task is empty, also when its caller has gone away.
\<close>

lemma gpu_never_blocks:
  assumes "(pool_step gen)\<^sup>*\<^sup>* (NewPool wid n) p"
  shows "length (queue p) \<le> 1024 \<and> distinct (queue p @ held (gpus p)) \<and>
    (\<forall>g h r. g < length (gpus p) \<longrightarrow> gpus p ! g = Some h \<longrightarrow> gpuFinish g r p \<noteq> None)"
  using poolInv_D(3,4) [OF poolInv_reach [OF assms]] gpuFinish_sends [OF poolInv_reach [OF assms]]
  by (auto simp: defaultQueueCap_def inFlight_def)

text \<open>
  C25: From every reachable state of a pool whose backend answers, the calls in progress come to an end: every run
  without new calls is at most as long as the work left, and when no step is left every call has returned.
\<close>

theorem pool_drains:
  assumes "(pool_step gen)\<^sup>*\<^sup>* (NewPool wid n) p" and "\<forall>prompt. \<exists>r. gen prompt r"
  shows "(\<exists>k p'. (serve_step gen ^^ k) p p' \<and> allAnswered p') \<and>
    (\<forall>k p'. (serve_step gen ^^ k) p p' \<longrightarrow> k \<le> poolWork p \<and> ((\<exists>p''. serve_step gen p' p'') \<or> allAnswered p'))"
proof -
  have inv: "poolInv gen p \<and> (\<forall>prompt. \<exists>r. gen prompt r)" using poolInv_reach [OF assms(1)] assms(2) by blast
  show ?thesis
    using poolDrain.comes_to_rest [of gen, OF inv] poolDrain.work_steps [of _ gen, OF _ inv] poolDrain.stuck_at_rest [of _ gen, OF _ inv]
    by (meson add_leE)
qed

theorem pool_drains_witness:
  "\<exists>k p'. (serve_step mockGen ^^ k) (exPool [] (Some 0) None Waiting) p' \<and> allAnswered p'"
  using pool_drains [OF exPool_computing] by (simp add: mockGen_def)

text \<open>
  As long as fewer than \<open>2 ^ 64\<close> calls were made, no two tasks of a pool have the same id (the counter is
  an \<open>atomic.Uint64\<close> and wraps after that).
\<close>

lemma task_ids_distinct:
  assumes "(pool_step gen)\<^sup>*\<^sup>* (NewPool wid n) p" and "length (tasks p) < 2 ^ 64"
    and "h < k" and "k < length (tasks p)"
  shows "taskID (tasks p ! h) \<noteq> taskID (tasks p ! k)"
proof -
  have "unat (of_nat (Suc h) :: 64 word) \<noteq> unat (of_nat (Suc k) :: 64 word)"
    using assms(2-4) by (simp add: unat_of_nat take_bit_eq_mod del: of_nat_Suc)
  then show ?thesis
    using poolInv_D(7) [OF poolInv_reach [OF assms(1)]] assms(3,4) showNat_inject by auto
qed

section \<open>The gateway\<close>

text \<open>
  C14: In every reachable state of the gateway an answered request has either a reply some worker gave to a request with this
  client's own prompt, or an error with status 502 or 503. No answer goes to another client.
\<close>

theorem gateway_own_reply:
  assumes "(gateway_step gets U posts V)\<^sup>*\<^sup>* (NewGateway url m n) g"
    and "h < length (jobs g)" and "jobStatus (jobs g ! h) = JobDone out"
  shows "(\<exists>resp post w. out = ChatOK resp \<and> post \<in> posts \<and> forwardToWorker post V w (jobPrompt (jobs g ! h)) = Inr resp) \<or>
    (\<exists>err code. out = ChatError err code \<and> code \<in> {502, 503})"
  using gwInv_D(8) [OF gwInv_reach [OF assms(1)] assms(2)] assms(3)
  by (cases out) (auto simp: jobOk_def outOk_def ownReply_def)

theorem gateway_own_reply_witness:
  "\<exists>w. forwardToWorker exPost exDecode w ''hi'' = Inr exReply"
  using gateway_own_reply [OF exGw_run, of 0 "ChatOK exReply"] by (simp add: exGw_def)

text \<open>
  C26: The queues of the gateway stay within 256 and 1024 jobs, and no goroutine of either layer ever blocks on the channel of
  a result: whatever the controller or the worker answered, and also when the dispatch queue is full, it goes on.
\<close>

theorem gateway_never_blocks:
  assumes "(gateway_step gets U posts V)\<^sup>*\<^sup>* (NewGateway url m n) g"
  shows "length (connJobs g) \<le> 256 \<and> length (dispatchJobs g) \<le> 1024 \<and>
    (\<forall>i h r. i < length (connWorkers g) \<longrightarrow> connHeld (connWorkers g ! i) = Some h \<longrightarrow> connPicked i h r g \<noteq> None \<and> connTimeout i h g \<noteq> None) \<and>
    (\<forall>k d r. k < length (dispatchWorkers g) \<longrightarrow> dispatchWorkers g ! k = Some d \<longrightarrow> dispatchFinish k d r g \<noteq> None)"
proof -
  have inv: "gwInv posts V g" using gwInv_reach [OF assms] .
  have "connPicked i h r g \<noteq> None \<and> connTimeout i h g \<noteq> None"
    if "i < length (connWorkers g)" "connHeld (connWorkers g ! i) = Some h" for i h r
    using sendResult_returns [OF inv connHeld_flying [OF that]] by (cases r) (simp_all add: connPicked_def connTimeout_def)
  moreover have "dispatchFinish k d r g \<noteq> None" if "k < length (dispatchWorkers g)" "dispatchWorkers g ! k = Some d" for k d r
    using sendResult_returns [OF inv dispatched_flying [of d]] nth_mem [OF that(1)] that(2)
    by (simp add: dispatchFinish_def dispatched_def)
  ultimately show ?thesis using gwInv_D(3,4) [OF inv] by (simp add: connCap_def dispatchCap_def)
qed

theorem gateway_never_blocks_witness:
  "dispatchFinish 0 exDispatch (Inr exReply) (exGw [] [] ConnIdle (Some exDispatch) None JobWaiting) \<noteq> None"
  using gateway_never_blocks [OF exGw_dispatching] by (simp add: exGw_def)

text \<open>
  C24: From every reachable state of the gateway the requests in progress come to an end, whatever the controller and the
  workers answer: every run without new requests is at most as long as the work left, and when no step is left every
  client has its answer.
\<close>

theorem gateway_drains:
  assumes "(gateway_step gets U posts V)\<^sup>*\<^sup>* (NewGateway url m n) g" and "gets \<noteq> {}" and "posts \<noteq> {}"
  shows "(\<exists>k g'. (route_step gets U posts V ^^ k) g g' \<and> allServed g') \<and>
    (\<forall>k g'. (route_step gets U posts V ^^ k) g g' \<longrightarrow> k \<le> gwWork g \<and> ((\<exists>g''. route_step gets U posts V g' g'') \<or> allServed g'))"
proof -
  have inv: "gwInv posts V g \<and> gets \<noteq> {} \<and> posts \<noteq> {}" using gwInv_reach [OF assms(1)] assms(2,3) by blast
  show ?thesis
    using gatewayDrain.comes_to_rest [OF inv] gatewayDrain.work_steps [OF _ inv] gatewayDrain.stuck_at_rest [OF _ inv]
    by (meson add_leE)
qed

theorem gateway_drains_witness:
  "\<exists>k g'. (route_step {exGet} (\<lambda>raw. Some exWorker) {exPost} exDecode ^^ k) (exGw [] [] ConnIdle (Some exDispatch) None JobWaiting) g' \<and> allServed g'"
  using gateway_drains [OF exGw_dispatching] by blast

end
