(* ===== verification/Bitset.thy ===== *)
theory Bitset
  imports Go_Prelude "HOL-Library.Word"
begin

text \<open>
  The bit sets of the linearizability checker: \<open>src/porcupine/bitset.go\<close>. A set is a slice of 64-bit words; an index outside of
  the slice panics (\<open>None\<close>). The lemmas relate every operation to the set of numbers a slice stands for.
\<close>

unbundle bit_operations_syntax

section \<open>Operations\<close>

type_synonym bitset = "64 word list"

definition newBitset :: "nat \<Rightarrow> bitset" where
  "newBitset bits = (let extra = (if bits mod 64 \<noteq> 0 then 1 else 0); chunks = bits div 64 + extra in replicate chunks 0)"

definition bitsetIndex :: "nat \<Rightarrow> nat \<times> nat" where
  "bitsetIndex pos = (pos div 64, pos mod 64)"

definition bitsetSet :: "bitset \<Rightarrow> nat \<Rightarrow> bitset option" where
  "bitsetSet b pos = (let (major, minor) = bitsetIndex pos in
    if major < length b then Some (b[major := b ! major OR push_bit minor 1]) else None)"

definition bitsetClear :: "bitset \<Rightarrow> nat \<Rightarrow> bitset option" where
  "bitsetClear b pos = (let (major, minor) = bitsetIndex pos in
    if major < length b then Some (b[major := b ! major AND NOT (push_bit minor 1)]) else None)"

definition bitsetGet :: "bitset \<Rightarrow> nat \<Rightarrow> bool option" where
  "bitsetGet b pos = (let (major, minor) = bitsetIndex pos in
    if major < length b then Some (b ! major AND push_bit minor 1 \<noteq> 0) else None)"

text \<open>\<open>bits.OnesCount64\<close>.\<close>

definition onesCount :: "64 word \<Rightarrow> nat" where
  "onesCount w = length (filter (bit w) [0..<64])"

fun popcnt :: "bitset \<Rightarrow> nat" where
  "popcnt [] = 0"
| "popcnt (v # b) = onesCount v + popcnt b"

definition hash :: "bitset \<Rightarrow> 64 word" where
  "hash b = foldl (\<lambda>h v. h XOR v) (of_nat (popcnt b)) b"

fun equalWords :: "bitset \<Rightarrow> bitset \<Rightarrow> bool" where
  "equalWords (v # b) (v' # b') = (if v \<noteq> v' then False else equalWords b b')"
| "equalWords b b' = True"

definition equals :: "bitset \<Rightarrow> bitset \<Rightarrow> bool" where
  "equals b b2 = (if length b \<noteq> length b2 then False else equalWords b b2)"

section \<open>The set a slice stands for\<close>

definition elems :: "bitset \<Rightarrow> nat set" where
  "elems b = {pos. pos div 64 < length b \<and> bit (b ! (pos div 64)) (pos mod 64)}"

lemma bit_one_at: "bit (2 ^ k :: 64 word) j \<longleftrightarrow> j = k \<and> k < 64"
  by (auto simp: bit_exp_iff)

lemma newBitset_elems [simp]: "elems (newBitset n) = {}"
  by (auto simp: elems_def newBitset_def Let_def)

lemma newBitset_room: "pos < n \<Longrightarrow> pos div 64 < length (newBitset n)"
  by (auto simp: newBitset_def Let_def)

lemma bitsetSet_iff: "bitsetSet b pos = Some b' \<longleftrightarrow> pos div 64 < length b \<and> b' = b[pos div 64 := b ! (pos div 64) OR push_bit (pos mod 64) 1]"
  by (auto simp: bitsetSet_def bitsetIndex_def)

lemma bitsetClear_iff:
  "bitsetClear b pos = Some b' \<longleftrightarrow> pos div 64 < length b \<and> b' = b[pos div 64 := b ! (pos div 64) AND NOT (push_bit (pos mod 64) 1)]"
  by (auto simp: bitsetClear_def bitsetIndex_def)

lemma div_mod_inject: "p div 64 = q div 64 \<Longrightarrow> p mod 64 = q mod 64 \<Longrightarrow> p = (q :: nat)"
  by (metis div_mult_mod_eq)

lemma bitsetSet_elems: "bitsetSet b pos = Some b' \<Longrightarrow> length b' = length b \<and> elems b' = insert pos (elems b)"
  by (auto simp: bitsetSet_iff elems_def nth_list_update bit_or_iff bit_one_at dest: div_mod_inject split: if_splits)

lemma bitsetClear_elems: "bitsetClear b pos = Some b' \<Longrightarrow> length b' = length b \<and> elems b' = elems b - {pos}"
  by (auto simp: bitsetClear_iff elems_def nth_list_update bit_and_iff bit_not_iff bit_one_at dest: div_mod_inject split: if_splits)

lemma and_one_at: "(w :: 64 word) AND 2 ^ k \<noteq> 0 \<longleftrightarrow> k < 64 \<and> bit w k"
proof -
  have "w AND 2 ^ k = 0 \<longleftrightarrow> (\<forall>j < 64. \<not> bit (w AND 2 ^ k) j)" using bit_eq_iff [of "w AND 2 ^ k" 0] by simp
  then show ?thesis by (auto simp: bit_and_iff bit_one_at)
qed

lemma bitsetGet_elems: "bitsetGet b pos = Some r \<Longrightarrow> r \<longleftrightarrow> pos \<in> elems b"
  using and_one_at by (auto simp: bitsetGet_def bitsetIndex_def elems_def split: if_splits)

lemma equalWords_iff: "length b = length b' \<Longrightarrow> equalWords b b' \<longleftrightarrow> b = b'"
  by (induction b b' rule: equalWords.induct) auto

lemma equals_eq [simp]: "equals b b' \<longleftrightarrow> b = b'"
  using equalWords_iff by (auto simp: equals_def)

lemma elems_inject: "length b = length b' \<Longrightarrow> elems b = elems b' \<longleftrightarrow> b = b'"
proof
  assume len: "length b = length b'" and e: "elems b = elems b'"
  have "b ! i = b' ! i" if "i < length b" for i
  proof (rule bit_word_eqI)
    fix k assume "k < LENGTH(64)"
    then have k: "(64 * i + k) div 64 = i" "(64 * i + k) mod 64 = k" by simp_all
    show "bit (b ! i) k \<longleftrightarrow> bit (b' ! i) k"
      using e that len k by (auto simp: elems_def set_eq_iff dest: spec [of _ "64 * i + k"])
  qed
  then show "b = b'" using len by (simp add: nth_equalityI)
qed simp

text \<open>The population count is the size of the set.\<close>

lemma length_filter_upt: "length (filter P [0..<n]) = card {k. k < n \<and> P k}"
proof -
  have "card (set (filter P [0..<n])) = length (filter P [0..<n])" by (rule distinct_card) simp
  moreover have "set (filter P [0..<n]) = {k. k < n \<and> P k}" by auto
  ultimately show ?thesis by simp
qed

lemma onesCount_card: "onesCount w = card {k. k < 64 \<and> bit w k}"
  unfolding onesCount_def by (rule length_filter_upt)

lemma elems_Cons: "elems (v # b) = {k. k < 64 \<and> bit v k} \<union> (\<lambda>p. p + 64) ` elems b"
proof (rule set_eqI)
  fix p
  show "p \<in> elems (v # b) \<longleftrightarrow> p \<in> {k. k < 64 \<and> bit v k} \<union> (\<lambda>p. p + 64) ` elems b"
  proof (cases "p < 64")
    case True
    then show ?thesis by (auto simp: elems_def)
  next
    case False
    then obtain q where "p = q + 64" by (metis add.commute le_Suc_ex not_less)
    moreover have "(q + 64) div 64 = Suc (q div 64)" "(q + 64) mod 64 = q mod 64" by simp_all
    ultimately show ?thesis by (auto simp: elems_def image_iff)
  qed
qed

lemma elems_finite [simp]: "finite (elems b)"
  by (induction b) (simp_all add: elems_Cons, simp add: elems_def)

lemma popcnt_card: "popcnt b = card (elems b)"
proof (induction b)
  case (Cons v b)
  have "{k. k < 64 \<and> bit v k} \<inter> (\<lambda>p. p + 64) ` elems b = {}" by auto
  then show ?case using Cons by (simp add: elems_Cons card_Un_disjoint onesCount_card card_image)
qed (simp add: elems_def)

end
