(* ===== verification/Porcupine.thy ===== *)
theory Porcupine
  imports Bitset "HOL-Library.Monad_Syntax"
begin

text \<open>
  The linearizability checker: \<open>src/porcupine/model.go\<close>, \<open>checker.go\<close> and \<open>porcupine.go\<close>. An \<open>interface{}\<close> value of a history is
  an input, an output or nil. Nodes are objects on a heap (their position is the pointer); a nil pointer that is followed, an index out of range
  and a nil function that is called panic (\<open>None\<close>). \<open>kill\<close> says at which turns of the loop the flag is found set, \<open>srt\<close> is
  \<open>sort.Sort\<close>, whose order of equal elements is not specified.
\<close>

section \<open>Histories and models\<close>

datatype ('i, 'o) payload = NilV | InV 'i | OutV 'o

record ('i, 'o) Operation =
  opClientId :: int
  opInput :: 'i
  opCall :: int
  opOutput :: 'o
  opReturn :: int

datatype EventKind = CallEvent | ReturnEvent

record ('i, 'o) Event =
  evClientId :: int
  evKind :: EventKind
  evValue :: "('i, 'o) payload"
  evId :: int

record ('s, 'i, 'o) Model =
  Partition :: "(('i, 'o) Operation list \<Rightarrow> ('i, 'o) Operation list list) option"
  PartitionEvent :: "(('i, 'o) Event list \<Rightarrow> ('i, 'o) Event list list) option"
  Init :: 's
  Step :: "'s \<Rightarrow> 'i \<Rightarrow> 'o \<Rightarrow> bool \<times> 's"
  Equal :: "('s \<Rightarrow> 's \<Rightarrow> bool) option"

definition NoPartition :: "('i, 'o) Operation list \<Rightarrow> ('i, 'o) Operation list list" where
  "NoPartition history = [history]"

definition NoPartitionEvent :: "('i, 'o) Event list \<Rightarrow> ('i, 'o) Event list list" where
  "NoPartitionEvent history = [history]"

definition ShallowEqual :: "'s \<Rightarrow> 's \<Rightarrow> bool" where
  "ShallowEqual state1 state2 \<longleftrightarrow> state1 = state2"

datatype CheckResult = Unknown | Ok | Illegal

definition fillDefault :: "('s, 'i, 'o) Model \<Rightarrow> ('s, 'i, 'o) Model" where
  "fillDefault M = M\<lparr>Partition := (case Partition M of None \<Rightarrow> Some NoPartition | Some p \<Rightarrow> Some p),
     PartitionEvent := (case PartitionEvent M of None \<Rightarrow> Some NoPartitionEvent | Some p \<Rightarrow> Some p),
     Equal := (case Equal M of None \<Rightarrow> Some ShallowEqual | Some eq \<Rightarrow> Some eq)\<rparr>"

section \<open>Entries\<close>

datatype entryKind = callEntry | returnEntry

record ('i, 'o) entry =
  ekind :: entryKind
  evalue :: "('i, 'o) payload"
  eid :: int
  etime :: int
  eclientId :: int

definition entryLess :: "('i, 'o) entry \<Rightarrow> ('i, 'o) entry \<Rightarrow> bool" where
  "entryLess a b = (if etime a \<noteq> etime b then etime a < etime b else ekind a = callEntry \<and> ekind b = returnEntry)"

fun entriesFrom :: "int \<Rightarrow> ('i, 'o) Operation list \<Rightarrow> ('i, 'o) entry list" where
  "entriesFrom k [] = []"
| "entriesFrom k (elem # history) =
    \<lparr>ekind = callEntry, evalue = InV (opInput elem), eid = k, etime = opCall elem, eclientId = opClientId elem\<rparr> #
    \<lparr>ekind = returnEntry, evalue = OutV (opOutput elem), eid = k, etime = opReturn elem, eclientId = opClientId elem\<rparr> #
    entriesFrom (k + 1) history"

definition makeEntries ::
  "(('i, 'o) entry list \<Rightarrow> ('i, 'o) entry list) \<Rightarrow> ('i, 'o) Operation list \<Rightarrow> ('i, 'o) entry list" where
  "makeEntries srt history = srt (entriesFrom 0 history)"

fun renumberFrom :: "(int \<rightharpoonup> int) \<Rightarrow> int \<Rightarrow> ('i, 'o) Event list \<Rightarrow> ('i, 'o) Event list" where
  "renumberFrom m k [] = []"
| "renumberFrom m k (v # events) =
    (case m (evId v) of
       Some r \<Rightarrow> v\<lparr>evId := r\<rparr> # renumberFrom m k events
     | None \<Rightarrow> v\<lparr>evId := k\<rparr> # renumberFrom (m(evId v \<mapsto> k)) (k + 1) events)"

definition renumber :: "('i, 'o) Event list \<Rightarrow> ('i, 'o) Event list" where
  "renumber events = renumberFrom Map.empty 0 events"

fun convertFrom :: "int \<Rightarrow> ('i, 'o) Event list \<Rightarrow> ('i, 'o) entry list" where
  "convertFrom i [] = []"
| "convertFrom i (elem # events) =
    \<lparr>ekind = (if evKind elem = ReturnEvent then returnEntry else callEntry), evalue = evValue elem, eid = evId elem,
     etime = i, eclientId = evClientId elem\<rparr> # convertFrom (i + 1) events"

definition convertEntries :: "('i, 'o) Event list \<Rightarrow> ('i, 'o) entry list" where
  "convertEntries events = convertFrom 0 events"

section \<open>The linked list\<close>

record ('i, 'o) node =
  nvalue :: "('i, 'o) payload"
  nmatch :: "nat option"
  nid :: int
  nnext :: "nat option"
  nprev :: "nat option"

type_synonym ('i, 'o) nodes = "('i, 'o) node list"

definition newNode :: "('i, 'o) payload \<Rightarrow> nat option \<Rightarrow> int \<Rightarrow> ('i, 'o) node" where
  "newNode v mt k = \<lparr>nvalue = v, nmatch = mt, nid = k, nnext = None, nprev = None\<rparr>"

definition nextTo :: "nat \<Rightarrow> nat option \<Rightarrow> ('i, 'o) nodes \<Rightarrow> ('i, 'o) nodes" where
  "nextTo a x h = h[a := (h ! a)\<lparr>nnext := x\<rparr>]"

definition prevTo :: "nat \<Rightarrow> nat option \<Rightarrow> ('i, 'o) nodes \<Rightarrow> ('i, 'o) nodes" where
  "prevTo a x h = h[a := (h ! a)\<lparr>nprev := x\<rparr>]"

definition insertBefore :: "nat \<Rightarrow> nat option \<Rightarrow> ('i, 'o) nodes \<Rightarrow> ('i, 'o) nodes" where
  "insertBefore n mark h = (case mark of
     None \<Rightarrow> h
   | Some k \<Rightarrow>
       let beforeMark = nprev (h ! k);
           h = prevTo k (Some n) h;
           h = nextTo n (Some k) h
       in case beforeMark of
         None \<Rightarrow> h
       | Some b \<Rightarrow> let h = prevTo n (Some b) h in nextTo b (Some n) h)"

partial_function (option) nodeLength :: "('i, 'o) nodes \<Rightarrow> nat option \<Rightarrow> nat \<Rightarrow> nat option" where
  "nodeLength h n l = (case n of None \<Rightarrow> Some l | Some a \<Rightarrow> nodeLength h (nnext (h ! a)) (l + 1))"

text \<open>The loop runs from the last entry to the first one.\<close>

fun linkLoop :: "('i, 'o) entry list \<Rightarrow> ('i, 'o) nodes \<Rightarrow> nat option \<Rightarrow> (int \<rightharpoonup> nat) \<Rightarrow> ('i, 'o) nodes \<times> nat option" where
  "linkLoop [] h root mtch = (h, root)"
| "linkLoop (elem # es) h root mtch =
    (let n = length h in
     if ekind elem = returnEntry
     then linkLoop es (insertBefore n root (h @ [newNode (evalue elem) None (eid elem)])) (Some n) (mtch(eid elem \<mapsto> n))
     else linkLoop es (insertBefore n root (h @ [newNode (evalue elem) (mtch (eid elem)) (eid elem)])) (Some n) mtch)"

definition makeLinkedEntries :: "('i, 'o) entry list \<Rightarrow> ('i, 'o) nodes \<times> nat option" where
  "makeLinkedEntries entries = linkLoop (rev entries) [] None Map.empty"

definition lift :: "nat \<Rightarrow> ('i, 'o) nodes \<Rightarrow> ('i, 'o) nodes option" where
  "lift e h = do {
     p \<leftarrow> nprev (h ! e);
     let h = nextTo p (nnext (h ! e)) h;
     n \<leftarrow> nnext (h ! e);
     let h = prevTo n (nprev (h ! e)) h;
     mt \<leftarrow> nmatch (h ! e);
     q \<leftarrow> nprev (h ! mt);
     let h = nextTo q (nnext (h ! mt)) h;
     Some (case nnext (h ! mt) of None \<Rightarrow> h | Some x \<Rightarrow> prevTo x (nprev (h ! mt)) h) }"

definition unlift :: "nat \<Rightarrow> ('i, 'o) nodes \<Rightarrow> ('i, 'o) nodes option" where
  "unlift e h = do {
     mt \<leftarrow> nmatch (h ! e);
     q \<leftarrow> nprev (h ! mt);
     let h = nextTo q (Some mt) h;
     let h = (case nnext (h ! mt) of None \<Rightarrow> h | Some x \<Rightarrow> prevTo x (Some mt) h);
     p \<leftarrow> nprev (h ! e);
     let h = nextTo p (Some e) h;
     n \<leftarrow> nnext (h ! e);
     Some (prevTo n (Some e) h) }"

section \<open>The search\<close>

text \<open>A slice that \<open>longest\<close> points to: the number of its allocation and its elements.\<close>

type_synonym seq_ptr = "nat \<times> int list"

record ('s, 'i, 'o) search =
  nodes :: "('i, 'o) nodes"
  cur :: "nat option"
  linearized :: bitset
  cache :: "64 word \<Rightarrow> (bitset \<times> 's) list"
  calls :: "(nat \<times> 's) list"
  sstate :: 's
  longest :: "seq_ptr option list"
  allocs :: nat

fun cacheScan :: "('s \<Rightarrow> 's \<Rightarrow> bool) option \<Rightarrow> bitset \<Rightarrow> 's \<Rightarrow> (bitset \<times> 's) list \<Rightarrow> bool option" where
  "cacheScan eq lin st [] = Some False"
| "cacheScan eq lin st ((l, s) # es) =
    (if equals lin l
     then (case eq of None \<Rightarrow> None | Some f \<Rightarrow> if f st s then Some True else cacheScan eq lin st es)
     else cacheScan eq lin st es)"

definition cacheContains :: "('s, 'i, 'o) Model \<Rightarrow> (64 word \<Rightarrow> (bitset \<times> 's) list) \<Rightarrow> bitset \<times> 's \<Rightarrow> bool option" where
  "cacheContains M c entry = cacheScan (Equal M) (fst entry) (snd entry) (c (hash (fst entry)))"

text \<open>One pass over \<open>calls\<close> for the longest prefixes; \<open>seq\<close> is made from all calls.\<close>

fun noteLongest :: "seq_ptr \<Rightarrow> nat list \<Rightarrow> seq_ptr option list \<Rightarrow> seq_ptr option list option" where
  "noteLongest sq [] lg = Some lg"
| "noteLongest sq (k # ks) lg = do {
     old \<leftarrow> idx lg (int k);
     (if (case old of None \<Rightarrow> True | Some (p, s) \<Rightarrow> length (snd sq) > length s)
      then noteLongest sq ks (lg[k := Some sq])
      else noteLongest sq ks lg) }"

definition callIds :: "('i, 'o) nodes \<Rightarrow> (nat \<times> 's) list \<Rightarrow> int list" where
  "callIds h cs = map (\<lambda>v. nid (h ! fst v)) cs"

text \<open>The body of the loop, after the test of \<open>kill\<close>: the next state, or the value that is returned.\<close>

definition tryCall ::
  "('s, 'i, 'o) Model \<Rightarrow> nat \<Rightarrow> nat \<Rightarrow> nat \<Rightarrow> ('s, 'i, 'o) search \<Rightarrow> ('s, 'i, 'o) search option" where
  "tryCall M headEntry e matching st =
    (case (nvalue (nodes st ! e), nvalue (nodes st ! matching)) of
       (InV i, OutV out) \<Rightarrow>
         let (ok, newState) = Step M (sstate st) i out; k = nat (nid (nodes st ! e)) in
         if ok then do {
           newLinearized \<leftarrow> bitsetSet (linearized st) k;
           contained \<leftarrow> cacheContains M (cache st) (newLinearized, newState);
           (if \<not> contained then do {
              let hsh = hash newLinearized;
              lin \<leftarrow> bitsetSet (linearized st) k;
              h \<leftarrow> lift e (nodes st);
              Some (st\<lparr>nodes := h, cur := nnext (h ! headEntry), linearized := lin,
                cache := (cache st)(hsh := cache st hsh @ [(newLinearized, newState)]),
                calls := calls st @ [(e, sstate st)], sstate := newState\<rparr>) }
            else Some (st\<lparr>cur := nnext (nodes st ! e)\<rparr>)) }
         else Some (st\<lparr>cur := nnext (nodes st ! e)\<rparr>)
     | _ \<Rightarrow> None)"

definition backtrack :: "bool \<Rightarrow> ('s, 'i, 'o) search \<Rightarrow> ('s, 'i, 'o) search option" where
  "backtrack computePartial st = do {
     lg \<leftarrow> (if computePartial
            then noteLongest (allocs st, callIds (nodes st) (calls st)) (map nat (callIds (nodes st) (calls st))) (longest st)
            else Some (longest st));
     let (e, s) = last (calls st);
     lin \<leftarrow> bitsetClear (linearized st) (nat (nid (nodes st ! e)));
     h \<leftarrow> unlift e (nodes st);
     Some (st\<lparr>nodes := h, cur := nnext (h ! e), linearized := lin, calls := butlast (calls st), sstate := s, longest := lg,
       allocs := allocs st + (if computePartial then 1 else 0)\<rparr>) }"

definition checkStep ::
  "('s, 'i, 'o) Model \<Rightarrow> bool \<Rightarrow> nat \<Rightarrow> ('s, 'i, 'o) search \<Rightarrow> (('s, 'i, 'o) search + bool \<times> seq_ptr option list) option" where
  "checkStep M computePartial headEntry st = do {
     e \<leftarrow> cur st;
     (case nmatch (nodes st ! e) of
        Some matching \<Rightarrow> map_option Inl (tryCall M headEntry e matching st)
      | None \<Rightarrow>
          if calls st = [] then Some (Inr (False, longest st))
          else map_option Inl (backtrack computePartial st)) }"

definition complete :: "nat \<Rightarrow> ('s, 'i, 'o) search \<Rightarrow> bool \<times> seq_ptr option list" where
  "complete n st = (True, replicate n (Some (allocs st, callIds (nodes st) (calls st))))"

partial_function (option) checkLoop ::
  "('s, 'i, 'o) Model \<Rightarrow> bool \<Rightarrow> (nat \<Rightarrow> bool) \<Rightarrow> nat \<Rightarrow> nat \<Rightarrow> nat \<Rightarrow> ('s, 'i, 'o) search \<Rightarrow> (bool \<times> seq_ptr option list) option" where
  "checkLoop M computePartial kill headEntry n turn st =
    (if nnext (nodes st ! headEntry) = None then Some (complete n st)
     else if kill turn then Some (False, longest st)
     else do {
       r \<leftarrow> checkStep M computePartial headEntry st;
       (case r of Inl st' \<Rightarrow> checkLoop M computePartial kill headEntry n (turn + 1) st' | Inr res \<Rightarrow> Some res) })"

definition checkSingle ::
  "('s, 'i, 'o) Model \<Rightarrow> ('i, 'o) entry list \<Rightarrow> bool \<Rightarrow> (nat \<Rightarrow> bool) \<Rightarrow> (bool \<times> seq_ptr option list) option" where
  "checkSingle M history computePartial kill = do {
     let (h, entry) = makeLinkedEntries history;
     l \<leftarrow> nodeLength h entry 0;
     let n = l div 2;
     let headEntry = length h;
     let h = insertBefore headEntry entry (h @ [newNode NilV None (- 1)]);
     checkLoop M computePartial kill headEntry n 0
       \<lparr>nodes = h, cur = entry, linearized = newBitset n, cache = (\<lambda>k. []), calls = [], sstate = Init M,
        longest = replicate n None, allocs = 0\<rparr> }"

section \<open>All partitions\<close>

text \<open>
  What the main goroutine of \<open>checkParallel\<close> receives: the result of a partition, or the timer. Results arrive in any order. \<open>kill i\<close> is what
  the goroutine of partition \<open>i\<close> finds in the flag. \<open>None\<close> is a call that still waits after these arrivals.
\<close>

datatype arrival = ResultOf nat | TimerFired

fun collect :: "bool \<Rightarrow> bool list \<Rightarrow> bool \<Rightarrow> nat \<Rightarrow> arrival list \<Rightarrow> (bool \<times> bool) option" where
  "collect computeInfo results ok count [] = None"
| "collect computeInfo results ok count (TimerFired # as) = Some (ok, True)"
| "collect computeInfo results ok count (ResultOf i # as) =
    (let ok = ok \<and> results ! i; count = count + 1 in
     if \<not> ok \<and> \<not> computeInfo then Some (ok, False)
     else if count \<ge> length results then Some (ok, False)
     else collect computeInfo results ok count as)"

definition verdict :: "bool \<times> bool \<Rightarrow> CheckResult" where
  "verdict r = (let (ok, timedOut) = r in if \<not> ok then Illegal else if timedOut then Unknown else Ok)"

fun runAll ::
  "('s, 'i, 'o) Model \<Rightarrow> bool \<Rightarrow> (nat \<Rightarrow> nat \<Rightarrow> bool) \<Rightarrow> nat \<Rightarrow> ('i, 'o) entry list list \<Rightarrow> (bool \<times> seq_ptr option list) list option" where
  "runAll M computeInfo kill i [] = Some []"
| "runAll M computeInfo kill i (sub # history) = do {
     r \<leftarrow> checkSingle M sub computeInfo (kill i);
     rs \<leftarrow> runAll M computeInfo kill (i + 1) history;
     Some (r # rs) }"

text \<open>The partial linearizations of a partition: the slices \<open>longest\<close> points to, each pointer once.\<close>

definition partials :: "seq_ptr option list \<Rightarrow> seq_ptr set" where
  "partials lg = set (concat (map (\<lambda>v. case v of None \<Rightarrow> [] | Some p \<Rightarrow> [p]) lg))"

record ('i, 'o) linearizationInfo =
  liHistory :: "('i, 'o) entry list list"
  partialLinearizations :: "seq_ptr set list"

definition checkParallel ::
  "('s, 'i, 'o) Model \<Rightarrow> ('i, 'o) entry list list \<Rightarrow> bool \<Rightarrow> (nat \<Rightarrow> nat \<Rightarrow> bool) \<Rightarrow> arrival list \<Rightarrow>
   (CheckResult \<times> ('i, 'o) linearizationInfo) option" where
  "checkParallel M history computeInfo kill arrivals = do {
     rs \<leftarrow> runAll M computeInfo kill 0 history;
     r \<leftarrow> collect computeInfo (map fst rs) True 0 arrivals;
     Some (verdict r,
       if computeInfo then \<lparr>liHistory = history, partialLinearizations = map (partials \<circ> snd) rs\<rparr>
       else \<lparr>liHistory = [], partialLinearizations = []\<rparr>) }"

definition checkEvents ::
  "('s, 'i, 'o) Model \<Rightarrow> ('i, 'o) Event list \<Rightarrow> bool \<Rightarrow> (nat \<Rightarrow> nat \<Rightarrow> bool) \<Rightarrow> arrival list \<Rightarrow>
   (CheckResult \<times> ('i, 'o) linearizationInfo) option" where
  "checkEvents M history verbose kill arrivals = do {
     let M = fillDefault M;
     p \<leftarrow> PartitionEvent M;
     checkParallel M (map (\<lambda>sub. convertEntries (renumber sub)) (p history)) verbose kill arrivals }"

definition checkOperations ::
  "(('i, 'o) entry list \<Rightarrow> ('i, 'o) entry list) \<Rightarrow> ('s, 'i, 'o) Model \<Rightarrow> ('i, 'o) Operation list \<Rightarrow> bool \<Rightarrow> (nat \<Rightarrow> nat \<Rightarrow> bool) \<Rightarrow> arrival list \<Rightarrow>
   (CheckResult \<times> ('i, 'o) linearizationInfo) option" where
  "checkOperations srt M history verbose kill arrivals = do {
     let M = fillDefault M;
     p \<leftarrow> Partition M;
     checkParallel M (map (makeEntries srt) (p history)) verbose kill arrivals }"

definition CheckOperations ::
  "(('i, 'o) entry list \<Rightarrow> ('i, 'o) entry list) \<Rightarrow> ('s, 'i, 'o) Model \<Rightarrow> ('i, 'o) Operation list \<Rightarrow> (nat \<Rightarrow> nat \<Rightarrow> bool) \<Rightarrow> arrival list \<Rightarrow> bool option" where
  "CheckOperations srt M history kill arrivals = map_option (\<lambda>r. fst r = Ok) (checkOperations srt M history False kill arrivals)"

definition CheckOperationsTimeout ::
  "(('i, 'o) entry list \<Rightarrow> ('i, 'o) entry list) \<Rightarrow> ('s, 'i, 'o) Model \<Rightarrow> ('i, 'o) Operation list \<Rightarrow> (nat \<Rightarrow> nat \<Rightarrow> bool) \<Rightarrow> arrival list \<Rightarrow> CheckResult option" where
  "CheckOperationsTimeout srt M history kill arrivals = map_option fst (checkOperations srt M history False kill arrivals)"

definition CheckOperationsVerbose ::
  "(('i, 'o) entry list \<Rightarrow> ('i, 'o) entry list) \<Rightarrow> ('s, 'i, 'o) Model \<Rightarrow> ('i, 'o) Operation list \<Rightarrow> (nat \<Rightarrow> nat \<Rightarrow> bool) \<Rightarrow> arrival list \<Rightarrow>
   (CheckResult \<times> ('i, 'o) linearizationInfo) option" where
  "CheckOperationsVerbose srt M history kill arrivals = checkOperations srt M history True kill arrivals"

definition CheckEvents :: "('s, 'i, 'o) Model \<Rightarrow> ('i, 'o) Event list \<Rightarrow> (nat \<Rightarrow> nat \<Rightarrow> bool) \<Rightarrow> arrival list \<Rightarrow> bool option" where
  "CheckEvents M history kill arrivals = map_option (\<lambda>r. fst r = Ok) (checkEvents M history False kill arrivals)"

definition CheckEventsTimeout :: "('s, 'i, 'o) Model \<Rightarrow> ('i, 'o) Event list \<Rightarrow> (nat \<Rightarrow> nat \<Rightarrow> bool) \<Rightarrow> arrival list \<Rightarrow> CheckResult option" where
  "CheckEventsTimeout M history kill arrivals = map_option fst (checkEvents M history False kill arrivals)"

definition CheckEventsVerbose ::
  "('s, 'i, 'o) Model \<Rightarrow> ('i, 'o) Event list \<Rightarrow> (nat \<Rightarrow> nat \<Rightarrow> bool) \<Rightarrow> arrival list \<Rightarrow> (CheckResult \<times> ('i, 'o) linearizationInfo) option" where
  "CheckEventsVerbose M history kill arrivals = checkEvents M history True kill arrivals"

end
