(* ===== verification/Porcupine_List.thy ===== *)
theory Porcupine_List
  imports Porcupine
begin

text \<open>
  The doubly linked list of the checker. \<open>linked h xs\<close> says that the heap \<open>h\<close> links the nodes \<open>xs\<close> in this order. Lifting a call takes it
  and its return out of the list, unlifting restores the very heap from before, and \<open>makeLinkedEntries\<close> links the entries of a history.
\<close>

section \<open>Fields\<close>

named_theorems node_sel

lemma set_length [node_sel]: "length (nextTo a x h) = length h" "length (prevTo a x h) = length h"
  by (simp_all add: nextTo_def prevTo_def)

lemma nextTo_nth: "nextTo a x h ! b = (if a = b \<and> a < length h then (h ! b)\<lparr>nnext := x\<rparr> else h ! b)"
  by (cases "a < length h"; cases "a = b") (simp_all add: nextTo_def list_update_beyond)

lemma prevTo_nth: "prevTo a x h ! b = (if a = b \<and> a < length h then (h ! b)\<lparr>nprev := x\<rparr> else h ! b)"
  by (cases "a < length h"; cases "a = b") (simp_all add: prevTo_def list_update_beyond)

lemma next_set [node_sel]:
  "nnext (nextTo a x h ! b) = (if a = b \<and> a < length h then x else nnext (h ! b))" "nnext (prevTo a x h ! b) = nnext (h ! b)"
  by (simp_all add: nextTo_nth prevTo_nth)

lemma prev_set [node_sel]:
  "nprev (prevTo a x h ! b) = (if a = b \<and> a < length h then x else nprev (h ! b))" "nprev (nextTo a x h ! b) = nprev (h ! b)"
  by (simp_all add: nextTo_nth prevTo_nth)

lemma data_set [node_sel]:
  "nvalue (nextTo a x h ! b) = nvalue (h ! b)" "nmatch (nextTo a x h ! b) = nmatch (h ! b)" "nid (nextTo a x h ! b) = nid (h ! b)"
  "nvalue (prevTo a x h ! b) = nvalue (h ! b)" "nmatch (prevTo a x h ! b) = nmatch (h ! b)" "nid (prevTo a x h ! b) = nid (h ! b)"
  by (simp_all add: nextTo_nth prevTo_nth)

lemma node_heap_eqI:
  assumes "length h = length h'" and "\<And>a. a < length h \<Longrightarrow> nnext (h ! a) = nnext (h' ! a) \<and> nprev (h ! a) = nprev (h' ! a) \<and>
    nvalue (h ! a) = nvalue (h' ! a) \<and> nmatch (h ! a) = nmatch (h' ! a) \<and> nid (h ! a) = nid (h' ! a)"
  shows "h = (h' :: ('i, 'o) nodes)"
  using assms by (intro nth_equalityI node.equality) simp_all

text \<open>What a node carries, apart from its place in the list.\<close>

definition sameData :: "('i, 'o) nodes \<Rightarrow> ('i, 'o) nodes \<Rightarrow> bool" where
  "sameData h h' \<longleftrightarrow> length h = length h' \<and>
     (\<forall>a. nvalue (h ! a) = nvalue (h' ! a) \<and> nmatch (h ! a) = nmatch (h' ! a) \<and> nid (h ! a) = nid (h' ! a))"

lemma sameData_refl [simp]: "sameData h h"
  by (simp add: sameData_def)

lemma sameData_trans: "sameData h h' \<Longrightarrow> sameData h' h'' \<Longrightarrow> sameData h h''"
  by (simp add: sameData_def)

section \<open>Lists\<close>

fun linked :: "('i, 'o) nodes \<Rightarrow> nat list \<Rightarrow> bool" where
  "linked h [] \<longleftrightarrow> True"
| "linked h [a] \<longleftrightarrow> nnext (h ! a) = None"
| "linked h (a # b # xs) \<longleftrightarrow> nnext (h ! a) = Some b \<and> nprev (h ! b) = Some a \<and> linked h (b # xs)"

lemma linked_cong:
  "(\<And>a. a \<in> set xs \<Longrightarrow> nnext (h' ! a) = nnext (h ! a)) \<Longrightarrow> (\<And>a. a \<in> set (tl xs) \<Longrightarrow> nprev (h' ! a) = nprev (h ! a)) \<Longrightarrow>
   linked h' xs = linked h xs"
  by (induction h xs rule: linked.induct) auto

lemma linked_tl: "linked h (a # xs) \<Longrightarrow> linked h xs"
  by (cases xs) auto

lemma linked_append: "linked h (xs @ ys) \<Longrightarrow> linked h ys"
  by (induction xs) (auto dest: linked_tl)

lemma linked_next: "linked h (xs @ a # ys) \<Longrightarrow> nnext (h ! a) = (case ys of [] \<Rightarrow> None | b # _ \<Rightarrow> Some b)"
  by (drule linked_append) (cases ys; simp)

lemma linked_prev: "linked h (xs @ [p] @ a # ys) \<Longrightarrow> nprev (h ! a) = Some p \<and> nnext (h ! p) = Some a"
  by (drule linked_append) simp

section \<open>Taking a node out\<close>

definition unlink :: "nat \<Rightarrow> ('i, 'o) nodes \<Rightarrow> ('i, 'o) nodes" where
  "unlink x h =
    (let h' = nextTo (the (nprev (h ! x))) (nnext (h ! x)) h in
     case nnext (h' ! x) of None \<Rightarrow> h' | Some n \<Rightarrow> prevTo n (nprev (h' ! x)) h')"

definition relink :: "nat \<Rightarrow> ('i, 'o) nodes \<Rightarrow> ('i, 'o) nodes" where
  "relink x h =
    (let h' = nextTo (the (nprev (h ! x))) (Some x) h in
     case nnext (h' ! x) of None \<Rightarrow> h' | Some n \<Rightarrow> prevTo n (Some x) h')"

lemma unlink_data: "sameData (unlink x h) h"
  by (auto simp: sameData_def unlink_def Let_def node_sel split: option.split)

lemma unlink_linked:
  assumes "linked h (xs @ p # x # ys)" and "distinct (xs @ p # x # ys)" and "set (xs @ p # x # ys) \<subseteq> {..<length h}"
  shows "linked (unlink x h) (xs @ p # ys)"
  using assms
proof (induction xs)
  case Nil
  then have p: "nprev (h ! x) = Some p" "nnext (h ! p) = Some x" "linked h (x # ys)" "p \<noteq> x" by auto
  show ?case
  proof (cases ys)
    case Nil
    then show ?thesis using p Nil.prems by (auto simp: unlink_def Let_def node_sel)
  next
    case (Cons n zs)
    then have u: "unlink x h = prevTo n (Some p) (nextTo p (Some n) h)"
      using p by (auto simp: unlink_def Let_def node_sel)
    have "linked (unlink x h) (n # zs) = linked h (n # zs)"
      unfolding u by (rule linked_cong) (use Nil.prems Cons in \<open>auto simp: node_sel\<close>)
    then show ?thesis using Nil.prems Cons p by (simp add: u node_sel)
  qed
next
  case (Cons a xs)
  obtain b zs where b: "xs @ p # ys = b # zs" by (cases xs) auto
  then obtain zs' where b': "xs @ p # x # ys = b # zs'" by (cases xs) auto
  have ab: "nnext (h ! a) = Some b" "nprev (h ! b) = Some a" "linked h (xs @ p # x # ys)" using Cons.prems(1) b' by simp_all
  have px: "nprev (h ! x) = Some p" using linked_prev [of h "a # xs" p x ys] Cons.prems(1) by simp
  have nx: "nnext (h ! x) = (case ys of [] \<Rightarrow> None | n # _ \<Rightarrow> Some n)" using linked_next [of h "a # xs @ [p]" x ys] Cons.prems(1) by simp
  have "a \<noteq> p" "b \<notin> set ys" "a \<noteq> x" "p \<noteq> x" using Cons.prems(2) b b' by (cases xs; auto)+
  then have "nnext (unlink x h ! a) = Some b" "nprev (unlink x h ! b) = Some a"
    using ab px nx by (cases ys; auto simp: unlink_def Let_def node_sel)+
  moreover have "linked (unlink x h) (xs @ p # ys)" using Cons.IH [OF ab(3)] Cons.prems(2,3) by simp
  ultimately show ?case using b by simp
qed

lemma relink_unlink:
  assumes "linked h (xs @ p # x # ys)" and "distinct (xs @ p # x # ys)"
  shows "relink x (unlink x h) = h"
proof -
  have p: "nprev (h ! x) = Some p" "nnext (h ! p) = Some x" "p \<noteq> x"
    using linked_prev [of h xs p x ys] assms by auto
  have nx: "nnext (h ! x) = (case ys of [] \<Rightarrow> None | n # _ \<Rightarrow> Some n)" using linked_next [of h "xs @ [p]" x ys] assms(1) by simp
  show ?thesis
  proof (cases ys)
    case Nil
    then show ?thesis using p nx by (intro node_heap_eqI) (auto simp: unlink_def relink_def Let_def node_sel)
  next
    case (Cons n zs)
    have "nprev (h ! n) = Some x" "n \<noteq> x" using linked_prev [of h "xs @ [p]" x n zs] assms Cons by auto
    then show ?thesis using p nx Cons by (intro node_heap_eqI) (auto simp: unlink_def relink_def Let_def node_sel)
  qed
qed

section \<open>Lifting\<close>

lemma lift_unlink:
  assumes "nprev (h ! e) = Some p" and "nnext (h ! e) = Some n" and "nmatch (h ! e) = Some m" and "e \<noteq> p" and "nprev (unlink e h ! m) = Some q"
  shows "lift e h = Some (unlink m (unlink e h))"
proof -
  have u: "unlink e h = prevTo n (Some p) (nextTo p (Some n) h)" using assms(1,2,4) by (simp add: unlink_def Let_def node_sel)
  have s: "nnext (nextTo p (Some n) h ! e) = Some n" "nprev (nextTo p (Some n) h ! e) = Some p"
    using assms(1,2,4) by (simp_all add: node_sel)
  have "lift e h = do { mt \<leftarrow> nmatch (unlink e h ! e); q \<leftarrow> nprev (unlink e h ! mt);
      let h' = nextTo q (nnext (unlink e h ! mt)) (unlink e h);
      Some (case nnext (h' ! mt) of None \<Rightarrow> h' | Some x \<Rightarrow> prevTo x (nprev (h' ! mt)) h') }"
    unfolding u lift_def Let_def assms(1,2) Option.bind_lunit s by (rule refl)
  moreover have "nmatch (unlink e h ! e) = Some m" using assms(3) unlink_data [of e h] by (simp add: sameData_def)
  ultimately show ?thesis using assms(5) by (simp add: unlink_def [of m] Let_def)
qed

lemma unlift_relink:
  assumes "nmatch (h ! e) = Some m" and "nprev (h ! m) = Some q" and "nprev (relink m h ! e) = Some p" and "nnext (relink m h ! e) = Some n"
    and "e \<noteq> p"
  shows "unlift e h = Some (relink e (relink m h))"
proof -
  have r: "relink m h = (let h' = nextTo q (Some m) h in case nnext (h' ! m) of None \<Rightarrow> h' | Some x \<Rightarrow> prevTo x (Some m) h')"
    using assms(2) by (simp add: relink_def)
  have "relink e (relink m h) = prevTo n (Some e) (nextTo p (Some e) (relink m h))"
    using assms(3-5) by (simp add: relink_def [of e] Let_def node_sel)
  then show ?thesis using assms r by (simp add: unlift_def Let_def node_sel)
qed

lemma lift_spec:
  assumes l: "linked h (xs @ p # e # ys @ m # zs)" and d: "distinct (xs @ p # e # ys @ m # zs)"
    and b: "set (xs @ p # e # ys @ m # zs) \<subseteq> {..<length h}" and m: "nmatch (h ! e) = Some m"
  shows "\<exists>h'. lift e h = Some h' \<and> linked h' (xs @ p # ys @ zs) \<and> sameData h' h \<and> unlift e h' = Some h"
proof -
  let ?h1 = "unlink e h"
  let ?h2 = "unlink m ?h1"
  have ep: "e \<noteq> p" "e \<noteq> m" using d by auto
  have e: "nprev (h ! e) = Some p" "nnext (h ! e) = Some (hd (ys @ [m]))"
    using linked_prev [of h xs p e "ys @ m # zs"] linked_next [of h "xs @ [p]" e "ys @ m # zs"] l by (cases ys; simp)+
  obtain us q where q: "xs @ p # ys = us @ [q]" by (cases "xs @ p # ys" rule: rev_cases) auto
  then have split: "xs @ p # ys @ R = us @ q # R" for R by (metis append.assoc append_Cons append_Nil)
  have l1: "linked ?h1 (us @ q # m # zs)" using unlink_linked [OF l d b] split by simp
  have d1: "distinct (us @ q # m # zs)" "set (us @ q # m # zs) \<subseteq> {..<length ?h1}"
    using d b unlink_data [of e h] unfolding split [symmetric] by (auto simp: sameData_def)
  have pm: "nprev (?h1 ! m) = Some q" using linked_prev [of ?h1 us q m zs] l1 by simp
  have e1: "nprev (?h1 ! e) = Some p" "nnext (?h1 ! e) = Some (hd (ys @ [m]))"
    using e ep d by (cases ys; simp add: unlink_def Let_def node_sel)+
  have data: "sameData ?h2 h" using sameData_trans [OF unlink_data unlink_data] .
  have pm2: "nprev (?h2 ! m) = Some q"
    using pm linked_next [of ?h1 "us @ [q]" m zs] l1 d1(1) by (cases zs) (simp_all add: unlink_def Let_def node_sel)
  have r: "relink m ?h2 = ?h1" using relink_unlink [OF l1 d1(1)] .
  have "unlift e ?h2 = Some (relink e (relink m ?h2))"
    by (rule unlift_relink [of _ _ m q p "hd (ys @ [m])"]) (use data m pm2 e1 r ep in \<open>simp_all add: sameData_def\<close>)
  then have "unlift e ?h2 = Some h" using r relink_unlink [OF l d] by simp
  moreover have "linked ?h2 (xs @ p # ys @ zs)" using unlink_linked [OF l1 d1] by (simp only: split)
  ultimately show ?thesis using lift_unlink [OF e m ep(1) pm] data by blast
qed

section \<open>Building the list\<close>

lemma insertBefore_root:
  assumes len: "length h = n" and root: "root = (if n = 0 then None else Some (n - 1))"
    and l: "linked h (rev [0..<n])" and p: "0 < n \<Longrightarrow> nprev (h ! (n - 1)) = None"
    and x: "nnext x = None" "nprev x = None" and h': "h' = insertBefore n root (h @ [x])"
  shows "length h' = Suc n" "linked h' (rev [0..<Suc n])" "nprev (h' ! n) = None"
    "\<And>a. a \<le> n \<Longrightarrow> nvalue (h' ! a) = nvalue ((h @ [x]) ! a) \<and> nmatch (h' ! a) = nmatch ((h @ [x]) ! a) \<and> nid (h' ! a) = nid ((h @ [x]) ! a)"
proof -
  have "length h' = Suc n \<and> linked h' (rev [0..<Suc n]) \<and> nprev (h' ! n) = None \<and>
    (\<forall>a \<le> n. nvalue (h' ! a) = nvalue ((h @ [x]) ! a) \<and> nmatch (h' ! a) = nmatch ((h @ [x]) ! a) \<and> nid (h' ! a) = nid ((h @ [x]) ! a))"
  proof (cases n)
    case 0
    then show ?thesis using x len root h' by (simp add: insertBefore_def)
  next
    case (Suc k)
    have e: "h' = nextTo n (Some k) (prevTo k (Some n) (h @ [x]))"
      using root p len h' Suc by (simp add: insertBefore_def nth_append)
    have "linked h' (rev [0..<Suc k]) = linked h (rev [0..<Suc k])"
      unfolding e by (rule linked_cong) (use len Suc in \<open>auto simp: node_sel nth_append\<close>)
    then show ?thesis using l len Suc x by (simp add: e node_sel nth_append)
  qed
  then show "length h' = Suc n" "linked h' (rev [0..<Suc n])" "nprev (h' ! n) = None"
    "\<And>a. a \<le> n \<Longrightarrow> nvalue (h' ! a) = nvalue ((h @ [x]) ! a) \<and> nmatch (h' ! a) = nmatch ((h @ [x]) ! a) \<and> nid (h' ! a) = nid ((h @ [x]) ! a)"
    by simp_all
qed

text \<open>Entry \<open>a\<close> of the reversed history becomes node \<open>a\<close>.\<close>

definition lastReturn :: "('i, 'o) entry list \<Rightarrow> int \<Rightarrow> nat option" where
  "lastReturn es i =
    (let bs = filter (\<lambda>b. ekind (es ! b) = returnEntry \<and> eid (es ! b) = i) [0..<length es] in if bs = [] then None else Some (last bs))"

lemma lastReturn_Nil [simp]: "lastReturn [] i = None"
  by (simp add: lastReturn_def)

lemma lastReturn_snoc: "lastReturn (es @ [x]) i = (if ekind x = returnEntry \<and> eid x = i then Some (length es) else lastReturn es i)"
proof -
  have "filter (\<lambda>b. ekind ((es @ [x]) ! b) = returnEntry \<and> eid ((es @ [x]) ! b) = i) [0..<length es] =
      filter (\<lambda>b. ekind (es ! b) = returnEntry \<and> eid (es ! b) = i) [0..<length es]"
    by (rule filter_cong) (simp_all add: nth_append)
  then show ?thesis by (simp add: lastReturn_def Let_def)
qed

definition linkInv :: "('i, 'o) entry list \<Rightarrow> ('i, 'o) nodes \<Rightarrow> nat option \<Rightarrow> (int \<rightharpoonup> nat) \<Rightarrow> bool" where
  "linkInv es h root mtch \<longleftrightarrow> length h = length es \<and> root = (if length es = 0 then None else Some (length es - 1)) \<and>
     linked h (rev [0..<length es]) \<and> (0 < length es \<longrightarrow> nprev (h ! (length es - 1)) = None) \<and> mtch = lastReturn es \<and>
     (\<forall>a < length es. nvalue (h ! a) = evalue (es ! a) \<and> nid (h ! a) = eid (es ! a) \<and>
        nmatch (h ! a) = (if ekind (es ! a) = returnEntry then None else lastReturn (take a es) (eid (es ! a))))"

lemma linkInv_snoc:
  assumes inv: "linkInv es h root mtch"
    and mt: "mt = (if ekind x = returnEntry then None else mtch (eid x))"
  shows "linkInv (es @ [x]) (insertBefore (length h) root (h @ [newNode (evalue x) mt (eid x)])) (Some (length h))
    (if ekind x = returnEntry then mtch(eid x \<mapsto> length h) else mtch)"
proof -
  note i = inv [unfolded linkInv_def]
  let ?h = "insertBefore (length h) root (h @ [newNode (evalue x) mt (eid x)])"
  note ib = insertBefore_root [of h "length es" root "newNode (evalue x) mt (eid x)" ?h]
  have new: "length ?h = Suc (length es)" "linked ?h (rev [0..<Suc (length es)])" "nprev (?h ! length es) = None"
    "\<And>a. a \<le> length es \<Longrightarrow> nvalue (?h ! a) = nvalue ((h @ [newNode (evalue x) mt (eid x)]) ! a) \<and>
      nmatch (?h ! a) = nmatch ((h @ [newNode (evalue x) mt (eid x)]) ! a) \<and> nid (?h ! a) = nid ((h @ [newNode (evalue x) mt (eid x)]) ! a)"
    using ib i by (auto simp: newNode_def)
  have map: "(if ekind x = returnEntry then mtch(eid x \<mapsto> length h) else mtch) = lastReturn (es @ [x])"
    using i by (auto simp: lastReturn_snoc fun_eq_iff)
  show ?thesis
    unfolding linkInv_def map using i new mt by (auto simp: nth_append newNode_def less_Suc_eq)
qed

lemma linkLoop_inv: "linkInv es h root mtch \<Longrightarrow> linkLoop xs h root mtch = (h', root') \<Longrightarrow> linkInv (es @ xs) h' root' (lastReturn (es @ xs))"
proof (induction xs arbitrary: es h root mtch)
  case Nil
  then show ?case by (simp add: linkInv_def)
next
  case (Cons x xs)
  from Cons.IH [OF linkInv_snoc [OF Cons.prems(1) refl, of x]] Cons.prems(2) show ?case
    by (cases "ekind x") (simp_all add: Let_def fun_upd_def)
qed

lemma makeLinkedEntries_inv: "makeLinkedEntries es = (h, root) \<Longrightarrow> linkInv (rev es) h root (lastReturn (rev es))"
  using linkLoop_inv [of "[]" "[]" None Map.empty "rev es" h root] by (simp add: makeLinkedEntries_def linkInv_def fun_eq_iff)

lemma nodeLength_linked: "linked h (a # xs) \<Longrightarrow> nodeLength h (Some a) l = Some (l + Suc (length xs))"
proof (induction xs arbitrary: a l)
  case Nil
  then show ?case by (simp add: nodeLength.simps)
next
  case (Cons b xs)
  then show ?case by (subst nodeLength.simps) simp
qed

end
