(* ===== verification/Memo_Search.thy ===== *)
theory Memo_Search
  imports Main
begin

text \<open>
  Depth-first search with a memory of the configurations met before, as the checker does it: the path from the start to the present configuration
  with what is left to try at each of them. The locale says what the search relies on (children are smaller; equal configurations have equal children) and
  the lemmas what the steps of the search keep: what was tried leads nowhere, and so does what is remembered and not on the path.
\<close>

locale memo_search =
  fixes children :: "'c \<Rightarrow> 'c list"
    and final :: "'c \<Rightarrow> bool"
    and rank :: "'c \<Rightarrow> nat"
    and alike :: "'c \<Rightarrow> 'c \<Rightarrow> bool"
  assumes rank_child: "x \<in> set (children c) \<Longrightarrow> rank x < rank c"
    and alike_rank: "alike c d \<Longrightarrow> rank c = rank d"
    and alike_final: "alike c d \<Longrightarrow> final c = final d"
    and alike_child: "alike c d \<Longrightarrow> x \<in> set (children c) \<Longrightarrow> \<exists>y \<in> set (children d). alike x y"
begin

definition reach :: "'c \<Rightarrow> 'c \<Rightarrow> bool" where
  "reach = (\<lambda>c x. x \<in> set (children c))\<^sup>*\<^sup>*"

definition dead :: "'c \<Rightarrow> bool" where
  "dead c \<longleftrightarrow> \<not> (\<exists>d. reach c d \<and> final d)"

lemma reach_refl: "reach c c"
  by (simp add: reach_def)

lemma reach_step: "reach c d \<Longrightarrow> x \<in> set (children d) \<Longrightarrow> reach c x"
  unfolding reach_def by (rule rtranclp.rtrancl_into_rtrancl)

lemma reach_iff: "reach c d \<longleftrightarrow> c = d \<or> (\<exists>x \<in> set (children c). reach x d)"
  unfolding reach_def by (metis (mono_tags, lifting) converse_rtranclpE converse_rtranclp_into_rtranclp rtranclp.rtrancl_refl)

lemma dead_iff: "dead c \<longleftrightarrow> \<not> final c \<and> (\<forall>x \<in> set (children c). dead x)"
proof -
  have "(\<exists>d. reach c d \<and> final d) \<longleftrightarrow> (\<exists>d. (c = d \<or> (\<exists>x \<in> set (children c). reach x d)) \<and> final d)"
    by (subst reach_iff) simp
  then show ?thesis unfolding dead_def by blast
qed

lemma reach_alike: "reach c c' \<Longrightarrow> alike c d \<Longrightarrow> \<exists>d'. reach d d' \<and> alike c' d'"
proof -
  assume "reach c c'" and "alike c d"
  from \<open>reach c c'\<close> [unfolded reach_def] \<open>alike c d\<close> show ?thesis
  proof (induction rule: rtranclp_induct)
    case base
    then show ?case using reach_refl by blast
  next
    case (step y z)
    then obtain d' where d': "reach d d'" "alike y d'" by blast
    obtain z' where "z' \<in> set (children d')" "alike z z'" using alike_child [OF d'(2) step(2)] by blast
    then show ?case using reach_step [OF d'(1)] by blast
  qed
qed

lemma dead_alike: "alike c d \<Longrightarrow> dead d \<Longrightarrow> dead c"
  unfolding dead_def using reach_alike alike_final by blast

lemma finite_reach: "finite {d. reach c d}"
proof (induction "rank c" arbitrary: c rule: less_induct)
  case less
  have "{d. reach c d} = {d. c = d \<or> (\<exists>x \<in> set (children c). reach x d)}" by (subst reach_iff) simp
  then have "{d. reach c d} \<subseteq> {c} \<union> (\<Union>x \<in> set (children c). {d. reach x d})" by auto
  moreover have "finite (\<Union>x \<in> set (children c). {d. reach x d})" using less rank_child by blast
  ultimately show ?case by (meson finite.emptyI finite.insertI finite_Un finite_subset)
qed

text \<open>A path, from its start; with each configuration what is left to try when the search comes back to it.\<close>

fun onPath :: "'c \<Rightarrow> ('c \<times> 'c list) list \<Rightarrow> 'c \<Rightarrow> bool" where
  "onPath c [] now \<longleftrightarrow> c = now"
| "onPath c ((d, left) # fs) now \<longleftrightarrow>
    c = d \<and> (\<exists>tried x. children c = tried @ x # left \<and> (\<forall>y \<in> set tried. dead y) \<and> onPath x fs now)"

definition explored :: "'c \<Rightarrow> ('c \<times> 'c list) list \<Rightarrow> 'c \<Rightarrow> 'c list \<Rightarrow> 'c set \<Rightarrow> bool" where
  "explored c fs now left memory \<longleftrightarrow> onPath c fs now \<and> (\<exists>tried. children now = tried @ left \<and> (\<forall>y \<in> set tried. dead y)) \<and>
     (\<forall>y \<in> memory. reach c y \<and> (dead y \<or> y = now \<or> y \<in> fst ` set fs))"

lemma onPath_reach: "onPath c fs now \<Longrightarrow> reach c now"
proof (induction c fs now rule: onPath.induct)
  case (2 c d left fs now)
  then obtain x where "x \<in> set (children c)" "reach x now" by fastforce
  then show ?case using reach_iff [of c now] by blast
qed (simp add: reach_refl)

lemma onPath_head: "onPath c fs now \<Longrightarrow> c = now \<or> c \<in> fst ` set fs"
  by (cases fs) auto

lemma onPath_rank: "onPath c fs now \<Longrightarrow> d \<in> fst ` set fs \<Longrightarrow> rank now < rank d"
proof (induction c fs now arbitrary: d rule: onPath.induct)
  case (2 c e left fs now d)
  then obtain x tried where x: "children c = tried @ x # left" "onPath x fs now" "c = e" by auto
  have "rank x < rank e" using rank_child [of x e] x by simp
  moreover have "rank now \<le> rank x" using onPath_head [OF x(2)] 2(1) [OF x(2), of x] by fastforce
  moreover have "rank now < rank d" if "d \<in> fst ` set fs" using 2(1) [OF x(2) that] by blast
  ultimately show ?case using 2(3) x(3) by auto
qed simp

lemma onPath_push:
  "onPath c fs now \<Longrightarrow> children now = tried @ x # left \<Longrightarrow> \<forall>y \<in> set tried. dead y \<Longrightarrow> onPath c (fs @ [(now, left)]) x"
proof (induction c fs now rule: onPath.induct)
  case (2 c d l fs now)
  then obtain z t where "children c = t @ z # l" "\<forall>y \<in> set t. dead y" "onPath z fs now" "c = d" by auto
  moreover have "onPath z (fs @ [(now, left)]) x" using 2 calculation(3) by blast
  ultimately show ?case by auto
qed auto

lemma onPath_pop:
  "onPath c (fs @ [(d, left)]) now \<Longrightarrow> onPath c fs d \<and> (\<exists>tried. children d = tried @ now # left \<and> (\<forall>y \<in> set tried. dead y))"
  by (induction fs arbitrary: c) auto

lemma explored_start: "explored c [] c (children c) {}"
  by (simp add: explored_def)

lemma explored_skip:
  assumes "explored c fs now (x # left) memory" and "y \<in> memory" and "alike x y"
  shows "explored c fs now left memory"
proof -
  obtain tried where t: "children now = tried @ x # left" "\<forall>y \<in> set tried. dead y" using assms(1) by (auto simp: explored_def)
  have "rank y < rank now" using rank_child [of x now] alike_rank [OF assms(3)] t(1) by simp
  then have "dead y" using assms(1,2) onPath_rank by (fastforce simp: explored_def)
  then have "dead x" using dead_alike [OF assms(3)] by blast
  then show ?thesis using assms(1) t by (auto simp: explored_def intro!: exI [of _ "tried @ [x]"])
qed

lemma explored_push:
  assumes "explored c fs now (x # left) memory"
  shows "explored c (fs @ [(now, left)]) x (children x) (insert x memory)"
proof -
  obtain tried where t: "children now = tried @ x # left" "\<forall>y \<in> set tried. dead y" using assms by (auto simp: explored_def)
  have p: "onPath c fs now" using assms by (simp add: explored_def)
  have "reach c x" using reach_step [OF onPath_reach [OF p]] t(1) by simp
  then show ?thesis using assms onPath_push [OF p t] by (auto simp: explored_def)
qed

lemma explored_pop:
  assumes "explored c (fs @ [(d, left)]) now [] memory" and "\<not> final now"
  shows "explored c fs d left memory"
proof -
  have "dead now" using assms dead_iff [of now] by (auto simp: explored_def)
  moreover obtain tried where "onPath c fs d" "children d = tried @ now # left" "\<forall>y \<in> set tried. dead y"
    using assms(1) onPath_pop [of c fs d left now] unfolding explored_def by blast
  ultimately show ?thesis
    using assms(1) unfolding explored_def by (auto intro!: exI [of _ "tried @ [now]"])
qed

lemma explored_failed: "explored c [] now [] memory \<Longrightarrow> \<not> final now \<Longrightarrow> dead c"
  using dead_iff [of now] by (auto simp: explored_def)

lemma explored_found: "explored c fs now left memory \<Longrightarrow> final now \<Longrightarrow> \<not> dead c"
  using onPath_reach by (auto simp: explored_def dead_def)

text \<open>How much can still be remembered.\<close>

definition room :: "'c \<Rightarrow> 'c set \<Rightarrow> nat" where
  "room c memory = card ({d. reach c d} - memory)"

lemma room_push: "reach c x \<Longrightarrow> x \<notin> memory \<Longrightarrow> room c (insert x memory) < room c memory"
  unfolding room_def by (rule psubset_card_mono) (use finite_reach in auto)

end

end
