(* ===== verification/Porcupine_Search.thy ===== *)
theory Porcupine_Search
  imports Porcupine_List Memo_Search
begin

text \<open>
  What a linearization is, and the configurations of the checker's search: the set of operations linearized so far and the state they lead to. The children of a
  configuration are the calls before the first return among the entries left. The configurations are an instance of \<open>memo_search\<close>, and
  their paths to the end are the linearizations.
\<close>

section \<open>Linearizations\<close>

fun legal :: "('s, 'i, 'o) Model \<Rightarrow> (nat \<Rightarrow> 'i) \<Rightarrow> (nat \<Rightarrow> 'o) \<Rightarrow> 's \<Rightarrow> nat list \<Rightarrow> bool" where
  "legal M inp out s [] \<longleftrightarrow> True"
| "legal M inp out s (k # ks) \<longleftrightarrow> fst (Step M s (inp k) (out k)) \<and> legal M inp out (snd (Step M s (inp k) (out k))) ks"

text \<open>\<open>prec i j\<close>: operation \<open>i\<close> returned before \<open>j\<close> was called.\<close>

definition linearization ::
  "('s, 'i, 'o) Model \<Rightarrow> (nat \<Rightarrow> 'i) \<Rightarrow> (nat \<Rightarrow> 'o) \<Rightarrow> (nat \<Rightarrow> nat \<Rightarrow> bool) \<Rightarrow> nat \<Rightarrow> nat list \<Rightarrow> bool" where
  "linearization M inp out prec n ks \<longleftrightarrow> distinct ks \<and> set ks = {..<n} \<and> legal M inp out (Init M) ks \<and> sorted_wrt (\<lambda>i j. \<not> prec j i) ks"

text \<open>A list of entries presents \<open>n\<close> operations: one call and one return of each, in an order that shows \<open>prec\<close>.\<close>

definition presents ::
  "('i, 'o) entry list \<Rightarrow> nat \<Rightarrow> (nat \<Rightarrow> 'i) \<Rightarrow> (nat \<Rightarrow> 'o) \<Rightarrow> (nat \<Rightarrow> nat \<Rightarrow> bool) \<Rightarrow> bool" where
  "presents es n inp out prec \<longleftrightarrow>
     distinct (map (\<lambda>e. (ekind e, eid e)) es) \<and> (\<lambda>e. (ekind e, eid e)) ` set es = {callEntry, returnEntry} \<times> int ` {..<n} \<and>
     (\<forall>e \<in> set es. evalue e = (case ekind e of callEntry \<Rightarrow> InV (inp (nat (eid e))) | returnEntry \<Rightarrow> OutV (out (nat (eid e))))) \<and>
     (\<forall>p < length es. \<forall>q < length es. ekind (es ! p) = returnEntry \<longrightarrow> ekind (es ! q) = callEntry \<longrightarrow>
        (p < q \<longleftrightarrow> prec (nat (eid (es ! p))) (nat (eid (es ! q))))) \<and>
     (\<forall>k < n. \<not> prec k k)"

section \<open>Nodes\<close>

text \<open>Node \<open>a\<close> is entry \<open>a\<close> of the reversed history, so later entries have smaller addresses.\<close>

definition idAt :: "('i, 'o) entry list \<Rightarrow> nat \<Rightarrow> nat" where
  "idAt es a = nat (eid (rev es ! a))"

definition isCall :: "('i, 'o) entry list \<Rightarrow> nat \<Rightarrow> bool" where
  "isCall es a \<longleftrightarrow> ekind (rev es ! a) = callEntry"

definition alive :: "('i, 'o) entry list \<Rightarrow> nat set \<Rightarrow> nat list" where
  "alive es S = filter (\<lambda>a. idAt es a \<notin> S) (rev [0..<length es])"

text \<open>The step of the operation whose call is node \<open>a\<close>.\<close>

definition stepAt :: "('s, 'i, 'o) Model \<Rightarrow> ('i, 'o) entry list \<Rightarrow> 's \<Rightarrow> nat \<Rightarrow> bool \<times> 's" where
  "stepAt M es s a =
    (case lastReturn (take a (rev es)) (eid (rev es ! a)) of
       None \<Rightarrow> (False, s)
     | Some b \<Rightarrow> (case (evalue (rev es ! a), evalue (rev es ! b)) of (InV i, OutV out) \<Rightarrow> Step M s i out | _ \<Rightarrow> (False, s)))"

definition kids :: "('s, 'i, 'o) Model \<Rightarrow> ('i, 'o) entry list \<Rightarrow> nat set \<Rightarrow> 's \<Rightarrow> nat list \<Rightarrow> (nat set \<times> 's) list" where
  "kids M es S s xs =
    map (\<lambda>a. (insert (idAt es a) S, snd (stepAt M es s a))) (filter (\<lambda>a. fst (stepAt M es s a)) (takeWhile (isCall es) xs))"

definition kidsOf :: "('s, 'i, 'o) Model \<Rightarrow> ('i, 'o) entry list \<Rightarrow> nat set \<times> 's \<Rightarrow> (nat set \<times> 's) list" where
  "kidsOf M es c = kids M es (fst c) (snd c) (alive es (fst c))"

text \<open>States with the same behaviour.\<close>

definition sameState :: "('s, 'i, 'o) Model \<Rightarrow> 's \<Rightarrow> 's \<Rightarrow> bool" where
  "sameState M s t \<longleftrightarrow> (\<exists>R. R s t \<and> (\<forall>s t i out. R s t \<longrightarrow> fst (Step M s i out) = fst (Step M t i out) \<and>
     (fst (Step M s i out) \<longrightarrow> R (snd (Step M s i out)) (snd (Step M t i out)))))"

definition cfgAlike :: "('s, 'i, 'o) Model \<Rightarrow> nat set \<times> 's \<Rightarrow> nat set \<times> 's \<Rightarrow> bool" where
  "cfgAlike M c d \<longleftrightarrow> fst c = fst d \<and> sameState M (snd c) (snd d)"

lemma sameState_step:
  assumes "sameState M s t"
  shows "fst (Step M s i out) = fst (Step M t i out)"
    and "fst (Step M s i out) \<Longrightarrow> sameState M (snd (Step M s i out)) (snd (Step M t i out))"
  using assms unfolding sameState_def by blast+

lemma sameState_stepAt:
  assumes "sameState M s t"
  shows "fst (stepAt M es s a) = fst (stepAt M es t a)"
    and "fst (stepAt M es s a) \<Longrightarrow> sameState M (snd (stepAt M es s a)) (snd (stepAt M es t a))"
  using sameState_step [OF assms] by (auto simp: stepAt_def split: option.splits payload.splits)

lemma alive_mem: "a \<in> set (alive es S) \<longleftrightarrow> a < length es \<and> idAt es a \<notin> S"
  by (auto simp: alive_def)

lemma alive_sorted: "sorted_wrt (>) (alive es S)"
  unfolding alive_def by (rule sorted_wrt_filter) (simp add: sorted_wrt_rev)

lemma alive_distinct: "distinct (alive es S)"
  by (simp add: alive_def)

lemma alive_insert: "alive es (insert k S) = filter (\<lambda>a. idAt es a \<noteq> k) (alive es S)"
  by (simp add: alive_def) (rule filter_cong, auto)

lemma kids_mem:
  "c \<in> set (kids M es S s xs) \<longleftrightarrow> (\<exists>a \<in> set (takeWhile (isCall es) xs). fst (stepAt M es s a) \<and> c = (insert (idAt es a) S, snd (stepAt M es s a)))"
  by (auto simp: kids_def)

interpretation memo: memo_search "kidsOf M es" "\<lambda>c. alive es (fst c) = []" "\<lambda>c. length (alive es (fst c))" "cfgAlike M"
  for M :: "('s, 'i, 'o) Model" and es
proof unfold_locales
  fix c x :: "nat set \<times> 's"
  assume "x \<in> set (kidsOf M es c)"
  then obtain a where a: "a \<in> set (alive es (fst c))" "fst x = insert (idAt es a) (fst c)"
    by (auto simp: kidsOf_def kids_mem dest: set_takeWhileD)
  then show "length (alive es (fst x)) < length (alive es (fst c))"
    by (auto simp: alive_insert intro: length_filter_less)
next
  fix c d x :: "nat set \<times> 's"
  assume "cfgAlike M c d" and "x \<in> set (kidsOf M es c)"
  then obtain a where "a \<in> set (takeWhile (isCall es) (alive es (fst d)))" "fst (stepAt M es (snd c) a)"
    "x = (insert (idAt es a) (fst d), snd (stepAt M es (snd c) a))" "sameState M (snd c) (snd d)" "fst c = fst d"
    by (auto simp: kidsOf_def kids_mem cfgAlike_def)
  then show "\<exists>y \<in> set (kidsOf M es d). cfgAlike M x y"
    using sameState_stepAt [of M "snd c" "snd d" es a] unfolding kidsOf_def cfgAlike_def
    by (intro bexI [of _ "(insert (idAt es a) (fst d), snd (stepAt M es (snd d) a))"]) (auto simp: kids_mem)
qed (auto simp: cfgAlike_def)

abbreviation cfgReach :: "('s, 'i, 'o) Model \<Rightarrow> ('i, 'o) entry list \<Rightarrow> nat set \<times> 's \<Rightarrow> nat set \<times> 's \<Rightarrow> bool" where
  "cfgReach M es \<equiv> memo_search.reach (kidsOf M es)"

abbreviation cfgDead :: "('s, 'i, 'o) Model \<Rightarrow> ('i, 'o) entry list \<Rightarrow> nat set \<times> 's \<Rightarrow> bool" where
  "cfgDead M es \<equiv> memo_search.dead (kidsOf M es) (\<lambda>c. alive es (fst c) = [])"

abbreviation cfgExplored ::
  "('s, 'i, 'o) Model \<Rightarrow> ('i, 'o) entry list \<Rightarrow> nat set \<times> 's \<Rightarrow> ((nat set \<times> 's) \<times> (nat set \<times> 's) list) list \<Rightarrow> nat set \<times> 's \<Rightarrow>
   (nat set \<times> 's) list \<Rightarrow> (nat set \<times> 's) set \<Rightarrow> bool" where
  "cfgExplored M es \<equiv> memo_search.explored (kidsOf M es) (\<lambda>c. alive es (fst c) = [])"

section \<open>Presented histories\<close>

lemma presents_nth:
  assumes p: "presents es n inp out prec" and a: "a < length es"
  shows "rev es ! a \<in> set es" "eid (rev es ! a) = int (idAt es a)" "idAt es a < n"
    "isCall es a \<Longrightarrow> evalue (rev es ! a) = InV (inp (idAt es a))" "\<not> isCall es a \<Longrightarrow> evalue (rev es ! a) = OutV (out (idAt es a))"
proof -
  show e: "rev es ! a \<in> set es" using nth_mem [of a "rev es"] a by simp
  then have "(ekind (rev es ! a), eid (rev es ! a)) \<in> {callEntry, returnEntry} \<times> int ` {..<n}"
    using p unfolding presents_def by (metis (no_types, lifting) image_eqI)
  then show i: "eid (rev es ! a) = int (idAt es a)" "idAt es a < n" by (auto simp: idAt_def)
  have v: "evalue (rev es ! a) = (case ekind (rev es ! a) of callEntry \<Rightarrow> InV (inp (nat (eid (rev es ! a)))) | returnEntry \<Rightarrow> OutV (out (nat (eid (rev es ! a)))))"
    using p e unfolding presents_def by blast
  show "isCall es a \<Longrightarrow> evalue (rev es ! a) = InV (inp (idAt es a))" "\<not> isCall es a \<Longrightarrow> evalue (rev es ! a) = OutV (out (idAt es a))"
    using v by (auto simp: isCall_def idAt_def split: entryKind.splits)
qed

lemma presents_unique:
  assumes p: "presents es n inp out prec" and a: "a < length es" "b < length es" "isCall es a = isCall es b" "idAt es a = idAt es b"
  shows "a = b"
proof -
  have d: "distinct (map (\<lambda>e. (ekind e, eid e)) (rev es))" using p by (simp add: presents_def rev_map [symmetric])
  have "ekind (rev es ! a) = ekind (rev es ! b)" using a(3) by (cases "ekind (rev es ! a)"; cases "ekind (rev es ! b)") (auto simp: isCall_def)
  then have "map (\<lambda>e. (ekind e, eid e)) (rev es) ! a = map (\<lambda>e. (ekind e, eid e)) (rev es) ! b"
    using presents_nth(2) [OF p a(1)] presents_nth(2) [OF p a(2)] a by simp
  then show ?thesis using nth_eq_iff_index_eq [OF d] a(1,2) by simp
qed

lemma presents_order:
  assumes p: "presents es n inp out prec" and a: "a < length es" "\<not> isCall es a" and b: "b < length es" "isCall es b"
  shows "b < a \<longleftrightarrow> prec (idAt es a) (idAt es b)"
proof -
  have r: "rev es ! a = es ! (length es - Suc a)" "rev es ! b = es ! (length es - Suc b)" using a(1) b(1) by (simp_all add: rev_nth)
  have "ekind (rev es ! a) = returnEntry" using a(2) by (cases "ekind (rev es ! a)") (auto simp: isCall_def)
  then have "length es - Suc a < length es - Suc b \<longleftrightarrow> prec (idAt es a) (idAt es b)"
    using p a(1) b unfolding presents_def idAt_def isCall_def r by simp
  then show ?thesis using a(1) b(1) by linarith
qed

lemma presents_exists:
  assumes p: "presents es n inp out prec" and k: "k < n"
  shows "\<exists>a < length es. isCall es a = c \<and> idAt es a = k"
proof -
  have "(if c then callEntry else returnEntry, int k) \<in> {callEntry, returnEntry} \<times> int ` {..<n}" using k by auto
  then have "(if c then callEntry else returnEntry, int k) \<in> (\<lambda>e. (ekind e, eid e)) ` set (rev es)" using p by (simp add: presents_def)
  then obtain e where "e \<in> set (rev es)" "ekind e = (if c then callEntry else returnEntry)" "eid e = int k" by auto
  then obtain a where "a < length es" "ekind (rev es ! a) = (if c then callEntry else returnEntry)" "eid (rev es ! a) = int k"
    by (metis in_set_conv_nth length_rev)
  then show ?thesis by (intro exI [of _ a]) (simp add: isCall_def idAt_def)
qed

lemma lastReturn_unique:
  assumes "b < length xs" and "ekind (xs ! b) = returnEntry" and "eid (xs ! b) = i"
    and "\<And>c. c < length xs \<Longrightarrow> ekind (xs ! c) = returnEntry \<Longrightarrow> eid (xs ! c) = i \<Longrightarrow> c = b"
  shows "lastReturn xs i = Some b"
proof -
  let ?bs = "filter (\<lambda>b. ekind (xs ! b) = returnEntry \<and> eid (xs ! b) = i) [0..<length xs]"
  have "b \<in> set ?bs" using assms(1-3) by simp
  moreover have "c = b" if "c \<in> set ?bs" for c using assms(4) that by simp
  moreover from \<open>b \<in> set ?bs\<close> have "?bs \<noteq> []" by (metis empty_iff empty_set)
  ultimately show ?thesis unfolding lastReturn_def Let_def using last_in_set [of ?bs] by simp
qed

lemma presents_mate:
  assumes p: "presents es n inp out prec" and a: "a < length es" "isCall es a"
  shows "\<exists>b < a. lastReturn (take a (rev es)) (eid (rev es ! a)) = Some b \<and> \<not> isCall es b \<and> idAt es b = idAt es a"
proof -
  obtain b where b: "b < length es" "\<not> isCall es b" "idAt es b = idAt es a"
    using presents_exists [OF p presents_nth(3) [OF p a(1)], of False] by auto
  have "\<not> prec (idAt es a) (idAt es a)" using p presents_nth(3) [OF p a(1)] unfolding presents_def by blast
  then have "\<not> a < b" using presents_order [OF p b(1,2) a] b(3) by simp
  moreover have "b \<noteq> a" using b(2) a(2) by blast
  ultimately have ba: "b < a" by simp
  have "lastReturn (take a (rev es)) (eid (rev es ! a)) = Some b"
  proof (rule lastReturn_unique)
    show "b < length (take a (rev es))" using ba a(1) by simp
    show "ekind (take a (rev es) ! b) = returnEntry" using b(2) ba by (cases "ekind (rev es ! b)") (auto simp: isCall_def)
    show "eid (take a (rev es) ! b) = eid (rev es ! a)" using presents_nth(2) [OF p b(1)] presents_nth(2) [OF p a(1)] b(3) ba by simp
    fix c assume c: "c < length (take a (rev es))" "ekind (take a (rev es) ! c) = returnEntry" "eid (take a (rev es) ! c) = eid (rev es ! a)"
    then show "c = b"
      using presents_unique [OF p _ b(1), of c] presents_nth(2) [OF p, of c] presents_nth(2) [OF p a(1)] b(2,3) a(1) by (auto simp: isCall_def)
  qed
  then show ?thesis using ba b by blast
qed

lemma presents_step:
  assumes p: "presents es n inp out prec" and a: "a < length es" "isCall es a"
  shows "stepAt M es s a = Step M s (inp (idAt es a)) (out (idAt es a))"
proof -
  obtain b where "b < a" "lastReturn (take a (rev es)) (eid (rev es ! a)) = Some b" "\<not> isCall es b" "idAt es b = idAt es a"
    using presents_mate [OF p a] by blast
  then show ?thesis using presents_nth(4) [OF p a(1)] presents_nth(5) [OF p, of b] a by (simp add: stepAt_def)
qed

section \<open>Paths are linearizations\<close>

lemma takeWhile_desc:
  "sorted_wrt (>) xs \<Longrightarrow> x \<in> set (takeWhile P xs) \<longleftrightarrow> x \<in> set xs \<and> P x \<and> (\<forall>y \<in> set xs. \<not> P y \<longrightarrow> y < (x :: nat))"
proof (induction xs)
  case (Cons z xs)
  then show ?case by (cases "P z") auto
qed simp

lemma candidate_iff:
  assumes p: "presents es n inp out prec"
  shows "a \<in> set (takeWhile (isCall es) (alive es S)) \<longleftrightarrow>
    a < length es \<and> isCall es a \<and> idAt es a \<notin> S \<and> (\<forall>j < n. j \<notin> S \<longrightarrow> \<not> prec j (idAt es a))"
proof -
  have "(\<forall>b \<in> set (alive es S). \<not> isCall es b \<longrightarrow> b < a) \<longleftrightarrow> (\<forall>j < n. j \<notin> S \<longrightarrow> \<not> prec j (idAt es a))"
    if a: "a < length es" "isCall es a"
  proof (intro iffI allI impI ballI)
    fix j assume before: "\<forall>b \<in> set (alive es S). \<not> isCall es b \<longrightarrow> b < a" and j: "j < n" "j \<notin> S"
    obtain b where b: "b < length es" "\<not> isCall es b" "idAt es b = j" using presents_exists [OF p j(1), of False] by auto
    then have "b < a" using before j by (simp add: alive_mem)
    then show "\<not> prec j (idAt es a)" using presents_order [OF p b(1,2) a] b(3) by simp
  next
    fix b assume "\<forall>j < n. j \<notin> S \<longrightarrow> \<not> prec j (idAt es a)" and b: "b \<in> set (alive es S)" "\<not> isCall es b"
    then have "\<not> a < b" using presents_order [OF p _ b(2) a] presents_nth(3) [OF p, of b] by (auto simp: alive_mem)
    moreover have "b \<noteq> a" using b(2) a(2) by blast
    ultimately show "b < a" by simp
  qed
  then show ?thesis using takeWhile_desc [OF alive_sorted, of a "isCall es" es S] alive_mem [of a es S] by blast
qed

fun linRun :: "('s, 'i, 'o) Model \<Rightarrow> ('i, 'o) entry list \<Rightarrow> nat set \<times> 's \<Rightarrow> nat list \<Rightarrow> nat set \<times> 's \<Rightarrow> bool" where
  "linRun M es c [] d \<longleftrightarrow> c = d"
| "linRun M es c (k # ks) d \<longleftrightarrow> (\<exists>a \<in> set (takeWhile (isCall es) (alive es (fst c))).
     idAt es a = k \<and> fst (stepAt M es (snd c) a) \<and> linRun M es (insert k (fst c), snd (stepAt M es (snd c) a)) ks d)"

lemma linRun_reach: "linRun M es c ks d \<Longrightarrow> cfgReach M es c d"
proof (induction M es c ks d rule: linRun.induct)
  case (2 M es c k ks d)
  then obtain a where a: "a \<in> set (takeWhile (isCall es) (alive es (fst c)))" "idAt es a = k" "fst (stepAt M es (snd c) a)"
    "cfgReach M es (insert k (fst c), snd (stepAt M es (snd c) a)) d" by auto
  then have "(insert k (fst c), snd (stepAt M es (snd c) a)) \<in> set (kidsOf M es c)" by (auto simp: kidsOf_def kids_mem)
  then show ?case using a(4) memo.reach_iff [where c = c and d = d] by blast
qed (simp add: memo.reach_refl)

lemma linRun_snoc:
  "linRun M es c ks d \<Longrightarrow> a \<in> set (takeWhile (isCall es) (alive es (fst d))) \<Longrightarrow> fst (stepAt M es (snd d) a) \<Longrightarrow>
   linRun M es c (ks @ [idAt es a]) (insert (idAt es a) (fst d), snd (stepAt M es (snd d) a))"
  by (induction M es c ks d rule: linRun.induct) auto

lemma reach_linRun: "cfgReach M es c d \<Longrightarrow> \<exists>ks. linRun M es c ks d"
  unfolding memo.reach_def
proof (induction rule: rtranclp_induct)
  case base
  show ?case by (rule exI [of _ "[]"]) simp
next
  case (step d e)
  then obtain ks a where "linRun M es c ks d" "a \<in> set (takeWhile (isCall es) (alive es (fst d)))" "fst (stepAt M es (snd d) a)"
    "e = (insert (idAt es a) (fst d), snd (stepAt M es (snd d) a))"
    by (auto simp: kidsOf_def kids_mem)
  then show ?case using linRun_snoc by blast
qed

lemma linRun_sound:
  assumes p: "presents es n inp out prec"
  shows "linRun M es c ks d \<Longrightarrow> alive es (fst d) = [] \<Longrightarrow> distinct ks \<and> set ks = {..<n} - fst c \<and> legal M inp out (snd c) ks \<and> sorted_wrt (\<lambda>i j. \<not> prec j i) ks"
proof (induction ks arbitrary: c)
  case Nil
  have "k \<in> fst c" if "k < n" for k using presents_exists [OF p that, of True] Nil alive_mem [of _ es "fst c"] by auto
  then show ?case by auto
next
  case (Cons k ks)
  then obtain a where a: "a \<in> set (takeWhile (isCall es) (alive es (fst c)))" "idAt es a = k" "fst (stepAt M es (snd c) a)"
    "linRun M es (insert k (fst c), snd (stepAt M es (snd c) a)) ks d" by auto
  have c: "a < length es" "isCall es a" "k \<notin> fst c" "\<forall>j < n. j \<notin> fst c \<longrightarrow> \<not> prec j k" using candidate_iff [OF p] a(1,2) by blast+
  have "k < n" using presents_nth(3) [OF p c(1)] a(2) by simp
  then show ?case using Cons.IH [OF a(4) Cons.prems(2)] a(2,3) c presents_step [OF p c(1,2), of M "snd c"] by auto
qed

lemma linRun_complete:
  assumes p: "presents es n inp out prec"
  shows "distinct ks \<Longrightarrow> set ks = {..<n} - fst c \<Longrightarrow> legal M inp out (snd c) ks \<Longrightarrow> sorted_wrt (\<lambda>i j. \<not> prec j i) ks \<Longrightarrow>
    \<exists>d. linRun M es c ks d \<and> alive es (fst d) = []"
proof (induction ks arbitrary: c)
  case Nil
  have "alive es (fst c) = []" using Nil(2) presents_nth(3) [OF p] alive_mem [of _ es "fst c"] by (metis Diff_iff empty_iff last_in_set lessThan_iff list.set(1))
  then show ?case by auto
next
  case (Cons k ks)
  have k: "k < n" "k \<notin> fst c" using Cons.prems(2) by auto
  obtain a where a: "a < length es" "isCall es a" "idAt es a = k" using presents_exists [OF p k(1), of True] by auto
  have "\<not> prec j k" if j: "j < n" "j \<notin> fst c" for j
  proof (cases "j = k")
    case True
    then show ?thesis using p k(1) unfolding presents_def by blast
  next
    case False
    then have "j \<in> set ks" using Cons.prems(2) j by auto
    then show ?thesis using Cons.prems(4) by simp
  qed
  then have "a \<in> set (takeWhile (isCall es) (alive es (fst c)))" using candidate_iff [OF p] a k(2) by blast
  moreover have step: "stepAt M es (snd c) a = Step M (snd c) (inp k) (out k)" using presents_step [OF p a(1,2)] a(3) by simp
  moreover have "set ks = {..<n} - insert k (fst c)" using Cons.prems(1,2) by auto
  then obtain d where "linRun M es (insert k (fst c), snd (stepAt M es (snd c) a)) ks d" "alive es (fst d) = []"
    using Cons.IH [of "(insert k (fst c), snd (stepAt M es (snd c) a))"] Cons.prems step by auto
  ultimately have "linRun M es c (k # ks) d" "alive es (fst d) = []" using Cons.prems(3) a(3) by auto
  then show ?case by blast
qed

text \<open>So the start leads to the end exactly if there is a linearization.\<close>

lemma start_not_dead:
  assumes p: "presents es n inp out prec"
  shows "\<not> cfgDead M es ({}, Init M) \<longleftrightarrow> (\<exists>ks. linearization M inp out prec n ks)"
proof -
  have "\<not> cfgDead M es ({}, Init M) \<longleftrightarrow> (\<exists>ks d. linRun M es ({}, Init M) ks d \<and> alive es (fst d) = [])"
    unfolding memo.dead_def using linRun_reach reach_linRun by blast
  then show ?thesis
    using linRun_sound [OF p, of M "({}, Init M)"] linRun_complete [OF p, of _ "({}, Init M)" M] unfolding linearization_def by fastforce
qed

end
