(* ===== verification/Porcupine_Loop.thy ===== *)
theory Porcupine_Loop
  imports Porcupine_Search
begin

text \<open>
  The loop of \<open>checkSingle\<close>: its invariant, that every turn keeps it and uses up what can still be remembered, tried or undone, and so that the loop
  returns, with the right answer.
\<close>

section \<open>The invariant\<close>

definition dataOk :: "('i, 'o) entry list \<Rightarrow> ('i, 'o) nodes \<Rightarrow> bool" where
  "dataOk es h \<longleftrightarrow> length h = Suc (length es) \<and> (\<forall>a < length es. nvalue (h ! a) = evalue (rev es ! a) \<and> nid (h ! a) = eid (rev es ! a) \<and>
     nmatch (h ! a) = (if isCall es a then lastReturn (take a (rev es)) (eid (rev es ! a)) else None))"

definition idsOf :: "('i, 'o) entry list \<Rightarrow> (nat \<times> 's) list \<Rightarrow> nat set" where
  "idsOf es cs = idAt es ` fst ` set cs"

text \<open>The stack of calls, last first: each was a candidate, its step led to the next state, and unlifting it leads back to a heap for the rest.\<close>

fun stackOk :: "('s, 'i, 'o) Model \<Rightarrow> ('i, 'o) entry list \<Rightarrow> (nat \<times> 's) list \<Rightarrow> 's \<Rightarrow> ('i, 'o) nodes \<Rightarrow> bool" where
  "stackOk M es [] s h \<longleftrightarrow> s = Init M \<and> dataOk es h \<and> linked h (length es # alive es {})"
| "stackOk M es ((a, s') # cs) s h \<longleftrightarrow> dataOk es h \<and> linked h (length es # alive es (idsOf es ((a, s') # cs))) \<and>
     a \<in> set (takeWhile (isCall es) (alive es (idsOf es cs))) \<and> stepAt M es s' a = (True, s) \<and>
     (\<exists>h'. unlift a h = Some h' \<and> stackOk M es cs s' h')"

definition after :: "nat \<Rightarrow> nat list \<Rightarrow> nat list" where
  "after a xs = tl (dropWhile (\<lambda>x. x \<noteq> a) xs)"

fun frames :: "('s, 'i, 'o) Model \<Rightarrow> ('i, 'o) entry list \<Rightarrow> (nat \<times> 's) list \<Rightarrow> ((nat set \<times> 's) \<times> (nat set \<times> 's) list) list" where
  "frames M es [] = []"
| "frames M es ((a, s) # cs) = frames M es cs @ [((idsOf es cs, s), kids M es (idsOf es cs) s (after a (alive es (idsOf es cs))))]"

definition memory :: "('s, 'i, 'o) search \<Rightarrow> (nat set \<times> 's) set" where
  "memory st = {(elems l, s) |l s. \<exists>k. (l, s) \<in> set (cache st k)}"

definition searchInv :: "('s, 'i, 'o) Model \<Rightarrow> ('i, 'o) entry list \<Rightarrow> nat \<Rightarrow> ('s, 'i, 'o) search \<Rightarrow> nat list \<Rightarrow> nat list \<Rightarrow> bool" where
  "searchInv M es n st P Q \<longleftrightarrow>
     stackOk M es (rev (calls st)) (sstate st) (nodes st) \<and>
     elems (linearized st) = idsOf es (calls st) \<and> length (linearized st) = length (newBitset n) \<and>
     (\<forall>k l s. (l, s) \<in> set (cache st k) \<longrightarrow> hash l = k \<and> length l = length (newBitset n)) \<and>
     length (longest st) = n \<and>
     alive es (idsOf es (calls st)) = P @ Q \<and> (\<forall>a \<in> set P. isCall es a) \<and> cur st = (case Q of [] \<Rightarrow> None | a # _ \<Rightarrow> Some a) \<and>
     cfgExplored M es ({}, Init M) (frames M es (rev (calls st))) (idsOf es (calls st), sstate st)
       (kids M es (idsOf es (calls st)) (sstate st) Q) (memory st)"

lemma idsOf_simps [simp]:
  "idsOf es [] = {}" "idsOf es ((a, s) # cs) = insert (idAt es a) (idsOf es cs)" "idsOf es (rev cs) = idsOf es cs"
  "idsOf es (cs @ ds) = idsOf es cs \<union> idsOf es ds"
  by (auto simp: idsOf_def)

lemma dataOk_same: "sameData h' h \<Longrightarrow> dataOk es h \<Longrightarrow> dataOk es h'"
  by (simp add: dataOk_def sameData_def)

lemma stackOk_heap: "stackOk M es cs s h \<Longrightarrow> dataOk es h \<and> linked h (length es # alive es (idsOf es cs))"
  by (cases "(M, es, cs, s, h)" rule: stackOk.cases) auto

lemma searchInv_D:
  assumes "searchInv M es n st P Q"
  shows "stackOk M es (rev (calls st)) (sstate st) (nodes st)" "elems (linearized st) = idsOf es (calls st)"
    "length (linearized st) = length (newBitset n)" "(l, s) \<in> set (cache st k) \<Longrightarrow> hash l = k \<and> length l = length (newBitset n)"
    "length (longest st) = n" "alive es (idsOf es (calls st)) = P @ Q" "x \<in> set P \<Longrightarrow> isCall es x"
    "cur st = (case Q of [] \<Rightarrow> None | a # _ \<Rightarrow> Some a)"
    "cfgExplored M es ({}, Init M) (frames M es (rev (calls st))) (idsOf es (calls st), sstate st)
       (kids M es (idsOf es (calls st)) (sstate st) Q) (memory st)"
  using assms unfolding searchInv_def by blast+

lemma searchInv_heap:
  assumes "searchInv M es n st P Q"
  shows "dataOk es (nodes st)" "linked (nodes st) (length es # P @ Q)"
  using stackOk_heap [OF searchInv_D(1) [OF assms]] searchInv_D(6) [OF assms] by simp_all

lemma stackOk_linRun: "stackOk M es cs s h \<Longrightarrow> linRun M es ({}, Init M) (map (\<lambda>v. idAt es (fst v)) (rev cs)) (idsOf es cs, s)"
proof (induction cs arbitrary: s h)
  case (Cons c cs)
  obtain a s' where c: "c = (a, s')" by fastforce
  with Cons obtain h' where "linRun M es ({}, Init M) (map (\<lambda>v. idAt es (fst v)) (rev cs)) (idsOf es cs, s')" "stepAt M es s' a = (True, s)"
    "a \<in> set (takeWhile (isCall es) (alive es (idsOf es cs)))" by auto
  then show ?case using linRun_snoc [of M es _ _ "(idsOf es cs, s')" a] c by simp
qed simp

section \<open>Moving on\<close>

lemma kids_skip: "isCall es a \<Longrightarrow> kids M es S s (a # Q) = (if fst (stepAt M es s a) then [(insert (idAt es a) S, snd (stepAt M es s a))] else []) @ kids M es S s Q"
  by (simp add: kids_def)

lemma kids_return: "\<not> isCall es a \<Longrightarrow> kids M es S s (a # Q) = []"
  by (simp add: kids_def)

lemma searchInv_next:
  assumes inv: "searchInv M es n st P (a # Q)" and a: "isCall es a"
    and skip: "fst (stepAt M es (sstate st) a) \<Longrightarrow>
      \<exists>y \<in> memory st. cfgAlike M (insert (idAt es a) (idsOf es (calls st)), snd (stepAt M es (sstate st) a)) y"
  shows "searchInv M es n (st\<lparr>cur := nnext (nodes st ! a)\<rparr>) (P @ [a]) Q"
proof -
  let ?c = "(idsOf es (calls st), sstate st)"
  have ex: "cfgExplored M es ({}, Init M) (frames M es (rev (calls st))) ?c (kids M es (idsOf es (calls st)) (sstate st) (a # Q)) (memory st)"
    by (rule searchInv_D(9) [OF inv])
  have "cfgExplored M es ({}, Init M) (frames M es (rev (calls st))) ?c (kids M es (idsOf es (calls st)) (sstate st) Q) (memory st)"
  proof (cases "fst (stepAt M es (sstate st) a)")
    case True
    then obtain y where y: "y \<in> memory st" "cfgAlike M (insert (idAt es a) (idsOf es (calls st)), snd (stepAt M es (sstate st) a)) y" using skip by blast
    show ?thesis using memo.explored_skip [OF _ y] ex True by (simp add: kids_skip [OF a])
  next
    case False
    then show ?thesis using ex by (simp add: kids_skip [OF a])
  qed
  moreover have "nnext (nodes st ! a) = (case Q of [] \<Rightarrow> None | b # _ \<Rightarrow> Some b)"
    using linked_next [of "nodes st" "length es # P" a Q] searchInv_heap(2) [OF inv] by simp
  ultimately show ?thesis using inv a by (simp add: searchInv_def memory_def)
qed

section \<open>Linearizing a call\<close>

lemma mate_split:
  assumes p: "presents es n inp out prec" and al: "alive es S = P @ a # Q" and a: "isCall es a"
  shows "\<exists>m Q1 R. Q = Q1 @ m # R \<and> lastReturn (take a (rev es)) (eid (rev es ! a)) = Some m \<and> \<not> isCall es m \<and> idAt es m = idAt es a \<and> m < length es \<and>
    alive es (insert (idAt es a) S) = P @ Q1 @ R"
proof -
  have "a \<in> set (alive es S)" by (simp add: al)
  then have al': "a < length es" "idAt es a \<notin> S" by (simp_all add: alive_mem)
  obtain m where m: "m < a" "lastReturn (take a (rev es)) (eid (rev es ! a)) = Some m" "\<not> isCall es m" "idAt es m = idAt es a"
    using presents_mate [OF p al'(1) a] by blast
  have "m \<in> set (alive es S)" using m al' by (simp add: alive_mem)
  moreover have "a < x" if "x \<in> set P" for x using alive_sorted [of es S] that by (auto simp: al sorted_wrt_append)
  ultimately have "m \<in> set Q" using m(1) by (fastforce simp: al)
  then obtain Q1 R where Q: "Q = Q1 @ m # R" using split_list by fastforce
  have other: "idAt es x \<noteq> idAt es a" if x: "x \<in> set (P @ Q1 @ R)" for x
  proof
    assume e: "idAt es x = idAt es a"
    have "x \<in> set (alive es S)" using x by (auto simp: al Q)
    then have "x = a \<or> x = m" using presents_unique [OF p, of x] e m a al'(1) by (cases "isCall es x") (auto simp: alive_mem)
    then show False using alive_distinct [of es S] x by (auto simp: al Q)
  qed
  have "filter (\<lambda>x. idAt es x \<noteq> idAt es a) P = P" "filter (\<lambda>x. idAt es x \<noteq> idAt es a) Q1 = Q1" "filter (\<lambda>x. idAt es x \<noteq> idAt es a) R = R"
    using other by (simp_all add: filter_id_conv)
  then have "alive es (insert (idAt es a) S) = P @ Q1 @ R" by (simp add: alive_insert al Q m(4))
  then show ?thesis using Q m al'(1) by auto
qed

lemma lift_alive:
  assumes p: "presents es n inp out prec" and h: "dataOk es h" "linked h (length es # P @ a # Q)" and al: "alive es S = P @ a # Q" and a: "isCall es a"
  shows "\<exists>h'. lift a h = Some h' \<and> dataOk es h' \<and> linked h' (length es # alive es (insert (idAt es a) S)) \<and> unlift a h' = Some h"
proof -
  obtain m Q1 R where m: "Q = Q1 @ m # R" "lastReturn (take a (rev es)) (eid (rev es ! a)) = Some m" "alive es (insert (idAt es a) S) = P @ Q1 @ R"
    using mate_split [OF p al a] by blast
  obtain xs q where xs: "length es # P = xs @ [q]" by (cases "length es # P" rule: rev_cases) auto
  then have split: "length es # P @ ys = xs @ q # ys" for ys by (metis append.assoc append_Cons append_Nil)
  have "set (alive es S) \<subseteq> {..<length es}" by (auto simp: alive_mem)
  then have b: "set (xs @ q # a # Q1 @ m # R) \<subseteq> {..<length h}" "distinct (xs @ q # a # Q1 @ m # R)"
    using alive_distinct [of es S] h(1) unfolding split [symmetric] by (auto simp: al m(1) dataOk_def subset_iff less_Suc_eq)
  have "a < length es" using alive_mem [of a es S] by (simp add: al)
  then have "nmatch (h ! a) = Some m" using h(1) a m(2) by (simp add: dataOk_def)
  from lift_spec [OF _ b(2,1) this] h(2) show ?thesis
    unfolding m(1,3) split by (auto intro: dataOk_same [OF _ h(1)])
qed

lemma after_split: "alive es S = P @ a # Q \<Longrightarrow> after a (alive es S) = Q"
  using alive_distinct [of es S] by (auto simp: after_def dropWhile_append)

lemma candidate_split: "alive es S = P @ a # Q \<Longrightarrow> \<forall>x \<in> set P. isCall es x \<Longrightarrow> isCall es a \<Longrightarrow> a \<in> set (takeWhile (isCall es) (alive es S))"
  by simp

text \<open>The state after a call was linearized.\<close>

definition pushed :: "('s, 'i, 'o) search \<Rightarrow> nat \<Rightarrow> nat \<Rightarrow> ('i, 'o) nodes \<Rightarrow> bitset \<Rightarrow> 's \<Rightarrow> ('s, 'i, 'o) search" where
  "pushed st headEntry a h lin s =
    st\<lparr>nodes := h, cur := nnext (h ! headEntry), linearized := lin, cache := (cache st)(hash lin := cache st (hash lin) @ [(lin, s)]),
       calls := calls st @ [(a, sstate st)], sstate := s\<rparr>"

lemma memory_pushed: "memory (pushed st e a h lin s) = insert (elems lin, s) (memory st)"
proof -
  have mem: "x \<in> set (cache (pushed st e a h lin s) k) \<longleftrightarrow> x \<in> set (cache st k) \<or> k = hash lin \<and> x = (lin, s)" for x k
    by (auto simp: pushed_def)
  show ?thesis unfolding memory_def mem by blast
qed

lemma pushed_sel [simp]:
  "calls (pushed st e a h lin s) = calls st @ [(a, sstate st)]" "sstate (pushed st e a h lin s) = s" "nodes (pushed st e a h lin s) = h"
  "linearized (pushed st e a h lin s) = lin" "cur (pushed st e a h lin s) = nnext (h ! e)" "longest (pushed st e a h lin s) = longest st"
  by (simp_all add: pushed_def)

lemma cache_pushed: "x \<in> set (cache (pushed st e a h lin s) k) \<longleftrightarrow> x \<in> set (cache st k) \<or> k = hash lin \<and> x = (lin, s)"
  by (auto simp: pushed_def)

lemma explored_pushed:
  assumes inv: "searchInv M es n st P (a # Q)" and a: "isCall es a" and step: "stepAt M es (sstate st) a = (True, s)"
  shows "cfgExplored M es ({}, Init M) (frames M es ((a, sstate st) # rev (calls st))) (insert (idAt es a) (idsOf es (calls st)), s)
    (kidsOf M es (insert (idAt es a) (idsOf es (calls st)), s)) (insert (insert (idAt es a) (idsOf es (calls st)), s) (memory st))"
proof -
  let ?S = "idsOf es (calls st)"
  have k: "kids M es ?S (sstate st) (a # Q) = (insert (idAt es a) ?S, s) # kids M es ?S (sstate st) Q" using step by (simp add: kids_skip [OF a])
  have f: "frames M es ((a, sstate st) # rev (calls st)) = frames M es (rev (calls st)) @ [((?S, sstate st), kids M es ?S (sstate st) Q)]"
    by (simp add: after_split [OF searchInv_D(6) [OF inv]])
  show ?thesis unfolding f by (rule memo.explored_push [OF searchInv_D(9) [OF inv, unfolded k]])
qed

lemma searchInv_push:
  assumes p: "presents es n inp out prec" and inv: "searchInv M es n st P (a # Q)" and a: "isCall es a"
    and step: "stepAt M es (sstate st) a = (True, s)" and lin: "bitsetSet (linearized st) (idAt es a) = Some lin"
  shows "\<exists>h. lift a (nodes st) = Some h \<and> searchInv M es n (pushed st (length es) a h lin s) [] (alive es (insert (idAt es a) (idsOf es (calls st))))"
proof -
  let ?S = "idsOf es (calls st)"
  note al = searchInv_D(6) [OF inv]
  obtain h where h: "lift a (nodes st) = Some h" "dataOk es h" "linked h (length es # alive es (insert (idAt es a) ?S))" "unlift a h = Some (nodes st)"
    using lift_alive [OF p searchInv_heap [OF inv] al a] by blast
  have l: "elems lin = insert (idAt es a) ?S" "length lin = length (newBitset n)"
    using bitsetSet_elems [OF lin] searchInv_D(2,3) [OF inv] by simp_all
  have ids: "idsOf es (calls (pushed st (length es) a h lin s)) = insert (idAt es a) ?S" by simp
  have cand: "a \<in> set (takeWhile (isCall es) (alive es (idsOf es (rev (calls st)))))"
    using candidate_split [OF al] searchInv_D(7) [OF inv] a by (simp add: al)
  have "stackOk M es ((a, sstate st) # rev (calls st)) s h" using h step searchInv_D(1) [OF inv] cand by simp
  moreover have "cur (pushed st (length es) a h lin s) = (case alive es (insert (idAt es a) ?S) of [] \<Rightarrow> None | b # _ \<Rightarrow> Some b)"
    using linked_next [of h "[]" "length es" "alive es (insert (idAt es a) ?S)"] h(3) by simp
  moreover have "\<forall>k l' s'. (l', s') \<in> set (cache (pushed st (length es) a h lin s) k) \<longrightarrow> hash l' = k \<and> length l' = length (newBitset n)"
    unfolding cache_pushed using searchInv_D(4) [OF inv] l(2) by blast
  moreover have "cfgExplored M es ({}, Init M) (frames M es (rev (calls (pushed st (length es) a h lin s)))) (insert (idAt es a) ?S, s)
      (kids M es (insert (idAt es a) ?S) s (alive es (insert (idAt es a) ?S))) (memory (pushed st (length es) a h lin s))"
    unfolding memory_pushed l(1) using explored_pushed [OF inv a step] by (simp add: kidsOf_def)
  ultimately have "searchInv M es n (pushed st (length es) a h lin s) [] (alive es (insert (idAt es a) ?S))"
    unfolding searchInv_def ids pushed_sel(2-4,6) using l searchInv_D(5) [OF inv] by simp
  then show ?thesis using h(1) by blast
qed

section \<open>Taking the last call back\<close>

lemma noteLongest_total: "\<forall>k \<in> set ks. k < length lg \<Longrightarrow> \<exists>lg'. noteLongest sq ks lg = Some lg' \<and> length lg' = length lg"
proof (induction ks arbitrary: lg)
  case (Cons k ks)
  have "idx lg (int k) = Some (lg ! k)" using Cons.prems by (simp add: idx_in_range)
  then show ?case using Cons.IH [of lg] Cons.IH [of "lg[k := Some sq]"] Cons.prems by simp
qed simp

lemma stackOk_calls: "stackOk M es cs s h \<Longrightarrow> v \<in> set cs \<Longrightarrow> fst v < length es \<and> isCall es (fst v)"
proof (induction cs arbitrary: s h)
  case (Cons c cs)
  obtain a s' where c: "c = (a, s')" by fastforce
  with Cons.prems have a: "a \<in> set (takeWhile (isCall es) (alive es (idsOf es cs)))" by simp
  have "a < length es \<and> isCall es a" using set_takeWhileD [OF a] by (simp add: alive_mem)
  moreover obtain h' where "stackOk M es cs s' h'" using Cons.prems(1) c by auto
  ultimately show ?case using Cons c by auto
qed simp

lemma callIds_idAt:
  assumes p: "presents es n inp out prec" and st: "stackOk M es cs s h" "set vs \<subseteq> set cs"
  shows "callIds h vs = map (\<lambda>v. int (idAt es (fst v))) vs"
proof -
  have "nid (h ! fst v) = int (idAt es (fst v))" if "v \<in> set vs" for v
    using stackOk_calls [OF st(1), of v] st(2) that presents_nth(2) [OF p, of "fst v"] stackOk_heap [OF st(1)] by (auto simp: dataOk_def)
  then show ?thesis by (simp add: callIds_def)
qed

definition popped :: "bool \<Rightarrow> ('s, 'i, 'o) search \<Rightarrow> nat \<Rightarrow> 's \<Rightarrow> ('i, 'o) nodes \<Rightarrow> bitset \<Rightarrow> seq_ptr option list \<Rightarrow> ('s, 'i, 'o) search" where
  "popped cp st e s h lin lg =
    st\<lparr>nodes := h, cur := nnext (h ! e), linearized := lin, calls := butlast (calls st), sstate := s, longest := lg,
       allocs := allocs st + (if cp then 1 else 0)\<rparr>"

lemma popped_sel [simp]:
  "calls (popped cp st e s h lin lg) = butlast (calls st)" "sstate (popped cp st e s h lin lg) = s" "nodes (popped cp st e s h lin lg) = h"
  "linearized (popped cp st e s h lin lg) = lin" "cur (popped cp st e s h lin lg) = nnext (h ! e)" "longest (popped cp st e s h lin lg) = lg"
  "cache (popped cp st e s h lin lg) = cache st" "memory (popped cp st e s h lin lg) = memory st"
  by (simp_all add: popped_def memory_def)

lemma backtrack_popped:
  assumes p: "presents es n inp out prec" and inv: "searchInv M es n st P Q" and c: "calls st = cs @ [(e, s)]"
  shows "\<exists>h lin lg. backtrack cp st = Some (popped cp st e s h lin lg) \<and> unlift e (nodes st) = Some h \<and>
    bitsetClear (linearized st) (idAt es e) = Some lin \<and> length lg = n"
proof -
  have st: "stackOk M es ((e, s) # rev cs) (sstate st) (nodes st)" using searchInv_D(1) [OF inv] c by simp
  have ids: "callIds (nodes st) (calls st) = map (\<lambda>v. int (idAt es (fst v))) (calls st)" using callIds_idAt [OF p st] c by simp
  have lt: "idAt es (fst v) < n" if "v \<in> set (calls st)" for v
    using stackOk_calls [OF st, of v] presents_nth(3) [OF p, of "fst v"] that c by auto
  then have "\<forall>k \<in> set (map nat (callIds (nodes st) (calls st))). k < length (longest st)" using ids searchInv_D(5) [OF inv] by auto
  then obtain lg where lg: "(if cp then noteLongest (allocs st, callIds (nodes st) (calls st)) (map nat (callIds (nodes st) (calls st))) (longest st)
      else Some (longest st)) = Some lg" "length lg = n"
    using noteLongest_total searchInv_D(5) [OF inv] by (cases cp) fastforce+
  have e: "nat (nid (nodes st ! e)) = idAt es e" using ids c by (simp add: callIds_def)
  obtain h where h: "unlift e (nodes st) = Some h" using st by auto
  have "idAt es e div 64 < length (linearized st)" using newBitset_room [of "idAt es e" n] lt [of "(e, s)"] c searchInv_D(3) [OF inv] by simp
  then obtain lin where lin: "bitsetClear (linearized st) (idAt es e) = Some lin" using bitsetClear_iff by blast
  have "backtrack cp st = Some (popped cp st e s h lin lg)"
    using lg(1) c e h lin by (cases cp) (simp_all add: backtrack_def popped_def)
  then show ?thesis using h lin lg(2) by blast
qed

lemma takeWhile_split: "e \<in> set (takeWhile P xs) \<Longrightarrow> \<exists>us vs. xs = us @ e # vs \<and> (\<forall>x \<in> set (us @ [e]). P x)"
proof (induction xs)
  case (Cons x xs)
  show ?case
  proof (cases "e = x")
    case True
    then show ?thesis using Cons.prems by (intro exI [of _ "[]"] exI [of _ xs]) (auto split: if_splits)
  next
    case False
    then have "P x" "e \<in> set (takeWhile P xs)" using Cons.prems by (auto split: if_splits)
    then obtain us vs where "xs = us @ e # vs" "\<forall>x \<in> set (us @ [e]). P x" using Cons.IH by blast
    then show ?thesis using \<open>P x\<close> by (intro exI [of _ "x # us"] exI [of _ vs]) simp
  qed
qed simp

lemma searchInv_pop:
  assumes p: "presents es n inp out prec" and inv: "searchInv M es n st P (b # Q)" and b: "\<not> isCall es b" and c: "calls st = cs @ [(e, s)]"
  shows "\<exists>st' P' Q'. backtrack cp st = Some st' \<and> calls st' = cs \<and> memory st' = memory st \<and> searchInv M es n st' P' Q'"
proof -
  let ?S = "idsOf es cs"
  obtain h lin lg where bt: "backtrack cp st = Some (popped cp st e s h lin lg)" "unlift e (nodes st) = Some h"
    "bitsetClear (linearized st) (idAt es e) = Some lin" "length lg = n"
    using backtrack_popped [OF p inv c] by blast
  have st: "stackOk M es ((e, s) # rev cs) (sstate st) (nodes st)" using searchInv_D(1) [OF inv] c by simp
  then have st': "stackOk M es (rev cs) s h" and cand: "e \<in> set (takeWhile (isCall es) (alive es ?S))" using bt(2) by auto
  obtain P1 Q1 where al: "alive es ?S = P1 @ e # Q1" "\<forall>x \<in> set (P1 @ [e]). isCall es x"
    using takeWhile_split [OF cand] by blast
  have id: "idAt es e \<notin> ?S" using alive_mem [of e es ?S] al(1) by simp
  have f: "frames M es (rev (calls st)) = frames M es (rev cs) @ [((?S, s), kids M es ?S s Q1)]" using c by (simp add: after_split [OF al(1)])
  have "cfgExplored M es ({}, Init M) (frames M es (rev cs)) (?S, s) (kids M es ?S s Q1) (memory st)"
    using memo.explored_pop [OF searchInv_D(9) [OF inv, unfolded f kids_return [OF b]]] searchInv_D(6) [OF inv] by simp
  moreover have "nnext (h ! e) = (case Q1 of [] \<Rightarrow> None | x # _ \<Rightarrow> Some x)"
    using linked_next [of h "length es # P1" e Q1] stackOk_heap [OF st'] al(1) by simp
  moreover have "elems lin = ?S" "length lin = length (newBitset n)"
    using bitsetClear_elems [OF bt(3)] searchInv_D(2,3) [OF inv] c id by auto
  moreover have cs: "butlast (calls st) = cs" using c by simp
  ultimately have "searchInv M es n (popped cp st e s h lin lg) (P1 @ [e]) Q1"
    unfolding searchInv_def popped_sel cs using st' bt(4) al searchInv_D(4) [OF inv] by simp
  then show ?thesis using bt(1) cs by (metis popped_sel(1,8))
qed

section \<open>One turn\<close>

text \<open>The equality of the model: reflexive, and equal states behave alike.\<close>

definition equalOk :: "('s, 'i, 'o) Model \<Rightarrow> bool" where
  "equalOk M \<longleftrightarrow> (\<exists>eq. Equal M = Some eq \<and> (\<forall>s. eq s s) \<and> (\<forall>s t. eq s t \<longrightarrow> sameState M s t))"

lemma cacheScan_spec: "cacheScan (Some eq) lin st xs = Some (\<exists>x \<in> set xs. fst x = lin \<and> eq st (snd x))"
  by (induction xs) auto

lemma cacheContains_spec:
  assumes "equalOk M" and "searchInv M es n st P Q" and "length lin = length (newBitset n)"
  shows "\<exists>r. cacheContains M (cache st) (lin, s) = Some r \<and> (r \<longrightarrow> (\<exists>t. (elems lin, t) \<in> memory st \<and> sameState M s t)) \<and>
    (\<not> r \<longrightarrow> (elems lin, s) \<notin> memory st)"
proof -
  obtain eq where eq: "Equal M = Some eq" "\<And>s. eq s s" "\<And>s t. eq s t \<Longrightarrow> sameState M s t" using assms(1) by (auto simp: equalOk_def)
  have new: "(elems lin, s) \<notin> memory st" if "\<not> (\<exists>x \<in> set (cache st (hash lin)). fst x = lin \<and> eq s (snd x))"
  proof
    assume "(elems lin, s) \<in> memory st"
    then obtain l k where l: "elems l = elems lin" "(l, s) \<in> set (cache st k)" by (auto simp: memory_def)
    then have "l = lin" "k = hash l" using searchInv_D(4) [OF assms(2) l(2)] elems_inject [of l lin] assms(3) by auto
    then show False using that l(2) eq(2) by fastforce
  qed
  have "\<exists>t. (elems lin, t) \<in> memory st \<and> sameState M s t" if "x \<in> set (cache st (hash lin))" "fst x = lin" "eq s (snd x)" for x
    using that eq(3) by (intro exI [of _ "snd x"]) (auto simp: memory_def intro!: exI [of _ "hash lin"] exI [of _ lin])
  then show ?thesis using new eq(1) by (auto simp: cacheContains_def cacheScan_spec)
qed

lemma tryCall_step:
  assumes p: "presents es n inp out prec" and inv: "searchInv M es n st P (a # Q)" and a: "isCall es a" and al: "a < length es"
  shows "\<exists>m. nmatch (nodes st ! a) = Some m \<and> tryCall M (length es) a m st =
    (if fst (stepAt M es (sstate st) a)
     then do {
       lin \<leftarrow> bitsetSet (linearized st) (idAt es a);
       r \<leftarrow> cacheContains M (cache st) (lin, snd (stepAt M es (sstate st) a));
       (if \<not> r then do { h \<leftarrow> lift a (nodes st); Some (pushed st (length es) a h lin (snd (stepAt M es (sstate st) a))) }
        else Some (st\<lparr>cur := nnext (nodes st ! a)\<rparr>)) }
     else Some (st\<lparr>cur := nnext (nodes st ! a)\<rparr>))"
proof -
  obtain m where m: "m < a" "lastReturn (take a (rev es)) (eid (rev es ! a)) = Some m" "\<not> isCall es m" "idAt es m = idAt es a"
    using presents_mate [OF p al a] by blast
  note d = searchInv_heap(1) [OF inv, unfolded dataOk_def]
  have v: "nvalue (nodes st ! a) = InV (inp (idAt es a))" "nvalue (nodes st ! m) = OutV (out (idAt es a))" "nid (nodes st ! a) = int (idAt es a)"
    using d al m presents_nth(2,4) [OF p al] presents_nth(5) [OF p, of m] a by auto
  have "nmatch (nodes st ! a) = Some m" using d al a m(2) by simp
  moreover obtain ok s' where s: "stepAt M es (sstate st) a = (ok, s')" by fastforce
  moreover have "Step M (sstate st) (inp (idAt es a)) (out (idAt es a)) = (ok, s')" using presents_step [OF p al a] s by metis
  ultimately show ?thesis
    by (cases "bitsetSet (linearized st) (idAt es a)") (auto simp: tryCall_def v s pushed_def Let_def intro!: arg_cong2 [where f = Option.bind])
qed

text \<open>What a turn uses up: what can still be remembered, what can be undone, what can be tried.\<close>

abbreviation cfgRoom :: "('s, 'i, 'o) Model \<Rightarrow> ('i, 'o) entry list \<Rightarrow> (nat set \<times> 's) set \<Rightarrow> nat" where
  "cfgRoom M es \<equiv> memo_search.room (kidsOf M es) ({}, Init M)"

definition effort :: "('s, 'i, 'o) Model \<Rightarrow> ('i, 'o) entry list \<Rightarrow> ('s, 'i, 'o) search \<times> nat list \<Rightarrow> nat \<times> nat \<times> nat" where
  "effort M es = (\<lambda>(st, Q). (cfgRoom M es (memory st), length (calls st), length Q))"

definition lighter :: "('s, 'i, 'o) Model \<Rightarrow> ('i, 'o) entry list \<Rightarrow> (('s, 'i, 'o) search \<times> nat list) rel" where
  "lighter M es = inv_image (less_than <*lex*> less_than <*lex*> less_than) (effort M es)"

lemma lighter_wf: "wf (lighter M es)"
  by (simp add: lighter_def wf_lex_prod)

lemma turn_call:
  assumes p: "presents es n inp out prec" and eq: "equalOk M" and inv: "searchInv M es n st P (a # Q)" and a: "isCall es a"
  shows "\<exists>st' P' Q'. checkStep M cp (length es) st = Some (Inl st') \<and> searchInv M es n st' P' Q' \<and> ((st', Q'), (st, a # Q)) \<in> lighter M es"
proof -
  let ?S = "idsOf es (calls st)" and ?s = "snd (stepAt M es (sstate st) a)"
  have al: "a < length es" using alive_mem [of a es ?S] searchInv_D(6) [OF inv] by simp
  obtain m where m: "nmatch (nodes st ! a) = Some m" and t: "tryCall M (length es) a m st =
    (if fst (stepAt M es (sstate st) a)
     then do {
       lin \<leftarrow> bitsetSet (linearized st) (idAt es a);
       r \<leftarrow> cacheContains M (cache st) (lin, ?s);
       (if \<not> r then do { h \<leftarrow> lift a (nodes st); Some (pushed st (length es) a h lin ?s) }
        else Some (st\<lparr>cur := nnext (nodes st ! a)\<rparr>)) }
     else Some (st\<lparr>cur := nnext (nodes st ! a)\<rparr>))"
    using tryCall_step [OF p inv a al] by blast
  have step: "checkStep M cp (length es) st = map_option Inl (tryCall M (length es) a m st)"
    using searchInv_D(8) [OF inv] m by (simp add: checkStep_def)
  have moved: "((st\<lparr>cur := c\<rparr>, Q), (st, a # Q)) \<in> lighter M es" for c by (simp add: lighter_def effort_def memory_def)
  show ?thesis
  proof (cases "fst (stepAt M es (sstate st) a)")
    case False
    then show ?thesis using step t searchInv_next [OF inv a] moved by fastforce
  next
    case True
    have "idAt es a div 64 < length (linearized st)"
      using newBitset_room [OF presents_nth(3) [OF p al]] searchInv_D(3) [OF inv] by simp
    then obtain lin where lin: "bitsetSet (linearized st) (idAt es a) = Some lin" using bitsetSet_iff by blast
    have l: "elems lin = insert (idAt es a) ?S" "length lin = length (newBitset n)"
      using bitsetSet_elems [OF lin] searchInv_D(2,3) [OF inv] by simp_all
    obtain r where r: "cacheContains M (cache st) (lin, ?s) = Some r" "r \<Longrightarrow> \<exists>t. (elems lin, t) \<in> memory st \<and> sameState M ?s t"
      "\<not> r \<Longrightarrow> (elems lin, ?s) \<notin> memory st"
      using cacheContains_spec [OF eq inv l(2), of ?s] by blast
    show ?thesis
    proof (cases r)
      case hit: True
      obtain u where "(elems lin, u) \<in> memory st" "sameState M ?s u" using r(2) [OF hit] by blast
      then have "\<exists>y \<in> memory st. cfgAlike M (insert (idAt es a) ?S, ?s) y"
        using l(1) by (intro bexI [of _ "(elems lin, u)"]) (simp_all add: cfgAlike_def)
      then show ?thesis using step t True lin r(1) hit searchInv_next [OF inv a] moved by fastforce
    next
      case miss: False
      have s: "stepAt M es (sstate st) a = (True, ?s)" using True by (metis prod.collapse)
      obtain h where h: "lift a (nodes st) = Some h"
        "searchInv M es n (pushed st (length es) a h lin ?s) [] (alive es (insert (idAt es a) ?S))"
        using searchInv_push [OF p inv a s lin] by blast
      have "(elems lin, ?s) \<in> memory (pushed st (length es) a h lin ?s)" by (simp add: memory_pushed)
      then have "cfgReach M es ({}, Init M) (elems lin, ?s)"
        using searchInv_D(9) [OF h(2)] unfolding memo.explored_def by blast
      then have "cfgRoom M es (insert (elems lin, ?s) (memory st)) < cfgRoom M es (memory st)" using memo.room_push r(3) [OF miss] by blast
      then have "((pushed st (length es) a h lin ?s, alive es (insert (idAt es a) ?S)), (st, a # Q)) \<in> lighter M es"
        by (simp add: lighter_def effort_def memory_pushed)
      then show ?thesis using step t True lin r(1) miss h by fastforce
    qed
  qed
qed

lemma turn_return:
  assumes p: "presents es n inp out prec" and inv: "searchInv M es n st P (b # Q)" and b: "\<not> isCall es b"
  shows "(\<exists>st' P' Q'. checkStep M cp (length es) st = Some (Inl st') \<and> searchInv M es n st' P' Q' \<and> ((st', Q'), (st, b # Q)) \<in> lighter M es) \<or>
    checkStep M cp (length es) st = Some (Inr (False, longest st)) \<and> cfgDead M es ({}, Init M)"
proof -
  have "b < length es" using alive_mem [of b es "idsOf es (calls st)"] searchInv_D(6) [OF inv] by simp
  then have m: "nmatch (nodes st ! b) = None" using searchInv_heap(1) [OF inv] b by (simp add: dataOk_def)
  show ?thesis
  proof (cases "calls st" rule: rev_cases)
    case Nil
    have "cfgDead M es ({}, Init M)"
      using memo.explored_failed [of M es] searchInv_D(9) [OF inv, unfolded kids_return [OF b]] searchInv_D(6) [OF inv] Nil by simp
    then show ?thesis using searchInv_D(8) [OF inv] m Nil by (simp add: checkStep_def)
  next
    case (snoc cs c)
    obtain e s where c: "calls st = cs @ [(e, s)]" using snoc by (metis prod.exhaust)
    obtain st' P' Q' where st': "backtrack cp st = Some st'" "calls st' = cs" "memory st' = memory st" "searchInv M es n st' P' Q'"
      using searchInv_pop [OF p inv b c] by blast
    have "((st', Q'), (st, b # Q)) \<in> lighter M es" using st'(2,3) c by (simp add: lighter_def effort_def)
    then show ?thesis using searchInv_D(8) [OF inv] m c st' by (fastforce simp: checkStep_def)
  qed
qed

section \<open>The loop returns\<close>

lemma alive_ends_with_return:
  assumes p: "presents es n inp out prec" and "alive es S = P @ Q" and "\<forall>a \<in> set P. isCall es a" and "alive es S \<noteq> []"
  shows "Q \<noteq> []"
proof
  assume "Q = []"
  then obtain a where a: "a \<in> set (alive es S)" "isCall es a" "\<forall>x \<in> set (alive es S). isCall es x" using assms(2-4) by (metis append_Nil2 last_in_set)
  then obtain b where "b < a" "\<not> isCall es b" "idAt es b = idAt es a" using presents_mate [OF p, of a] by (auto simp: alive_mem)
  then show False using a by (auto simp: alive_mem)
qed

lemma head_end:
  assumes "searchInv M es n st P Q"
  shows "nnext (nodes st ! length es) = None \<longleftrightarrow> alive es (idsOf es (calls st)) = []"
  using linked_next [of "nodes st" "[]" "length es" "P @ Q"] searchInv_heap(2) [OF assms] searchInv_D(6) [OF assms]
  by (cases "P @ Q") simp_all

lemma complete_linearizes:
  assumes p: "presents es n inp out prec" and inv: "searchInv M es n st P Q" and e: "alive es (idsOf es (calls st)) = []"
  shows "\<exists>ptr ks. linearization M inp out prec n ks \<and> complete n st = (True, replicate n (Some (ptr, map int ks)))"
proof -
  let ?ks = "map (\<lambda>v. idAt es (fst v)) (calls st)"
  have r: "linRun M es ({}, Init M) ?ks (idsOf es (calls st), sstate st)" using stackOk_linRun [OF searchInv_D(1) [OF inv]] by simp
  have "linearization M inp out prec n ?ks" using linRun_sound [OF p r] e by (simp add: linearization_def)
  moreover have "callIds (nodes st) (calls st) = map int ?ks" using callIds_idAt [OF p searchInv_D(1) [OF inv], of "calls st"] by simp
  ultimately show ?thesis unfolding complete_def by (intro exI [of _ "allocs st"] exI [of _ ?ks]) simp
qed

text \<open>What the loop promises.\<close>

definition loopAnswer ::
  "('s, 'i, 'o) Model \<Rightarrow> ('i, 'o) entry list \<Rightarrow> (nat \<Rightarrow> 'i) \<Rightarrow> (nat \<Rightarrow> 'o) \<Rightarrow> (nat \<Rightarrow> nat \<Rightarrow> bool) \<Rightarrow> nat \<Rightarrow> (nat \<Rightarrow> bool) \<Rightarrow>
   (bool \<times> seq_ptr option list) option \<Rightarrow> bool" where
  "loopAnswer M es inp out prec n kill r \<longleftrightarrow>
     (\<exists>ptr ks. linearization M inp out prec n ks \<and> r = Some (True, replicate n (Some (ptr, map int ks)))) \<or>
     (\<exists>lg. r = Some (False, lg) \<and> (cfgDead M es ({}, Init M) \<or> (\<exists>t. kill t)))"

lemma checkLoop_turn:
  assumes p: "presents es n inp out prec" and eq: "equalOk M" and inv: "searchInv M es n st P Q"
  shows "(\<exists>st' P' Q'. checkLoop M cp kill (length es) n turn st = checkLoop M cp kill (length es) n (turn + 1) st' \<and>
      searchInv M es n st' P' Q' \<and> ((st', Q'), (st, Q)) \<in> lighter M es) \<or>
    loopAnswer M es inp out prec n kill (checkLoop M cp kill (length es) n turn st)"
proof -
  let ?S = "idsOf es (calls st)"
  note unfold = checkLoop.simps [of M cp kill "length es" n turn st] head_end [OF inv]
  consider (found) "alive es ?S = []" | (killed) "alive es ?S \<noteq> []" "kill turn" | (go) "alive es ?S \<noteq> []" "\<not> kill turn" by blast
  then show ?thesis
  proof cases
    case found
    then show ?thesis using complete_linearizes [OF p inv found] unfold by (auto simp: loopAnswer_def)
  next
    case killed
    then show ?thesis using unfold by (auto simp: loopAnswer_def)
  next
    case go
    then have "Q \<noteq> []" using alive_ends_with_return [OF p searchInv_D(6) [OF inv]] searchInv_D(7) [OF inv] by blast
    then obtain a Q' where Q: "Q = a # Q'" by (cases Q) auto
    have "(\<exists>st' P' Q''. checkStep M cp (length es) st = Some (Inl st') \<and> searchInv M es n st' P' Q'' \<and> ((st', Q''), (st, Q)) \<in> lighter M es) \<or>
        checkStep M cp (length es) st = Some (Inr (False, longest st)) \<and> cfgDead M es ({}, Init M)"
      using turn_call [OF p eq inv [unfolded Q]] turn_return [OF p inv [unfolded Q]] unfolding Q by blast
    then show ?thesis using go unfold by (auto simp: loopAnswer_def)
  qed
qed

lemma checkLoop_spec:
  assumes p: "presents es n inp out prec" and eq: "equalOk M"
  shows "searchInv M es n st P Q \<Longrightarrow> loopAnswer M es inp out prec n kill (checkLoop M cp kill (length es) n turn st)"
proof (induction "(st, Q)" arbitrary: st P Q turn rule: wf_induct_rule [OF lighter_wf [of M es]])
  case 1
  from checkLoop_turn [OF p eq 1(2), of cp kill turn] show ?case
  proof
    assume "\<exists>st' P' Q'. checkLoop M cp kill (length es) n turn st = checkLoop M cp kill (length es) n (turn + 1) st' \<and>
      searchInv M es n st' P' Q' \<and> ((st', Q'), (st, Q)) \<in> lighter M es"
    then obtain st' P' Q' where st': "checkLoop M cp kill (length es) n turn st = checkLoop M cp kill (length es) n (turn + 1) st'"
      "searchInv M es n st' P' Q'" "((st', Q'), (st, Q)) \<in> lighter M es" by blast
    show ?case unfolding st'(1) by (rule 1(1) [OF st'(3,2)])
  qed
qed

section \<open>The search of one partition\<close>

lemma presents_length:
  assumes "presents es n inp out prec"
  shows "length es = 2 * n"
proof -
  have "length es = card ((\<lambda>e. (ekind e, eid e)) ` set es)"
    using assms distinct_card [of "map (\<lambda>e. (ekind e, eid e)) es"] by (simp add: presents_def)
  also have "\<dots> = card ({callEntry, returnEntry} \<times> int ` {..<n})" using assms by (simp add: presents_def)
  also have "\<dots> = 2 * n" by (simp add: card_cartesian_product card_image)
  finally show ?thesis .
qed

lemma alive_all: "alive es {} = rev [0..<length es]"
  by (simp add: alive_def)

lemma linked_start:
  assumes ml: "makeLinkedEntries es = (h, root)" and h': "h' = insertBefore (length h) root (h @ [newNode NilV None (- 1)])"
  shows "length h = length es" "nodeLength h root 0 = Some (length es)" "dataOk es h'" "linked h' (length es # alive es {})"
    "root = (case alive es {} of [] \<Rightarrow> None | a # _ \<Rightarrow> Some a)"
proof -
  note i = makeLinkedEntries_inv [OF ml, unfolded linkInv_def length_rev]
  have root: "root = (if length es = 0 then None else Some (length es - 1))" and l: "linked h (rev [0..<length es])" using i by blast+
  show len: "length h = length es" using i by blast
  show "root = (case alive es {} of [] \<Rightarrow> None | a # _ \<Rightarrow> Some a)" using root by (cases "length es") (simp_all add: alive_all)
  show "nodeLength h root 0 = Some (length es)"
  proof (cases "length es")
    case 0
    then show ?thesis using root by (simp add: nodeLength.simps)
  next
    case (Suc k)
    then show ?thesis using nodeLength_linked [of h k "rev [0..<k]" 0] l root by simp
  qed
  note ib = insertBefore_root [OF len root l, of "newNode NilV None (- 1)" h']
  have ib': "length h' = Suc (length es)" "linked h' (rev [0..<Suc (length es)])"
    "\<And>a. a \<le> length es \<Longrightarrow> nvalue (h' ! a) = nvalue ((h @ [newNode NilV None (- 1)]) ! a) \<and>
      nmatch (h' ! a) = nmatch ((h @ [newNode NilV None (- 1)]) ! a) \<and> nid (h' ! a) = nid ((h @ [newNode NilV None (- 1)]) ! a)"
    using ib i h' len by (simp_all add: newNode_def)
  show "linked h' (length es # alive es {})" using ib'(2) by (simp add: alive_all)
  have kind: "ekind (rev es ! a) = returnEntry \<longleftrightarrow> \<not> isCall es a" for a by (cases "ekind (rev es ! a)") (auto simp: isCall_def)
  show "dataOk es h'" unfolding dataOk_def using ib'(1,3) i kind by (auto simp: nth_append)
qed

text \<open>The state in which the loop starts.\<close>

lemma checkSingle_start:
  assumes p: "presents es n inp out prec"
  obtains st P Q where "checkSingle M es cp kill = checkLoop M cp kill (length es) n 0 st" "searchInv M es n st P Q" "longest st = replicate n None"
proof -
  obtain h root where ml: "makeLinkedEntries es = (h, root)" by fastforce
  let ?h = "insertBefore (length h) root (h @ [newNode NilV None (- 1)])"
  let ?st = "\<lparr>nodes = ?h, cur = root, linearized = newBitset n, cache = (\<lambda>k. []), calls = [], sstate = Init M, longest = replicate n None, allocs = 0\<rparr>"
  note s = linked_start [OF ml refl]
  have "cfgExplored M es ({}, Init M) [] ({}, Init M) (kids M es {} (Init M) (alive es {})) {}"
    using memo.explored_start [of M es "({}, Init M)"] by (simp add: kidsOf_def)
  then have "searchInv M es n ?st [] (alive es {})" using s(3-5) by (simp add: searchInv_def memory_def)
  moreover have "checkSingle M es cp kill = checkLoop M cp kill (length es) n 0 ?st"
    using ml s(1,2) presents_length [OF p] by (simp add: checkSingle_def Let_def)
  ultimately show ?thesis by (auto intro: that)
qed

lemma checkSingle_spec:
  assumes p: "presents es n inp out prec" and eq: "equalOk M"
  shows "loopAnswer M es inp out prec n kill (checkSingle M es cp kill)"
  by (rule checkSingle_start [OF p, of M cp kill]) (simp add: checkLoop_spec [OF p eq])

end
