(* ===== verification/Porcupine_Check.thy ===== *)
theory Porcupine_Check
  imports Porcupine_Loop "HOL-Library.Multiset"
begin

text \<open>
  From entries to histories: the sorted entries of a list of operations present it, and the answers of the partitions, in whatever order they arrive,
  are put together to the verdict on the history.
\<close>

section \<open>Histories of operations\<close>

abbreviation inputs :: "('i, 'o) Operation list \<Rightarrow> nat \<Rightarrow> 'i" where
  "inputs ops \<equiv> (\<lambda>k. opInput (ops ! k))"

abbreviation outputs :: "('i, 'o) Operation list \<Rightarrow> nat \<Rightarrow> 'o" where
  "outputs ops \<equiv> (\<lambda>k. opOutput (ops ! k))"

text \<open>Real-time order: one operation had returned when the other was called.\<close>

definition before :: "('i, 'o) Operation list \<Rightarrow> nat \<Rightarrow> nat \<Rightarrow> bool" where
  "before ops i j \<longleftrightarrow> opReturn (ops ! i) < opCall (ops ! j)"

definition linearizable :: "('s, 'i, 'o) Model \<Rightarrow> ('i, 'o) Operation list \<Rightarrow> bool" where
  "linearizable M ops \<longleftrightarrow> (\<exists>ks. linearization M (inputs ops) (outputs ops) (before ops) (length ops) ks)"

definition wellTimed :: "('i, 'o) Operation list \<Rightarrow> bool" where
  "wellTimed ops \<longleftrightarrow> (\<forall>x \<in> set ops. opCall x \<le> opReturn x)"

text \<open>What \<open>sort.Sort\<close> promises.\<close>

definition sorts :: "(('i, 'o) entry list \<Rightarrow> ('i, 'o) entry list) \<Rightarrow> bool" where
  "sorts srt \<longleftrightarrow> (\<forall>xs. mset (srt xs) = mset xs \<and> sorted_wrt (\<lambda>a b. \<not> entryLess b a) (srt xs))"

definition callOf :: "int \<Rightarrow> ('i, 'o) Operation \<Rightarrow> ('i, 'o) entry" where
  "callOf k x = \<lparr>ekind = callEntry, evalue = InV (opInput x), eid = k, etime = opCall x, eclientId = opClientId x\<rparr>"

definition returnOf :: "int \<Rightarrow> ('i, 'o) Operation \<Rightarrow> ('i, 'o) entry" where
  "returnOf k x = \<lparr>ekind = returnEntry, evalue = OutV (opOutput x), eid = k, etime = opReturn x, eclientId = opClientId x\<rparr>"

lemma entriesFrom_mem: "e \<in> set (entriesFrom k ops) \<longleftrightarrow> (\<exists>i < length ops. e = callOf (k + int i) (ops ! i) \<or> e = returnOf (k + int i) (ops ! i))"
proof (induction ops arbitrary: k)
  case (Cons x ops)
  have "(\<exists>i < length (x # ops). e = callOf (k + int i) ((x # ops) ! i) \<or> e = returnOf (k + int i) ((x # ops) ! i)) \<longleftrightarrow>
      e = callOf k x \<or> e = returnOf k x \<or> (\<exists>i < length ops. e = callOf (k + 1 + int i) (ops ! i) \<or> e = returnOf (k + 1 + int i) (ops ! i))"
    by (simp add: Ex_less_Suc2 add.assoc disj_assoc)
  then show ?case using Cons by (simp add: callOf_def returnOf_def)
qed simp

lemma entriesFrom_distinct: "distinct (map (\<lambda>e. (ekind e, eid e)) (entriesFrom k ops))"
proof (induction ops arbitrary: k)
  case (Cons x ops)
  have "eid e \<noteq> k" if "e \<in> set (entriesFrom (k + 1) ops)" for e using that unfolding entriesFrom_mem
    by (elim exE conjE disjE) (simp_all add: callOf_def returnOf_def)
  then show ?case using Cons by fastforce
qed simp

lemma makeEntries_mem:
  assumes "sorts srt"
  shows "e \<in> set (makeEntries srt ops) \<longleftrightarrow> (\<exists>i < length ops. e = callOf (int i) (ops ! i) \<or> e = returnOf (int i) (ops ! i))"
proof -
  have "set (makeEntries srt ops) = set (entriesFrom 0 ops)" using assms by (metis makeEntries_def mset_eq_setD sorts_def)
  then show ?thesis by (simp add: entriesFrom_mem)
qed

lemma makeEntries_order:
  assumes srt: "sorts srt" and p: "p < length (makeEntries srt ops)" "q < length (makeEntries srt ops)"
    and r: "ekind (makeEntries srt ops ! p) = returnEntry" "ekind (makeEntries srt ops ! q) = callEntry"
  shows "p < q \<longleftrightarrow> etime (makeEntries srt ops ! p) < etime (makeEntries srt ops ! q)"
proof -
  let ?es = "makeEntries srt ops"
  have s: "\<not> entryLess (?es ! j) (?es ! i)" if "i < j" "j < length ?es" for i j
    using srt that by (simp add: sorts_def makeEntries_def sorted_wrt_iff_nth_less)
  show ?thesis
  proof (cases p q rule: linorder_cases)
    case less
    then show ?thesis using s [OF less p(2)] r by (auto simp: entryLess_def split: if_splits)
  next
    case equal
    then show ?thesis using r by simp
  next
    case greater
    then show ?thesis using s [OF greater p(1)] r by (auto simp: entryLess_def split: if_splits)
  qed
qed

lemma makeEntries_presents:
  assumes srt: "sorts srt" and t: "wellTimed ops"
  shows "presents (makeEntries srt ops) (length ops) (inputs ops) (outputs ops) (before ops)"
proof -
  let ?es = "makeEntries srt ops"
  have m: "mset ?es = mset (entriesFrom 0 ops)" using srt by (simp add: sorts_def makeEntries_def)
  have "distinct (map (\<lambda>e. (ekind e, eid e)) ?es)"
    using entriesFrom_distinct [of 0 ops] mset_eq_imp_distinct_iff [of "map (\<lambda>e. (ekind e, eid e)) ?es"] m by (metis mset_map)
  moreover have "(\<lambda>e. (ekind e, eid e)) ` set ?es = {callEntry, returnEntry} \<times> int ` {..<length ops}"
  proof (rule set_eqI)
    fix x :: "entryKind \<times> int"
    obtain k i where x: "x = (k, i)" by fastforce
    show "x \<in> (\<lambda>e. (ekind e, eid e)) ` set ?es \<longleftrightarrow> x \<in> {callEntry, returnEntry} \<times> int ` {..<length ops}"
      unfolding image_iff Bex_def makeEntries_mem [OF srt] x by (cases k) (auto simp: callOf_def returnOf_def)
  qed
  moreover have "\<forall>e \<in> set ?es. evalue e = (case ekind e of callEntry \<Rightarrow> InV (inputs ops (nat (eid e))) | returnEntry \<Rightarrow> OutV (outputs ops (nat (eid e))))"
    by (auto simp: makeEntries_mem [OF srt] callOf_def returnOf_def)
  moreover have "p < q \<longleftrightarrow> before ops (nat (eid (?es ! p))) (nat (eid (?es ! q)))"
    if "p < length ?es" "q < length ?es" "ekind (?es ! p) = returnEntry" "ekind (?es ! q) = callEntry" for p q
    using makeEntries_order [OF srt that] nth_mem [OF that(1)] nth_mem [OF that(2)] that(3,4)
    by (auto simp: makeEntries_mem [OF srt] callOf_def returnOf_def before_def)
  moreover have "\<forall>k < length ops. \<not> before ops k k" using t by (auto simp: wellTimed_def before_def not_less)
  ultimately show ?thesis unfolding presents_def by blast
qed

lemma checkSingle_linearizable:
  assumes "sorts srt" and "wellTimed ops" and "equalOk M" and "\<And>t. \<not> kill t"
  shows "\<exists>lg. checkSingle M (makeEntries srt ops) cp kill = Some (linearizable M ops, lg)"
  using checkSingle_spec [OF makeEntries_presents [OF assms(1,2)] assms(3), of kill cp] assms(4)
    start_not_dead [OF makeEntries_presents [OF assms(1,2)], of M]
  by (auto simp: loopAnswer_def linearizable_def)

lemma checkSingle_returns:
  assumes "sorts srt" and "wellTimed ops" and "equalOk M"
  shows "\<exists>b lg. checkSingle M (makeEntries srt ops) cp kill = Some (b, lg) \<and> (b \<longrightarrow> linearizable M ops)"
  using checkSingle_spec [OF makeEntries_presents [OF assms(1,2)] assms(3), of kill cp] by (auto simp: loopAnswer_def linearizable_def)

section \<open>All partitions\<close>

lemma runAll_results:
  assumes "sorts srt" and "equalOk M" and "\<forall>sub \<in> set subs. wellTimed sub"
  shows "\<exists>rs. runAll M cp kill k (map (makeEntries srt) subs) = Some rs \<and> length rs = length subs \<and>
    (\<forall>i < length subs. (fst (rs ! i) \<longrightarrow> linearizable M (subs ! i)) \<and> ((\<forall>t. \<not> kill (k + i) t) \<longrightarrow> fst (rs ! i) = linearizable M (subs ! i)))"
  using assms(3)
proof (induction subs arbitrary: k)
  case (Cons sub subs)
  obtain rs where rs: "runAll M cp kill (k + 1) (map (makeEntries srt) subs) = Some rs" "length rs = length subs"
    "\<forall>i < length subs. (fst (rs ! i) \<longrightarrow> linearizable M (subs ! i)) \<and> ((\<forall>t. \<not> kill (k + 1 + i) t) \<longrightarrow> fst (rs ! i) = linearizable M (subs ! i))"
    using Cons.IH [of "k + 1"] Cons.prems by auto
  obtain b lg where b: "checkSingle M (makeEntries srt sub) cp (kill k) = Some (b, lg)" "b \<longrightarrow> linearizable M sub"
    using checkSingle_returns [OF assms(1) _ assms(2), of sub cp "kill k"] Cons.prems by auto
  have "b = linearizable M sub" if "\<forall>t. \<not> kill k t"
    using checkSingle_linearizable [OF assms(1) _ assms(2), of sub "kill k" cp] Cons.prems that b(1) by auto
  then show ?case using rs b by (auto simp: less_Suc_eq_0_disj)
qed simp

lemma collect_verdict:
  "collect False results True seen (map ResultOf order) = Some (ok, timedOut) \<Longrightarrow> distinct order \<Longrightarrow> set order \<subseteq> {..<length results} \<Longrightarrow>
   S \<inter> set order = {} \<Longrightarrow> S \<subseteq> {..<length results} \<Longrightarrow> card S = seen \<Longrightarrow> \<forall>i \<in> S. results ! i \<Longrightarrow>
   \<not> timedOut \<and> (if ok then \<forall>i < length results. i \<in> S \<union> set order \<and> results ! i else \<exists>i \<in> set order. \<not> results ! i)"
proof (induction order arbitrary: seen S)
  case (Cons i order)
  have fin: "finite S" using Cons.prems(5) finite_subset by blast
  have c: "card (insert i S) = seen + 1" "insert i S \<subseteq> {..<length results}" using Cons.prems fin by auto
  show ?case
  proof (cases "results ! i")
    case False
    then show ?thesis using Cons.prems(1) by auto
  next
    case r: True
    show ?thesis
    proof (cases "length results \<le> seen + 1")
      case True
      then have "insert i S = {..<length results}" using c card_subset_eq [of "{..<length results}" "insert i S"] card_mono [OF _ c(2)] by simp
      then have "\<forall>j < length results. j = i \<or> j \<in> S" by blast
      then show ?thesis using Cons.prems(1,7) r True by auto
    next
      case False
      have "\<not> timedOut \<and> (if ok then \<forall>j < length results. j \<in> insert i S \<union> set order \<and> results ! j else \<exists>j \<in> set order. \<not> results ! j)"
        by (rule Cons.IH [of "seen + 1"]) (use Cons.prems c r False in auto)
      then show ?thesis by (auto split: if_splits)
    qed
  qed
qed simp

lemma collect_returns:
  "order \<noteq> [] \<Longrightarrow> length results \<le> seen + length order \<Longrightarrow> \<exists>r. collect cp results ok seen (map ResultOf order) = Some r"
proof (induction order arbitrary: ok seen)
  case (Cons i order)
  show ?case
  proof (cases "length results \<le> seen + 1")
    case False
    then have "order \<noteq> []" "length results \<le> (seen + 1) + length order" using Cons.prems(2) by auto
    then obtain r where "collect cp results (ok \<and> results ! i) (seen + 1) (map ResultOf order) = Some r" using Cons.IH by blast
    then show ?thesis by (cases "\<not> (ok \<and> results ! i) \<and> \<not> cp") (auto simp: False Let_def)
  qed (auto simp: Let_def)
qed simp

lemma legal_fillDefault: "legal (fillDefault M) inp out s ks = legal M inp out s ks"
  by (induction ks arbitrary: s) (simp_all add: fillDefault_def)

lemma linearizable_fillDefault [simp]: "linearizable (fillDefault M) ops = linearizable M ops"
  by (simp add: linearizable_def linearization_def legal_fillDefault) (simp add: fillDefault_def)

lemma CheckOperations_verdict:
  assumes srt: "sorts srt" and eq: "equalOk (fillDefault M)" and part: "Partition (fillDefault M) = Some part"
    and t: "\<forall>sub \<in> set (part history). wellTimed sub"
    and order: "distinct order" "set order \<subseteq> {..<length (part history)}" and kill: "\<And>i t. i \<in> set order \<Longrightarrow> \<not> kill i t"
    and res: "CheckOperations srt M history kill (map ResultOf order) = Some b"
  shows "b \<longleftrightarrow> (\<forall>sub \<in> set (part history). linearizable M sub)"
proof -
  obtain rs where rs: "runAll (fillDefault M) False kill 0 (map (makeEntries srt) (part history)) = Some rs" "length rs = length (part history)"
    "\<forall>i < length (part history). (\<forall>t. \<not> kill i t) \<longrightarrow> fst (rs ! i) = linearizable M (part history ! i)"
    using runAll_results [OF srt eq t, of False kill 0] by auto
  obtain ok timedOut where c: "collect False (map fst rs) True 0 (map ResultOf order) = Some (ok, timedOut)" "b = (verdict (ok, timedOut) = Ok)"
    using res part rs(1) by (auto simp: CheckOperations_def checkOperations_def checkParallel_def Let_def bind_Some_iff)
  have v: "\<not> timedOut \<and> (if ok then \<forall>i < length rs. i \<in> set order \<and> map fst rs ! i else \<exists>i \<in> set order. \<not> map fst rs ! i)"
    using collect_verdict [OF c(1) order(1), of "{}"] order(2) rs(2) by (cases ok) simp_all
  have r: "map fst rs ! i = linearizable M (part history ! i)" if "i \<in> set order" for i
    using rs(2,3) order(2) kill [OF that] that by auto
  have "ok \<longleftrightarrow> (\<forall>sub \<in> set (part history). linearizable M sub)"
  proof (cases ok)
    case True
    then have "linearizable M (part history ! i)" if "i < length (part history)" for i using v r [of i] that rs(2) by auto
    then show ?thesis using True by (auto simp: in_set_conv_nth)
  next
    case False
    then obtain i where "i \<in> set order" "\<not> linearizable M (part history ! i)" using v r by auto
    then show ?thesis using False order(2) by (auto simp: subset_iff dest: nth_mem)
  qed
  then show ?thesis using c(2) v by (simp add: verdict_def)
qed

lemma CheckOperations_returns:
  assumes srt: "sorts srt" and eq: "equalOk (fillDefault M)" and part: "Partition (fillDefault M) = Some part"
    and t: "\<forall>sub \<in> set (part history). wellTimed sub" and order: "distinct order" "set order = {..<length (part history)}" "part history \<noteq> []"
  shows "\<exists>b. CheckOperations srt M history kill (map ResultOf order) = Some b"
proof -
  obtain rs where rs: "runAll (fillDefault M) False kill 0 (map (makeEntries srt) (part history)) = Some rs" "length rs = length (part history)"
    using runAll_results [OF srt eq t, of False kill 0] by auto
  have "length order = length rs" using distinct_card [OF order(1)] order(2) rs(2) by simp
  moreover have "order \<noteq> []" using calculation order(3) rs(2) by auto
  ultimately obtain r where "collect False (map fst rs) True 0 (map ResultOf order) = Some r" using collect_returns [of order "map fst rs" 0 False True] by auto
  then show ?thesis using part rs(1) by (simp add: CheckOperations_def checkOperations_def checkParallel_def Let_def)
qed

end
