(* ===== verification/KV_Model.thy ===== *)
theory KV_Model
  imports Porcupine_Check "HOL-Library.List_Lexorder" "HOL-Library.Char_ord" "HOL-Library.Product_Lexorder"
begin

text \<open>
  The sequential model of the key/value store that the tests check histories against: \<open>src/models/kv.go\<close>. A history is cut into one partition
  per key, and each key is a string register. The lemmas show that this loses nothing: a history is linearizable as a history of the whole
  store exactly if every partition is linearizable as a history of one register.
\<close>

section \<open>The model\<close>

record KvInput =
  kiOp :: "8 word"
  kiKey :: string
  kiValue :: string

record KvOutput =
  koValue :: string

type_synonym kvOperation = "(KvInput, KvOutput) Operation"

definition keyOf :: "kvOperation \<Rightarrow> string" where
  "keyOf v = kiKey (opInput v)"

definition kvPartition :: "kvOperation list \<Rightarrow> kvOperation list list" where
  "kvPartition history =
    (let keys = sort (remdups (map keyOf history)) in map (\<lambda>k. filter (\<lambda>v. keyOf v = k) history) keys)"

definition kvStep :: "string \<Rightarrow> KvInput \<Rightarrow> KvOutput \<Rightarrow> bool \<times> string" where
  "kvStep st inp out =
    (if kiOp inp = 0 then (koValue out = st, st)
     else if kiOp inp = 1 then (True, kiValue inp)
     else (True, st @ kiValue inp))"

definition KvModel :: "(string, KvInput, KvOutput) Model" where
  "KvModel = \<lparr>Partition = Some kvPartition, PartitionEvent = None, Init = '''', Step = kvStep, Equal = None\<rparr>"

text \<open>\<open>DescribeOperation\<close>; the type assertions panic on anything but an input and an output.\<close>

definition quoted :: "string \<Rightarrow> string" where
  "quoted s = [CHR 0x27] @ s @ [CHR 0x27]"

definition kvDescribeOperation :: "(KvInput, KvOutput) payload \<Rightarrow> (KvInput, KvOutput) payload \<Rightarrow> string option" where
  "kvDescribeOperation input output = (case (input, output) of
     (InV inp, OutV out) \<Rightarrow> Some
       (if kiOp inp = 0 then ''get('' @ quoted (kiKey inp) @ '') -> '' @ quoted (koValue out)
        else if kiOp inp = 1 then ''put('' @ quoted (kiKey inp) @ '', '' @ quoted (kiValue inp) @ '')''
        else if kiOp inp = 2 then ''append('' @ quoted (kiKey inp) @ '', '' @ quoted (kiValue inp) @ '')''
        else ''<invalid>'')
   | _ \<Rightarrow> None)"

text \<open>The store as a whole: a register for every key.\<close>

definition storeStep :: "(string \<Rightarrow> string) \<Rightarrow> KvInput \<Rightarrow> KvOutput \<Rightarrow> bool \<times> (string \<Rightarrow> string)" where
  "storeStep st inp out = (let (ok, v) = kvStep (st (kiKey inp)) inp out in (ok, st(kiKey inp := v)))"

definition StoreModel :: "(string \<Rightarrow> string, KvInput, KvOutput) Model" where
  "StoreModel = \<lparr>Partition = None, PartitionEvent = None, Init = (\<lambda>k. ''''), Step = storeStep, Equal = None\<rparr>"

lemma KvModel_equal: "equalOk (fillDefault KvModel)"
proof -
  have "sameState (fillDefault KvModel) s s" for s unfolding sameState_def by (rule exI [of _ "(=)"]) auto
  then show ?thesis by (auto simp: equalOk_def fillDefault_def KvModel_def ShallowEqual_def)
qed

lemma kvPartition_set: "set (kvPartition history) = (\<lambda>k. filter (\<lambda>v. keyOf v = k) history) ` keyOf ` set history"
  by (simp add: kvPartition_def Let_def)

section \<open>Registers and the store\<close>

abbreviation onKey :: "kvOperation list \<Rightarrow> string \<Rightarrow> nat list \<Rightarrow> nat list" where
  "onKey ops k ks \<equiv> filter (\<lambda>i. keyOf (ops ! i) = k) ks"

lemma legal_store:
  "legal StoreModel (inputs ops) (outputs ops) st ks \<longleftrightarrow> (\<forall>k. legal KvModel (inputs ops) (outputs ops) (st k) (onKey ops k ks))"
proof (induction ks arbitrary: st)
  case (Cons i ks)
  let ?k = "keyOf (ops ! i)"
  obtain ok v where s: "kvStep (st ?k) (inputs ops i) (outputs ops i) = (ok, v)" by fastforce
  have step: "Step StoreModel st (inputs ops i) (outputs ops i) = (ok, st(?k := v))"
    using s by (simp add: StoreModel_def storeStep_def keyOf_def)
  have key: "legal KvModel (inputs ops) (outputs ops) (st k) (onKey ops k (i # ks)) \<longleftrightarrow>
      (k = ?k \<longrightarrow> ok) \<and> legal KvModel (inputs ops) (outputs ops) ((st(?k := v)) k) (onKey ops k ks)" for k
    using s by (cases "k = ?k") (simp_all add: KvModel_def)
  have "legal StoreModel (inputs ops) (outputs ops) st (i # ks) \<longleftrightarrow>
      ok \<and> (\<forall>k. legal KvModel (inputs ops) (outputs ops) ((st(?k := v)) k) (onKey ops k ks))"
    unfolding legal.simps step fst_conv snd_conv Cons.IH [of "st(?k := v)"] by (rule refl)
  then show ?case unfolding key by blast
qed simp

section \<open>Numbering\<close>

text \<open>A linearization of the operations at given positions of a history.\<close>

definition linearizesAt :: "('s, 'i, 'o) Model \<Rightarrow> ('i, 'o) Operation list \<Rightarrow> nat set \<Rightarrow> nat list \<Rightarrow> bool" where
  "linearizesAt M ops A ks \<longleftrightarrow> distinct ks \<and> set ks = A \<and> legal M (inputs ops) (outputs ops) (Init M) ks \<and> sorted_wrt (\<lambda>i j. \<not> before ops j i) ks"

lemma linearizable_at: "linearizable M ops \<longleftrightarrow> (\<exists>ks. linearizesAt M ops {..<length ops} ks)"
  by (simp add: linearizable_def linearization_def linearizesAt_def)

lemma legal_map: "(\<And>i. i \<in> set ks \<Longrightarrow> ops' ! f i = ops ! i) \<Longrightarrow> legal M (inputs ops') (outputs ops') s (map f ks) = legal M (inputs ops) (outputs ops) s ks"
  by (induction ks arbitrary: s) simp_all

lemma linearizesAt_map:
  assumes f: "inj_on f A" and ops: "\<And>i. i \<in> A \<Longrightarrow> ops' ! f i = ops ! i" and ks: "linearizesAt M ops A ks"
  shows "linearizesAt M ops' (f ` A) (map f ks)"
proof -
  have k: "distinct ks" "set ks = A" "sorted_wrt (\<lambda>i j. \<not> before ops j i) ks" using ks by (simp_all add: linearizesAt_def)
  have "sorted_wrt (\<lambda>i j. \<not> before ops' (f j) (f i)) ks"
    by (rule sorted_wrt_mono_rel [OF _ k(3)]) (use k(2) ops in \<open>auto simp: before_def\<close>)
  moreover have "legal M (inputs ops') (outputs ops') (Init M) (map f ks)"
    using ks legal_map [of ks ops' f ops M "Init M"] ops k(2) by (simp add: linearizesAt_def)
  ultimately show ?thesis using k(1,2) f by (simp add: linearizesAt_def distinct_map sorted_wrt_map)
qed

text \<open>The positions of a key, and the partition of the key.\<close>

definition keyPos :: "kvOperation list \<Rightarrow> string \<Rightarrow> nat list" where
  "keyPos ops k = filter (\<lambda>i. keyOf (ops ! i) = k) [0..<length ops]"

lemma filter_keyPos: "filter (\<lambda>v. keyOf v = k) ops = map ((!) ops) (keyPos ops k)"
proof -
  have "filter (\<lambda>v. keyOf v = k) (map ((!) ops) [0..<length ops]) = map ((!) ops) (keyPos ops k)" by (simp add: filter_map o_def keyPos_def)
  then show ?thesis by (simp add: map_nth)
qed

lemma partition_linearizable:
  "linearizable M (filter (\<lambda>v. keyOf v = k) ops) \<longleftrightarrow> (\<exists>ks. linearizesAt M ops (set (keyPos ops k)) ks)"
proof -
  let ?sub = "filter (\<lambda>v. keyOf v = k) ops" and ?ps = "keyPos ops k"
  have d: "distinct ?ps" by (simp add: keyPos_def)
  have len: "length ?sub = length ?ps" by (simp add: filter_keyPos)
  have nth: "?sub ! i = ops ! (?ps ! i)" if "i < length ?ps" for i using that by (simp add: filter_keyPos)
  have img: "(!) ?ps ` {..<length ?ps} = set ?ps" using nth_image [of "length ?ps" ?ps] by (simp add: atLeast0LessThan)
  have inj: "inj_on ((!) ?ps) {..<length ?ps}" using d by (simp add: inj_on_nth)
  let ?g = "the_inv_into {..<length ?ps} ((!) ?ps)"
  have g: "inj_on ?g (set ?ps)" "?g ` set ?ps = {..<length ?ps}"
    using inj_on_the_inv_into [OF inj] the_inv_into_onto [OF inj] unfolding img by simp_all
  have g': "?sub ! ?g p = ops ! p" if p: "p \<in> set ?ps" for p
  proof -
    obtain i where i: "i < length ?ps" "p = ?ps ! i" using p by (auto simp: in_set_conv_nth)
    then have "?g p = i" using the_inv_into_f_f [OF inj, of i] by simp
    then show ?thesis using nth i by simp
  qed
  show ?thesis
  proof
    assume "linearizable M ?sub"
    then obtain ks where "linearizesAt M ?sub {..<length ?ps} ks" unfolding linearizable_at len by blast
    then have "linearizesAt M ops ((!) ?ps ` {..<length ?ps}) (map ((!) ?ps) ks)" by (intro linearizesAt_map [OF inj]) (simp_all add: nth)
    then have "linearizesAt M ops (set ?ps) (map ((!) ?ps) ks)" unfolding img .
    then show "\<exists>ks. linearizesAt M ops (set ?ps) ks" by blast
  next
    assume "\<exists>ks. linearizesAt M ops (set ?ps) ks"
    then obtain ks where "linearizesAt M ops (set ?ps) ks" by blast
    then have "linearizesAt M ?sub (?g ` set ?ps) (map ?g ks)" by (intro linearizesAt_map [OF g(1)]) (simp_all only: g')
    then have "linearizesAt M ?sub {..<length ?ps} (map ?g ks)" unfolding g(2) .
    then show "linearizable M ?sub" unfolding linearizable_at len by blast
  qed
qed

section \<open>Locality\<close>

lemma store_to_key:
  assumes "linearizesAt StoreModel ops {..<length ops} ks"
  shows "linearizesAt KvModel ops (set (keyPos ops k)) (onKey ops k ks)"
  using assms legal_store [of ops "\<lambda>k. ''''" ks] unfolding linearizesAt_def
  by (auto simp: keyPos_def StoreModel_def KvModel_def sorted_wrt_filter)

text \<open>
  The other way round the linearizations of the keys are merged: an operation takes effect at the latest call among the operations up to it in its own
  linearization. This moment lies before the operation returns, so the moments respect the real-time order.
\<close>

definition upTo :: "nat list \<Rightarrow> nat \<Rightarrow> nat list" where
  "upTo ks i = takeWhile (\<lambda>j. j \<noteq> i) ks @ [i]"

definition moment :: "kvOperation list \<Rightarrow> (string \<Rightarrow> nat list) \<Rightarrow> nat \<Rightarrow> int \<times> string \<times> nat" where
  "moment ops L i = (let ks = L (keyOf (ops ! i)) in
     (Max (set (map (\<lambda>j. opCall (ops ! j)) (upTo ks i))), keyOf (ops ! i), length (upTo ks i)))"

definition merge :: "kvOperation list \<Rightarrow> (string \<Rightarrow> nat list) \<Rightarrow> nat list" where
  "merge ops L = sort_key (moment ops L) [0..<length ops]"

lemma upTo_split: "distinct (us @ i # vs) \<Longrightarrow> upTo (us @ i # vs) i = us @ [i]"
  by (induction us) (auto simp: upTo_def)

lemma moment_return:
  assumes lin: "linearizesAt KvModel ops A (L (keyOf (ops ! i)))" and i: "i \<in> A" and t: "opCall (ops ! i) \<le> opReturn (ops ! i)"
  shows "opCall (ops ! i) \<le> fst (moment ops L i) \<and> fst (moment ops L i) \<le> opReturn (ops ! i)"
proof -
  let ?ks = "L (keyOf (ops ! i))"
  have ks: "distinct ?ks" "set ?ks = A" "sorted_wrt (\<lambda>a b. \<not> before ops b a) ?ks" using lin by (simp_all add: linearizesAt_def)
  obtain us vs where s: "?ks = us @ i # vs" using i ks(2) split_list by metis
  have u: "upTo ?ks i = us @ [i]" using upTo_split [of us i vs] ks(1) s by simp
  have "opCall (ops ! j) \<le> opReturn (ops ! i)" if "j \<in> set us" for j
    using ks(3) that unfolding s by (auto simp: sorted_wrt_append before_def not_less)
  then show ?thesis using t by (simp add: moment_def Let_def u)
qed

lemma moment_increases:
  assumes "distinct (L k)" and "\<forall>i \<in> set (L k). keyOf (ops ! i) = k"
  shows "sorted_wrt (\<lambda>a b. moment ops L a < moment ops L b) (L k)"
  unfolding sorted_wrt_iff_nth_less
proof (intro allI impI)
  fix a b assume ab: "a < b" "b < length (L k)"
  have split: "L k = take m (L k) @ L k ! m # drop (Suc m) (L k)" if "m < length (L k)" for m using that by (rule id_take_nth_drop)
  have u: "upTo (L k) (L k ! m) = take (Suc m) (L k)" if "m < length (L k)" for m
    using upTo_split [of "take m (L k)" "L k ! m" "drop (Suc m) (L k)"] split [OF that] assms(1) that by (simp add: take_Suc_conv_app_nth)
  have key: "keyOf (ops ! (L k ! m)) = k" if "m < length (L k)" for m using assms(2) that by simp
  have "set (take (Suc a) (L k)) \<subseteq> set (take (Suc b) (L k))" using ab by (intro set_take_subset_set_take) simp
  then have "Max (set (map (\<lambda>j. opCall (ops ! j)) (take (Suc a) (L k)))) \<le> Max (set (map (\<lambda>j. opCall (ops ! j)) (take (Suc b) (L k))))"
    using ab by (intro Max_mono) auto
  then show "moment ops L (L k ! a) < moment ops L (L k ! b)"
    using ab u key by (auto simp: moment_def Let_def less_prod_def' le_less)
qed

lemma strict_sorted_unique:
  fixes f :: "nat \<Rightarrow> 'a :: linorder"
  assumes "sorted_wrt (\<lambda>a b. f a < f b) xs" and "sorted_wrt (\<lambda>a b. f a < f b) ys" and "set xs = set ys"
  shows "xs = ys"
proof -
  have s: "sorted_wrt (<) (map f zs)" if "sorted_wrt (\<lambda>a b. f a < f b) zs" for zs using that by (simp add: sorted_wrt_map)
  have "map f xs = map f ys"
    using strict_sorted_equal [OF s [OF assms(2)] s [OF assms(1)]] assms(3) by simp
  moreover have "inj_on f (set xs)" using s [OF assms(1)] strict_sorted_iff [of "map f xs"] by (simp add: distinct_map)
  ultimately show ?thesis using assms(3) by (metis inj_on_map_eq_map Un_absorb)
qed

lemma merge_linearizes:
  assumes t: "wellTimed ops" and L: "\<And>k. linearizesAt KvModel ops (set (keyPos ops k)) (L k)"
  shows "linearizesAt StoreModel ops {..<length ops} (merge ops L)"
proof -
  have ks: "distinct (L k)" "set (L k) = set (keyPos ops k)" for k using L [of k] by (simp_all add: linearizesAt_def)
  have pos: "i \<in> set (L (keyOf (ops ! i)))" if "i < length ops" for i using that ks(2) by (simp add: keyPos_def)
  have inc: "sorted_wrt (\<lambda>a b. moment ops L a < moment ops L b) (L k)" for k
    by (rule moment_increases [OF ks(1)]) (simp add: ks(2) keyPos_def)
  have inj: "inj_on (moment ops L) {..<length ops}"
  proof (rule inj_onI)
    fix i j assume ij: "i \<in> {..<length ops}" "j \<in> {..<length ops}" and m: "moment ops L i = moment ops L j"
    have k: "keyOf (ops ! i) = keyOf (ops ! j)" using m by (simp add: moment_def Let_def)
    have "inj_on (moment ops L) (set (L (keyOf (ops ! i))))"
      using inc [of "keyOf (ops ! i)"] strict_sorted_iff [of "map (moment ops L) (L (keyOf (ops ! i)))"] by (simp add: sorted_wrt_map distinct_map)
    then show "i = j" using m pos [of i] pos [of j] ij k by (metis inj_onD lessThan_iff)
  qed
  have srt: "sorted_wrt (\<lambda>a b. moment ops L a < moment ops L b) (merge ops L)"
  proof -
    have "sorted (map (moment ops L) (merge ops L))" "distinct (map (moment ops L) (merge ops L))"
      using inj by (simp_all add: merge_def distinct_map atLeast0LessThan)
    then have "sorted_wrt (<) (map (moment ops L) (merge ops L))" using strict_sorted_iff by blast
    then show ?thesis by (simp add: sorted_wrt_map)
  qed
  have set: "set (merge ops L) = {..<length ops}" by (simp add: merge_def atLeast0LessThan)
  have key: "onKey ops k (merge ops L) = L k" for k
    by (rule strict_sorted_unique [OF sorted_wrt_filter [OF srt] inc]) (auto simp: set ks(2) keyPos_def)
  have "legal StoreModel (inputs ops) (outputs ops) (\<lambda>k. '''') (merge ops L)"
    unfolding legal_store key using L by (simp add: linearizesAt_def KvModel_def)
  moreover have "sorted_wrt (\<lambda>a b. \<not> before ops b a) (merge ops L)"
  proof (rule sorted_wrt_mono_rel [OF _ srt])
    fix a b assume ab: "a \<in> set (merge ops L)" "b \<in> set (merge ops L)" and m: "moment ops L a < moment ops L b"
    have bound: "opCall (ops ! i) \<le> fst (moment ops L i) \<and> fst (moment ops L i) \<le> opReturn (ops ! i)" if "i \<in> set (merge ops L)" for i
      using moment_return [OF L] pos [of i] ks(2) t that by (simp add: set wellTimed_def)
    have "fst (moment ops L a) \<le> fst (moment ops L b)" using m by (auto simp: less_prod_def')
    then show "\<not> before ops b a" using bound [OF ab(1)] bound [OF ab(2)] by (simp add: before_def)
  qed
  moreover have "distinct (merge ops L)" by (simp add: merge_def)
  ultimately show ?thesis using set by (simp add: linearizesAt_def StoreModel_def)
qed

lemma linearizable_local:
  assumes "wellTimed ops"
  shows "linearizable StoreModel ops \<longleftrightarrow> (\<forall>sub \<in> set (kvPartition ops). linearizable KvModel sub)"
proof -
  have none: "linearizesAt KvModel ops (set (keyPos ops k)) []" if "k \<notin> keyOf ` set ops" for k
    using that by (auto simp: linearizesAt_def keyPos_def image_iff)
  have "linearizable StoreModel ops \<longleftrightarrow> (\<forall>k. \<exists>ks. linearizesAt KvModel ops (set (keyPos ops k)) ks)"
    using store_to_key merge_linearizes [OF assms] unfolding linearizable_at by metis
  also have "\<dots> \<longleftrightarrow> (\<forall>k \<in> keyOf ` set ops. linearizable KvModel (filter (\<lambda>v. keyOf v = k) ops))"
    unfolding partition_linearizable using none by blast
  finally show ?thesis by (simp add: kvPartition_set)
qed

end
