(* ===== verification/Porcupine_Notes.thy ===== *)
theory Porcupine_Notes
  imports Porcupine_Check
begin

text \<open>
  The partial linearizations that \<open>checkSingle\<close> notes in \<open>longest\<close>: each is a sequence of operations of the partition that the model allows from its initial state.
\<close>

definition noted :: "('s, 'i, 'o) Model \<Rightarrow> (nat \<Rightarrow> 'i) \<Rightarrow> (nat \<Rightarrow> 'o) \<Rightarrow> nat \<Rightarrow> int list \<Rightarrow> bool" where
  "noted M inp out n ids \<longleftrightarrow> (\<exists>ks. ids = map int ks \<and> set ks \<subseteq> {..<n} \<and> legal M inp out (Init M) ks)"

definition notesOk :: "('s, 'i, 'o) Model \<Rightarrow> (nat \<Rightarrow> 'i) \<Rightarrow> (nat \<Rightarrow> 'o) \<Rightarrow> nat \<Rightarrow> seq_ptr option list \<Rightarrow> bool" where
  "notesOk M inp out n lg \<longleftrightarrow> (\<forall>p. Some p \<in> set lg \<longrightarrow> noted M inp out n (snd p))"

lemma linRun_legal:
  assumes p: "presents es n inp out prec"
  shows "linRun M es c ks d \<Longrightarrow> set ks \<subseteq> {..<n} \<and> legal M inp out (snd c) ks"
proof (induction ks arbitrary: c)
  case (Cons k ks)
  then obtain a where a: "a \<in> set (takeWhile (isCall es) (alive es (fst c)))" "idAt es a = k" "fst (stepAt M es (snd c) a)"
    "linRun M es (insert k (fst c), snd (stepAt M es (snd c) a)) ks d" by auto
  have c: "a < length es" "isCall es a" using candidate_iff [OF p] a(1,2) by blast+
  have "stepAt M es (snd c) a = Step M (snd c) (inp k) (out k)" using presents_step [OF p c] a(2) by simp
  then show ?case using Cons.IH [OF a(4)] a(2,3) presents_nth(3) [OF p c(1)] by auto
qed simp

lemma calls_noted:
  assumes p: "presents es n inp out prec" and inv: "searchInv M es n st P Q"
  shows "noted M inp out n (callIds (nodes st) (calls st))"
proof -
  let ?ks = "map (\<lambda>v. idAt es (fst v)) (calls st)"
  have "linRun M es ({}, Init M) ?ks (idsOf es (calls st), sstate st)" using stackOk_linRun [OF searchInv_D(1) [OF inv]] by simp
  from linRun_legal [OF p this] have "set ?ks \<subseteq> {..<n} \<and> legal M inp out (Init M) ?ks" by simp
  moreover have "callIds (nodes st) (calls st) = map int ?ks" using callIds_idAt [OF p searchInv_D(1) [OF inv], of "calls st"] by simp
  ultimately show ?thesis unfolding noted_def by blast
qed

lemma noteLongest_noted:
  "noteLongest sq ks lg = Some lg' \<Longrightarrow> notesOk M inp out n lg \<Longrightarrow> noted M inp out n (snd sq) \<Longrightarrow> notesOk M inp out n lg'"
proof (induction ks arbitrary: lg)
  case (Cons k ks)
  have "notesOk M inp out n (lg[k := Some sq])"
    using Cons.prems(2,3) set_update_subset_insert [of lg k "Some sq"] by (auto simp: notesOk_def)
  then show ?case using Cons by (auto simp: bind_Some_iff split: if_splits)
qed simp

lemma step_noted:
  assumes p: "presents es n inp out prec" and inv: "searchInv M es n st P Q" and nts: "notesOk M inp out n (longest st)"
    and s: "checkStep M cp (length es) st = Some r"
  shows "case r of Inl st' \<Rightarrow> notesOk M inp out n (longest st') | Inr res \<Rightarrow> notesOk M inp out n (snd res)"
proof -
  have "notesOk M inp out n (longest st')" if "tryCall M (length es) e m st = Some st'" for e m st'
    using that nts by (auto simp: tryCall_def bind_Some_iff Let_def split: payload.splits prod.splits if_splits)
  moreover have "notesOk M inp out n (longest st')" if "backtrack cp st = Some st'" for st'
    using that nts noteLongest_noted [of "(allocs st, callIds (nodes st) (calls st))", OF _ nts] calls_noted [OF p inv]
    by (cases "last (calls st)") (auto simp: backtrack_def bind_Some_iff Let_def split: if_splits)
  ultimately show ?thesis using s nts by (auto simp: checkStep_def bind_Some_iff split: option.splits if_splits)
qed

lemma checkLoop_noted:
  assumes p: "presents es n inp out prec" and eq: "equalOk M"
  shows "searchInv M es n st P Q \<Longrightarrow> notesOk M inp out n (longest st) \<Longrightarrow> checkLoop M cp kill (length es) n turn st = Some (b, lg) \<Longrightarrow> notesOk M inp out n lg"
proof (induction "(st, Q)" arbitrary: st P Q turn rule: wf_induct_rule [OF lighter_wf [of M es]])
  case 1
  note inv = 1(2) and nts = 1(3) and run = 1(4) [unfolded checkLoop.simps [of M cp kill "length es" n turn st]]
  consider "nnext (nodes st ! length es) = None" | "kill turn" "nnext (nodes st ! length es) \<noteq> None"
    | "\<not> kill turn" "nnext (nodes st ! length es) \<noteq> None" by blast
  then show ?case
  proof cases
    case 1
    then have "lg = replicate n (Some (allocs st, callIds (nodes st) (calls st)))" using run by (simp add: complete_def)
    then show ?thesis using calls_noted [OF p inv] by (auto simp: notesOk_def)
  next
    case 2
    then show ?thesis using run nts by auto
  next
    case 3
    then obtain r where r: "checkStep M cp (length es) st = Some r"
        "(case r of Inl st' \<Rightarrow> checkLoop M cp kill (length es) n (Suc turn) st' | Inr res \<Rightarrow> Some res) = Some (b, lg)"
      using run by (auto simp: bind_Some_iff)
    note sn = step_noted [OF p inv nts r(1)]
    show ?thesis
    proof (cases r)
      case (Inl st')
      have "alive es (idsOf es (calls st)) \<noteq> []" using head_end [OF inv] 3(2) by simp
      then have "Q \<noteq> []" using alive_ends_with_return [OF p searchInv_D(6) [OF inv]] searchInv_D(7) [OF inv] by blast
      then obtain a Q' where Q: "Q = a # Q'" by (cases Q) auto
      have "\<exists>P' Q''. searchInv M es n st' P' Q'' \<and> ((st', Q''), (st, Q)) \<in> lighter M es"
        using turn_call [OF p eq inv [unfolded Q], of cp] turn_return [OF p inv [unfolded Q], of cp] r(1) Inl Q by (cases "isCall es a") auto
      then show ?thesis using "1.hyps" r(2) sn Inl by auto
    next
      case (Inr res)
      then show ?thesis using r(2) sn by simp
    qed
  qed
qed

lemma checkSingle_noted:
  assumes p: "presents es n inp out prec" and eq: "equalOk M" and r: "checkSingle M es cp kill = Some (b, lg)"
  shows "notesOk M inp out n lg"
proof (rule checkSingle_start [OF p, of M cp kill])
  fix st P Q assume st: "checkSingle M es cp kill = checkLoop M cp kill (length es) n 0 st" "searchInv M es n st P Q" "longest st = replicate n None"
  then have "notesOk M inp out n (longest st)" by (auto simp: notesOk_def)
  then show ?thesis using checkLoop_noted [OF p eq st(2)] r st(1) by simp
qed

lemma partials_noted: "notesOk M inp out n lg \<Longrightarrow> q \<in> partials lg \<Longrightarrow> noted M inp out n (snd q)"
  by (auto simp: partials_def notesOk_def split: option.splits)

end
