(* ===== verification/Visualization.thy ===== *)
theory Visualization
  imports Porcupine_Notes
begin

text \<open>
  The data of the drawing of a checked history: \<open>computeVisualizationData\<close> of \<open>src/porcupine/visualization.go\<close>. \<open>descr\<close> and \<open>descrState\<close> are the model's
  \<open>DescribeOperation\<close> and \<open>DescribeState\<close>; \<open>order\<close> is the order in which the partial linearizations of a partition come out of the map and of \<open>sort.Slice\<close>. The rest of the file
  is JSON encoding and a page of HTML. \<open>None\<close> is a panic, as of a description that asserts the type of a nil value.
\<close>

section \<open>Operations\<close>

record historyElement =
  heClientId :: int
  heStart :: int
  heEnd :: int
  heDescription :: string

record linearizationStep =
  lsIndex :: int
  lsStateDescription :: string

record partitionVisualizationData =
  pvHistory :: "historyElement list"
  pvPartialLinearizations :: "linearizationStep list list"
  pvLargest :: "int \<rightharpoonup> nat"

definition zeroElement :: historyElement where
  "zeroElement = \<lparr>heClientId = 0, heStart = 0, heEnd = 0, heDescription = ''''\<rparr>"

type_synonym ('i, 'o) payloads = "int \<rightharpoonup> ('i, 'o) payload"

fun vizHistory ::
  "(('i, 'o) payload \<Rightarrow> ('i, 'o) payload \<Rightarrow> string option) \<Rightarrow> ('i, 'o) entry list \<Rightarrow> historyElement list \<times> ('i, 'o) payloads \<times> ('i, 'o) payloads \<Rightarrow>
   (historyElement list \<times> ('i, 'o) payloads \<times> ('i, 'o) payloads) option" where
  "vizHistory descr [] (history, callValue, returnValue) = Some (history, callValue, returnValue)"
| "vizHistory descr (elem # es) (history, callValue, returnValue) =
    (case ekind elem of
       callEntry \<Rightarrow> do {
         x \<leftarrow> idx history (eid elem);
         history \<leftarrow> setIdx history (eid elem) (x\<lparr>heClientId := eclientId elem, heStart := etime elem\<rparr>);
         vizHistory descr es (history, callValue(eid elem \<mapsto> evalue elem), returnValue) }
     | returnEntry \<Rightarrow> do {
         x \<leftarrow> idx history (eid elem);
         d \<leftarrow> descr (case callValue (eid elem) of None \<Rightarrow> NilV | Some v \<Rightarrow> v) (evalue elem);
         history \<leftarrow> setIdx history (eid elem) (x\<lparr>heEnd := etime elem, heDescription := d\<rparr>);
         vizHistory descr es (history, callValue, returnValue(eid elem \<mapsto> evalue elem)) })"

text \<open>The loop over one partial linearization, number \<open>i\<close>, of \<open>len\<close> operations; \<open>acc\<close> are \<open>largestSize\<close> and \<open>largestIndex\<close>.\<close>

fun vizSteps ::
  "('s \<Rightarrow> string) \<Rightarrow> ('s, 'i, 'o) Model \<Rightarrow> ('i, 'o) payloads \<Rightarrow> ('i, 'o) payloads \<Rightarrow> nat \<Rightarrow> nat \<Rightarrow> int list \<Rightarrow> 's \<Rightarrow> (int \<rightharpoonup> nat) \<times> (int \<rightharpoonup> nat) \<Rightarrow>
   (linearizationStep list \<times> (int \<rightharpoonup> nat) \<times> (int \<rightharpoonup> nat)) option" where
  "vizSteps descrState M callValue returnValue i len [] state acc = Some ([], acc)"
| "vizSteps descrState M callValue returnValue i len (histId # ids) state (largestSize, largestIndex) =
    (case (callValue histId, returnValue histId) of
       (Some (InV inp), Some (OutV out)) \<Rightarrow>
         let (ok, state) = Step M state inp out in
         if \<not> ok then None
         else do {
           let size = (case largestSize histId of None \<Rightarrow> 0 | Some k \<Rightarrow> k);
           let acc = (if size < len then (largestSize(histId \<mapsto> len), largestIndex(histId \<mapsto> i)) else (largestSize, largestIndex));
           (steps, acc) \<leftarrow> vizSteps descrState M callValue returnValue i len ids state acc;
           Some (\<lparr>lsIndex = histId, lsStateDescription = descrState state\<rparr> # steps, acc) }
     | _ \<Rightarrow> None)"

fun vizPartials ::
  "('s \<Rightarrow> string) \<Rightarrow> ('s, 'i, 'o) Model \<Rightarrow> ('i, 'o) payloads \<Rightarrow> ('i, 'o) payloads \<Rightarrow> nat \<Rightarrow> int list list \<Rightarrow> (int \<rightharpoonup> nat) \<times> (int \<rightharpoonup> nat) \<Rightarrow>
   (linearizationStep list list \<times> (int \<rightharpoonup> nat) \<times> (int \<rightharpoonup> nat)) option" where
  "vizPartials descrState M callValue returnValue i [] acc = Some ([], acc)"
| "vizPartials descrState M callValue returnValue i (partial # ps) acc = do {
     (steps, acc) \<leftarrow> vizSteps descrState M callValue returnValue i (length partial) partial (Init M) acc;
     (rest, acc) \<leftarrow> vizPartials descrState M callValue returnValue (i + 1) ps acc;
     Some (steps # rest, acc) }"

definition vizPartition ::
  "(('i, 'o) payload \<Rightarrow> ('i, 'o) payload \<Rightarrow> string option) \<Rightarrow> ('s \<Rightarrow> string) \<Rightarrow> ('s, 'i, 'o) Model \<Rightarrow> ('i, 'o) entry list \<Rightarrow> int list list \<Rightarrow>
   partitionVisualizationData option" where
  "vizPartition descr descrState M es ps = do {
     (history, callValue, returnValue) \<leftarrow> vizHistory descr es (replicate (length es div 2) zeroElement, Map.empty, Map.empty);
     (linearizations, largestSize, largestIndex) \<leftarrow> vizPartials descrState M callValue returnValue 0 ps (Map.empty, Map.empty);
     Some \<lparr>pvHistory = history, pvPartialLinearizations = linearizations, pvLargest = largestIndex\<rparr> }"

fun vizAll ::
  "(seq_ptr set \<Rightarrow> int list list) \<Rightarrow> (('i, 'o) payload \<Rightarrow> ('i, 'o) payload \<Rightarrow> string option) \<Rightarrow> ('s \<Rightarrow> string) \<Rightarrow> ('s, 'i, 'o) Model \<Rightarrow> seq_ptr set list \<Rightarrow> nat \<Rightarrow>
   ('i, 'o) entry list list \<Rightarrow> partitionVisualizationData list option" where
  "vizAll order descr descrState M pls k [] = Some []"
| "vizAll order descr descrState M pls k (es # history) = do {
     ps \<leftarrow> idx pls (int k);
     d \<leftarrow> vizPartition descr descrState M es (order ps);
     ds \<leftarrow> vizAll order descr descrState M pls (k + 1) history;
     Some (d # ds) }"

definition computeVisualizationData ::
  "(seq_ptr set \<Rightarrow> int list list) \<Rightarrow> (('i, 'o) payload \<Rightarrow> ('i, 'o) payload \<Rightarrow> string option) \<Rightarrow> ('s \<Rightarrow> string) \<Rightarrow> ('s, 'i, 'o) Model \<Rightarrow>
   ('i, 'o) linearizationInfo \<Rightarrow> partitionVisualizationData list option" where
  "computeVisualizationData order descr descrState M info =
    vizAll order descr descrState (fillDefault M) (partialLinearizations info) 0 (liHistory info)"

text \<open>What is known of the order: it lists what the pointers of the set point to, longer ones first.\<close>

definition orders :: "(seq_ptr set \<Rightarrow> int list list) \<Rightarrow> bool" where
  "orders order \<longleftrightarrow> (\<forall>P. finite P \<longrightarrow> set (order P) = snd ` P \<and> sorted_wrt (\<lambda>a b. length b \<le> length a) (order P))"

text \<open>A description does not panic on an input and an output.\<close>

definition describes :: "(('i, 'o) payload \<Rightarrow> ('i, 'o) payload \<Rightarrow> string option) \<Rightarrow> bool" where
  "describes descr \<longleftrightarrow> (\<forall>i r. descr (InV i) (OutV r) \<noteq> None)"

section \<open>No panic\<close>

definition entryOk :: "(nat \<Rightarrow> 'i) \<Rightarrow> (nat \<Rightarrow> 'o) \<Rightarrow> nat \<Rightarrow> ('i, 'o) entry \<Rightarrow> bool" where
  "entryOk inp out n e \<longleftrightarrow> 0 \<le> eid e \<and> eid e < int n \<and>
     evalue e = (case ekind e of callEntry \<Rightarrow> InV (inp (nat (eid e))) | returnEntry \<Rightarrow> OutV (out (nat (eid e))))"

text \<open>A return has its call before it, or the call's value is known already.\<close>

definition callsFirst :: "(nat \<Rightarrow> 'i) \<Rightarrow> ('i, 'o) payloads \<Rightarrow> ('i, 'o) entry list \<Rightarrow> bool" where
  "callsFirst inp cv es \<longleftrightarrow> (\<forall>i < length es. ekind (es ! i) = returnEntry \<longrightarrow>
     (\<exists>j < i. ekind (es ! j) = callEntry \<and> eid (es ! j) = eid (es ! i)) \<or> cv (eid (es ! i)) = Some (InV (inp (nat (eid (es ! i))))))"

lemma callsFirst_Cons:
  assumes c: "callsFirst inp cv (e # es)" and v: "evalue e = (case ekind e of callEntry \<Rightarrow> InV (inp (nat (eid e))) | returnEntry \<Rightarrow> x)"
  shows "callsFirst inp (if ekind e = callEntry then cv(eid e \<mapsto> evalue e) else cv) es"
    "ekind e = returnEntry \<Longrightarrow> cv (eid e) = Some (InV (inp (nat (eid e))))"
proof -
  show "ekind e = returnEntry \<Longrightarrow> cv (eid e) = Some (InV (inp (nat (eid e))))" using c unfolding callsFirst_def by (auto dest: spec [of _ 0])
  show "callsFirst inp (if ekind e = callEntry then cv(eid e \<mapsto> evalue e) else cv) es"
    unfolding callsFirst_def
  proof (intro allI impI)
    fix i assume i: "i < length es" "ekind (es ! i) = returnEntry"
    consider j where "j < Suc i" "ekind ((e # es) ! j) = callEntry" "eid ((e # es) ! j) = eid (es ! i)"
      | "cv (eid (es ! i)) = Some (InV (inp (nat (eid (es ! i)))))"
      using c i unfolding callsFirst_def by (force dest: spec [of _ "Suc i"])
    then show "(\<exists>j < i. ekind (es ! j) = callEntry \<and> eid (es ! j) = eid (es ! i)) \<or>
        (if ekind e = callEntry then cv(eid e \<mapsto> evalue e) else cv) (eid (es ! i)) = Some (InV (inp (nat (eid (es ! i)))))"
    proof cases
      case (1 j)
      then show ?thesis using v by (cases j) auto
    qed (use v in auto)
  qed
qed

lemma presents_callsFirst:
  assumes p: "presents es n inp out prec"
  shows "callsFirst inp cv es"
  unfolding callsFirst_def
proof (intro allI impI disjI1)
  fix i assume i: "i < length es" "ekind (es ! i) = returnEntry"
  let ?b = "length es - Suc i"
  have b: "?b < length es" "rev es ! ?b = es ! i" "\<not> isCall es ?b" using i by (simp_all add: rev_nth isCall_def)
  obtain a where a: "a < length es" "isCall es a" "idAt es a = idAt es ?b" using presents_exists [OF p presents_nth(3) [OF p b(1)], of True] by blast
  obtain m where m: "m < a" "\<not> isCall es m" "idAt es m = idAt es a" using presents_mate [OF p a(1,2)] by blast
  have "m = ?b" by (rule presents_unique [OF p]) (use m a b in simp_all)
  then have j: "length es - Suc a < i" "rev es ! a = es ! (length es - Suc a)" using m(1) a(1) i(1) by (simp_all add: rev_nth)
  have "eid (es ! (length es - Suc a)) = eid (es ! i)" using presents_nth(2) [OF p a(1)] presents_nth(2) [OF p b(1)] a(3) b(2) j(2) by simp
  then show "\<exists>j < i. ekind (es ! j) = callEntry \<and> eid (es ! j) = eid (es ! i)" using j a(2) by (auto simp: isCall_def)
qed

lemma vizHistory_total:
  assumes "\<forall>e \<in> set es. entryOk inp out (length hs) e" and "callsFirst inp cv es" and descr: "describes descr"
  shows "\<exists>hs' cv' rv'. vizHistory descr es (hs, cv, rv) = Some (hs', cv', rv') \<and> length hs' = length hs \<and>
    (\<forall>k. cv' k = (if k \<in> eid ` {e \<in> set es. ekind e = callEntry} then Some (InV (inp (nat k))) else cv k)) \<and>
    (\<forall>k. rv' k = (if k \<in> eid ` {e \<in> set es. ekind e = returnEntry} then Some (OutV (out (nat k))) else rv k))"
  using assms(1,2)
proof (induction es arbitrary: hs cv rv)
  case (Cons e es)
  have e: "idx hs (eid e) = Some (hs ! nat (eid e))" "\<And>x. setIdx hs (eid e) x = Some (hs[nat (eid e) := x])" "\<And>x. length (hs[nat (eid e) := x]) = length hs"
    using Cons.prems by (simp_all add: entryOk_def go_simps)
  have es: "\<forall>x \<in> set es. entryOk inp out (length (hs[nat (eid e) := y])) x" for y using Cons.prems by simp
  have v: "evalue e = (case ekind e of callEntry \<Rightarrow> InV (inp (nat (eid e))) | returnEntry \<Rightarrow> OutV (out (nat (eid e))))"
    using Cons.prems by (simp add: entryOk_def)
  note first = callsFirst_Cons [OF Cons.prems(2) v]
  show ?case
  proof (cases "ekind e")
    case callEntry
    let ?hs = "hs[nat (eid e) := (hs ! nat (eid e))\<lparr>heClientId := eclientId e, heStart := etime e\<rparr>]"
    have "callsFirst inp (cv(eid e \<mapsto> evalue e)) es" using first(1) callEntry by simp
    from Cons.IH [of ?hs "cv(eid e \<mapsto> evalue e)" rv, OF es this]
    obtain hs' cv' rv' where ih: "vizHistory descr es (?hs, cv(eid e \<mapsto> evalue e), rv) = Some (hs', cv', rv')" "length hs' = length hs"
      "\<And>k. cv' k = (if k \<in> eid ` {e \<in> set es. ekind e = callEntry} then Some (InV (inp (nat k))) else (cv(eid e \<mapsto> evalue e)) k)"
      "\<And>k. rv' k = (if k \<in> eid ` {e \<in> set es. ekind e = returnEntry} then Some (OutV (out (nat k))) else rv k)"
      unfolding e(3) by blast
    have "{x \<in> set (e # es). ekind x = callEntry} = insert e {x \<in> set es. ekind x = callEntry}"
      "{x \<in> set (e # es). ekind x = returnEntry} = {x \<in> set es. ekind x = returnEntry}" using callEntry by auto
    then show ?thesis using ih e callEntry v by auto
  next
    case returnEntry
    have "callsFirst inp cv es" using first(1) returnEntry by simp
    note rest = Cons.IH [OF es this, of _ "rv(eid e \<mapsto> evalue e)", unfolded e(3)]
    obtain d where d: "descr (case cv (eid e) of None \<Rightarrow> NilV | Some x \<Rightarrow> x) (evalue e) = Some d"
      using descr first(2) [OF returnEntry] v returnEntry by (fastforce simp: describes_def)
    obtain hs' cv' rv' where ih: "vizHistory descr es (hs[nat (eid e) := (hs ! nat (eid e))\<lparr>heEnd := etime e, heDescription := d\<rparr>], cv, rv(eid e \<mapsto> evalue e)) =
        Some (hs', cv', rv')" "length hs' = length hs"
      "\<And>k. cv' k = (if k \<in> eid ` {e \<in> set es. ekind e = callEntry} then Some (InV (inp (nat k))) else cv k)"
      "\<And>k. rv' k = (if k \<in> eid ` {e \<in> set es. ekind e = returnEntry} then Some (OutV (out (nat k))) else (rv(eid e \<mapsto> evalue e)) k)"
      using rest by blast
    have "{x \<in> set (e # es). ekind x = returnEntry} = insert e {x \<in> set es. ekind x = returnEntry}"
      "{x \<in> set (e # es). ekind x = callEntry} = {x \<in> set es. ekind x = callEntry}" using returnEntry by auto
    then show ?thesis using ih e returnEntry v d by auto
  qed
qed simp

definition sizeOf :: "nat option \<Rightarrow> nat" where
  "sizeOf x = (case x of None \<Rightarrow> 0 | Some k \<Rightarrow> k)"

text \<open>What one partial linearization, with the operations \<open>S\<close>, does to \<open>largestSize\<close> and \<open>largestIndex\<close>.\<close>

definition bump :: "nat \<Rightarrow> nat \<Rightarrow> int set \<Rightarrow> (int \<rightharpoonup> nat) \<times> (int \<rightharpoonup> nat) \<Rightarrow> (int \<rightharpoonup> nat) \<times> (int \<rightharpoonup> nat)" where
  "bump i len S = (\<lambda>(ls, li). (\<lambda>k. if k \<in> S \<and> sizeOf (ls k) < len then Some len else ls k, \<lambda>k. if k \<in> S \<and> sizeOf (ls k) < len then Some i else li k))"

lemma bump_insert:
  "bump i len (insert a S) (ls, li) = bump i len S (if sizeOf (ls a) < len then (ls(a \<mapsto> len), li(a \<mapsto> i)) else (ls, li))"
  by (auto simp: bump_def sizeOf_def fun_eq_iff)

lemma bump_empty [simp]: "bump i len {} acc = acc"
  by (simp add: bump_def split_beta)

lemma vizSteps_total:
  assumes "legal M inp out s ks" and "\<forall>k \<in> set ks. cv (int k) = Some (InV (inp k)) \<and> rv (int k) = Some (OutV (out k))"
  shows "\<exists>steps. vizSteps dst M cv rv i len (map int ks) s acc = Some (steps, bump i len (int ` set ks) acc) \<and> map lsIndex steps = map int ks"
  using assms
proof (induction ks arbitrary: s acc)
  case (Cons k ks)
  obtain ls li where acc: "acc = (ls, li)" by fastforce
  obtain s' where s': "Step M s (inp k) (out k) = (True, s')" "legal M inp out s' ks"     using Cons.prems(1) by (cases "Step M s (inp k) (out k)") auto
  let ?acc = "if sizeOf (ls (int k)) < len then (ls(int k \<mapsto> len), li(int k \<mapsto> i)) else (ls, li)"
  obtain steps where "vizSteps dst M cv rv i len (map int ks) s' ?acc = Some (steps, bump i len (int ` set ks) ?acc)" "map lsIndex steps = map int ks"
    using Cons.IH [OF s'(2), of ?acc] Cons.prems(2) by auto
  moreover have "bump i len (int ` set (k # ks)) acc = bump i len (int ` set ks) ?acc" unfolding acc using bump_insert by simp
  moreover have "vizSteps dst M cv rv i len (map int (k # ks)) s acc =
      map_option (\<lambda>(steps, r). (\<lparr>lsIndex = int k, lsStateDescription = dst s'\<rparr> # steps, r)) (vizSteps dst M cv rv i len (map int ks) s' ?acc)"
    using s'(1) Cons.prems(2) unfolding acc
    by (cases "vizSteps dst M cv rv i len (map int ks) s' ?acc") (simp_all add: Let_def sizeOf_def split_beta)
  ultimately show ?case by simp
qed simp

text \<open>\<open>Largest\<close> of an operation: a partial linearization that contains it, none of them longer.\<close>

definition largestOk :: "int list list \<Rightarrow> (int \<rightharpoonup> nat) \<times> (int \<rightharpoonup> nat) \<Rightarrow> bool" where
  "largestOk ps acc \<longleftrightarrow> (\<forall>k. case fst acc k of
     None \<Rightarrow> snd acc k = None \<and> (\<forall>p \<in> set ps. k \<notin> set p)
   | Some L \<Rightarrow> \<exists>j < length ps. snd acc k = Some j \<and> k \<in> set (ps ! j) \<and> length (ps ! j) = L \<and> (\<forall>p \<in> set ps. k \<in> set p \<longrightarrow> length p \<le> L))"

lemma largestOk_bump:
  assumes "largestOk ps acc"
  shows "largestOk (ps @ [p]) (bump (length ps) (length p) (set p) acc)"
proof -
  obtain ls li where acc: "acc = (ls, li)" by fastforce
  have old: "case ls k of None \<Rightarrow> li k = None \<and> (\<forall>q \<in> set ps. k \<notin> set q)
     | Some L \<Rightarrow> \<exists>j < length ps. li k = Some j \<and> k \<in> set (ps ! j) \<and> length (ps ! j) = L \<and> (\<forall>q \<in> set ps. k \<in> set q \<longrightarrow> length q \<le> L)" for k
    using assms unfolding largestOk_def acc fst_conv snd_conv by (rule spec)
  have "case fst (bump (length ps) (length p) (set p) acc) k of
     None \<Rightarrow> snd (bump (length ps) (length p) (set p) acc) k = None \<and> (\<forall>q \<in> set (ps @ [p]). k \<notin> set q)
   | Some L \<Rightarrow> \<exists>j < length (ps @ [p]). snd (bump (length ps) (length p) (set p) acc) k = Some j \<and> k \<in> set ((ps @ [p]) ! j) \<and>
       length ((ps @ [p]) ! j) = L \<and> (\<forall>q \<in> set (ps @ [p]). k \<in> set q \<longrightarrow> length q \<le> L)" for k
  proof (cases "k \<in> set p \<and> sizeOf (ls k) < length p")
    case True
    then have "\<forall>q \<in> set ps. k \<in> set q \<longrightarrow> length q \<le> length p" using old [of k] by (fastforce simp: sizeOf_def split: option.splits)
    then show ?thesis using True by (auto simp: bump_def acc nth_append)
  next
    case False
    then have same: "fst (bump (length ps) (length p) (set p) acc) k = ls k" "snd (bump (length ps) (length p) (set p) acc) k = li k"
      by (auto simp: bump_def acc)
    show ?thesis
    proof (cases "ls k")
      case None
      then have "k \<notin> set p" using False by (auto simp: sizeOf_def)
      then show ?thesis using None old [of k] unfolding same by simp
    next
      case (Some L)
      then obtain j where j: "j < length ps" "li k = Some j" "k \<in> set (ps ! j)" "length (ps ! j) = L" "\<forall>q \<in> set ps. k \<in> set q \<longrightarrow> length q \<le> L"
        using old [of k] by auto
      then have "(ps @ [p]) ! j = ps ! j" "k \<in> set p \<longrightarrow> length p \<le> L" using False Some by (auto simp: nth_append sizeOf_def)
      then show ?thesis using j Some unfolding same by simp
    qed
  qed
  then show ?thesis unfolding largestOk_def by blast
qed

lemma vizPartials_total:
  assumes "\<forall>p \<in> set ps. noted M inp out n p" and "\<forall>k < n. cv (int k) = Some (InV (inp k)) \<and> rv (int k) = Some (OutV (out k))" and "largestOk qs acc"
  shows "\<exists>ls acc'. vizPartials dst M cv rv (length qs) ps acc = Some (ls, acc') \<and> map (map lsIndex) ls = ps \<and> largestOk (qs @ ps) acc'"
  using assms(1,3)
proof (induction ps arbitrary: qs acc)
  case (Cons p ps)
  obtain ks where ks: "p = map int ks" "set ks \<subseteq> {..<n}" "legal M inp out (Init M) ks" using Cons.prems(1) by (auto simp: noted_def)
  obtain steps where st: "vizSteps dst M cv rv (length qs) (length p) p (Init M) acc = Some (steps, bump (length qs) (length p) (set p) acc)"
      "map lsIndex steps = p"
    using vizSteps_total [OF ks(3), of cv rv dst "length qs" "length p" acc] ks(1,2) assms(2) by auto
  obtain ls acc' where "vizPartials dst M cv rv (length (qs @ [p])) ps (bump (length qs) (length p) (set p) acc) = Some (ls, acc')"
      "map (map lsIndex) ls = ps" "largestOk ((qs @ [p]) @ ps) acc'"
    using Cons.IH [OF _ largestOk_bump [OF Cons.prems(2)], of p] Cons.prems(1) by auto
  then show ?case using st by simp
qed simp

lemma vizHistory_presents:
  assumes p: "presents es n inp out prec" and descr: "describes descr"
  obtains hs cv rv where "vizHistory descr es (replicate n zeroElement, Map.empty, Map.empty) = Some (hs, cv, rv)" "length hs = n"
    "\<forall>k < n. cv (int k) = Some (InV (inp k)) \<and> rv (int k) = Some (OutV (out k))"
proof -
  have ids: "(\<lambda>e. (ekind e, eid e)) ` set es = {callEntry, returnEntry} \<times> int ` {..<n}" using p by (simp add: presents_def)
  have "entryOk inp out (length (replicate n zeroElement)) e" if "e \<in> set es" for e
  proof -
    have "(ekind e, eid e) \<in> {callEntry, returnEntry} \<times> int ` {..<n}" unfolding ids [symmetric] using that by (rule imageI)
    moreover have "evalue e = (case ekind e of callEntry \<Rightarrow> InV (inp (nat (eid e))) | returnEntry \<Rightarrow> OutV (out (nat (eid e))))"
      using p that unfolding presents_def by blast
    ultimately show ?thesis by (auto simp: entryOk_def)
  qed
  then obtain hs cv rv where h: "vizHistory descr es (replicate n zeroElement, Map.empty, Map.empty) = Some (hs, cv, rv)" "length hs = n"
      "\<And>k. cv k = (if k \<in> eid ` {e \<in> set es. ekind e = callEntry} then Some (InV (inp (nat k))) else None)"
      "\<And>k. rv k = (if k \<in> eid ` {e \<in> set es. ekind e = returnEntry} then Some (OutV (out (nat k))) else None)"
    using vizHistory_total [of es inp out "replicate n zeroElement" Map.empty descr Map.empty, OF _ presents_callsFirst [OF p] descr] by auto
  have has: "int k \<in> eid ` {e \<in> set es. ekind e = kd}" if "k < n" "kd \<in> {callEntry, returnEntry}" for k kd
  proof -
    have "(kd, int k) \<in> (\<lambda>e. (ekind e, eid e)) ` set es" unfolding ids using that by simp
    then show ?thesis by force
  qed
  show ?thesis using that h(1,2) has by (simp add: h(3,4))
qed

lemma vizPartition_total:
  assumes p: "presents es n inp out prec" and ps: "\<forall>q \<in> set ps. noted M inp out n q" and descr: "describes descr"
  obtains d where "vizPartition descr dst M es ps = Some d" "length (pvHistory d) = n" "map (map lsIndex) (pvPartialLinearizations d) = ps"
    "\<And>k j. pvLargest d k = Some j \<Longrightarrow> j < length ps \<and> k \<in> set (ps ! j) \<and> (\<forall>q \<in> set ps. k \<in> set q \<longrightarrow> length q \<le> length (ps ! j))"
    "\<And>k. pvLargest d k = None \<Longrightarrow> \<forall>q \<in> set ps. k \<notin> set q"
proof -
  have n: "length es div 2 = n" using presents_length [OF p] by simp
  obtain hs cv rv where h: "vizHistory descr es (replicate n zeroElement, Map.empty, Map.empty) = Some (hs, cv, rv)" "length hs = n"
      "\<forall>k < n. cv (int k) = Some (InV (inp k)) \<and> rv (int k) = Some (OutV (out k))"
    by (rule vizHistory_presents [OF p descr])
  have "largestOk [] (Map.empty, Map.empty)" by (simp add: largestOk_def)
  then obtain ls acc where v: "vizPartials dst M cv rv 0 ps (Map.empty, Map.empty) = Some (ls, acc)" "map (map lsIndex) ls = ps" "largestOk ps acc"
    using vizPartials_total [OF ps h(3), of "[]" "(Map.empty, Map.empty)" dst] by auto
  have d: "vizPartition descr dst M es ps = Some \<lparr>pvHistory = hs, pvPartialLinearizations = ls, pvLargest = snd acc\<rparr>"
    using h(1) v(1) n by (cases acc) (simp add: vizPartition_def)
  show ?thesis
  proof (rule that [OF d])
    fix k j assume "pvLargest \<lparr>pvHistory = hs, pvPartialLinearizations = ls, pvLargest = snd acc\<rparr> k = Some j"
    then show "j < length ps \<and> k \<in> set (ps ! j) \<and> (\<forall>q \<in> set ps. k \<in> set q \<longrightarrow> length q \<le> length (ps ! j))"
      using v(3) unfolding largestOk_def by (cases "fst acc k") (auto dest!: spec [of _ k])
  next
    fix k assume "pvLargest \<lparr>pvHistory = hs, pvPartialLinearizations = ls, pvLargest = snd acc\<rparr> k = None"
    then show "\<forall>q \<in> set ps. k \<notin> set q" using v(3) unfolding largestOk_def by (cases "fst acc k") (auto dest!: spec [of _ k])
  qed (use h(2) v(2) in simp_all)
qed

section \<open>All partitions\<close>

text \<open>What is drawn of one partition with the partial linearizations \<open>ps\<close>.\<close>

definition drawn :: "nat \<Rightarrow> int list list \<Rightarrow> partitionVisualizationData \<Rightarrow> bool" where
  "drawn n ps d \<longleftrightarrow> length (pvHistory d) = n \<and> map (map lsIndex) (pvPartialLinearizations d) = ps \<and>
     (\<forall>k. case pvLargest d k of
        None \<Rightarrow> \<forall>q \<in> set ps. k \<notin> set q
      | Some j \<Rightarrow> j < length ps \<and> k \<in> set (ps ! j) \<and> (\<forall>q \<in> set ps. k \<in> set q \<longrightarrow> length q \<le> length (ps ! j)))"

lemma vizPartition_drawn:
  assumes "presents es n inp out prec" and "\<forall>q \<in> set ps. noted M inp out n q" and "describes descr"
  shows "\<exists>d. vizPartition descr dst M es ps = Some d \<and> drawn n ps d"
  by (rule vizPartition_total [OF assms, of dst]) (auto simp: drawn_def split: option.splits)

lemma runAll_noted:
  assumes srt: "sorts srt" and eq: "equalOk M" and "\<forall>sub \<in> set subs. wellTimed sub"
    and "runAll M cp kill k (map (makeEntries srt) subs) = Some rs"
  shows "length rs = length subs \<and> (\<forall>i < length subs. notesOk M (inputs (subs ! i)) (outputs (subs ! i)) (length (subs ! i)) (snd (rs ! i)))"
  using assms(3,4)
proof (induction subs arbitrary: k rs)
  case (Cons sub subs)
  then obtain r rs' where r: "checkSingle M (makeEntries srt sub) cp (kill k) = Some r" "runAll M cp kill (k + 1) (map (makeEntries srt) subs) = Some rs'" "rs = r # rs'"
    by (auto simp: bind_Some_iff)
  have "notesOk M (inputs sub) (outputs sub) (length sub) (snd r)"
    using checkSingle_noted [OF makeEntries_presents [OF srt] eq, of sub] Cons.prems(1) r(1) by (metis list.set_intros(1) prod.collapse)
  then show ?case using Cons.IH [OF _ r(2)] Cons.prems(1) r(3) by (auto simp: less_Suc_eq_0_disj)
qed simp

lemma vizAll_total:
  assumes srt: "sorts srt" and descr: "describes descr" and t: "\<forall>sub \<in> set subs. wellTimed sub"
    and "\<forall>i < length subs. k + i < length pls \<and> (\<forall>q \<in> set (order (pls ! (k + i))). noted M (inputs (subs ! i)) (outputs (subs ! i)) (length (subs ! i)) q)"
  shows "\<exists>ds. vizAll order descr dst M pls k (map (makeEntries srt) subs) = Some ds \<and> length ds = length subs \<and>
    (\<forall>i < length subs. drawn (length (subs ! i)) (order (pls ! (k + i))) (ds ! i))"
  using t assms(4)
proof (induction subs arbitrary: k)
  case (Cons sub subs)
  have "k < length pls \<and> (\<forall>q \<in> set (order (pls ! k)). noted M (inputs sub) (outputs sub) (length sub) q)" using Cons.prems(2) [rule_format, of 0] by simp
  then obtain d where d: "idx pls (int k) = Some (pls ! k)" "vizPartition descr dst M (makeEntries srt sub) (order (pls ! k)) = Some d"
      "drawn (length sub) (order (pls ! k)) d"
    using vizPartition_drawn [OF makeEntries_presents [OF srt], of sub "order (pls ! k)" M descr dst] descr Cons.prems(1) by (auto simp: go_simps)
  have "\<forall>i < length subs. (k + 1) + i < length pls \<and> (\<forall>q \<in> set (order (pls ! (k + 1 + i))). noted M (inputs (subs ! i)) (outputs (subs ! i)) (length (subs ! i)) q)"
    using Cons.prems(2) by (auto dest: spec [of _ "Suc _"])
  then obtain ds where "vizAll order descr dst M pls (k + 1) (map (makeEntries srt) subs) = Some ds" "length ds = length subs"
      "\<forall>i < length subs. drawn (length (subs ! i)) (order (pls ! (k + 1 + i))) (ds ! i)"
    using Cons.IH [of "k + 1"] Cons.prems(1) by auto
  then show ?case using d by (auto simp: less_Suc_eq_0_disj)
qed simp

lemma drawing_total:
  assumes srt: "sorts srt" and eq: "equalOk (fillDefault M)" and part: "Partition (fillDefault M) = Some part"
    and t: "\<forall>sub \<in> set (part history). wellTimed sub" and ord: "orders order" and descr: "describes descr"
    and r: "CheckOperationsVerbose srt M history kill arrivals = Some (res, info)"
  shows "\<exists>ds. computeVisualizationData order descr dst M info = Some ds \<and> length ds = length (part history) \<and>
    (\<forall>i < length ds. drawn (length (part history ! i)) (order (partialLinearizations info ! i)) (ds ! i))"
proof -
  let ?M = "fillDefault M"
  obtain rs where rs: "runAll ?M True kill 0 (map (makeEntries srt) (part history)) = Some rs"
      "info = \<lparr>liHistory = map (makeEntries srt) (part history), partialLinearizations = map (partials \<circ> snd) rs\<rparr>"
    using r part by (auto simp: CheckOperationsVerbose_def checkOperations_def checkParallel_def bind_Some_iff Let_def)
  note n = runAll_noted [OF srt eq t rs(1)]
  have "noted ?M (inputs (part history ! i)) (outputs (part history ! i)) (length (part history ! i)) q"
    if "i < length (part history)" "q \<in> set (order (partials (snd (rs ! i))))" for i q
  proof -
    have "finite (partials (snd (rs ! i)))" unfolding partials_def by (rule finite_set)
    then have "q \<in> snd ` partials (snd (rs ! i))" using ord that(2) by (simp add: orders_def)
    then show ?thesis using partials_noted n that(1) by blast
  qed
  then show ?thesis
    using vizAll_total [OF srt descr t, of 0 "map (partials \<circ> snd) rs" order ?M dst] n unfolding computeVisualizationData_def rs(2) by auto
qed

end
