(* ===== verification/Porcupine_Theorems.thy ===== *)
theory Porcupine_Theorems
  imports KV_Model Visualization
begin

text \<open>
  The properties of the linearizability checker and of the key/value model it is used with, with a history on which they are evaluated.
\<close>

section \<open>A sort and a history\<close>

definition sortEntries :: "('i, 'o) entry list \<Rightarrow> ('i, 'o) entry list" where
  "sortEntries es = sort_key (\<lambda>e. (etime e, case ekind e of callEntry \<Rightarrow> 0 :: nat | returnEntry \<Rightarrow> 1)) es"

lemma sortEntries_sorts: "sorts sortEntries"
proof -
  let ?key = "\<lambda>e :: ('a, 'b) entry. (etime e, case ekind e of callEntry \<Rightarrow> 0 :: nat | returnEntry \<Rightarrow> 1)"
  have less: "entryLess b a \<longleftrightarrow> ?key b < ?key a" for a b :: "('a, 'b) entry"
    by (cases "ekind a"; cases "ekind b") (auto simp: entryLess_def less_prod_def')
  have "sorted_wrt (\<lambda>a b. \<not> entryLess b a) (sortEntries xs)" for xs :: "('a, 'b) entry list"
    using sorted_sort_key [of ?key xs] unfolding sortEntries_def sorted_wrt_map less not_less .
  then show ?thesis by (simp add: sorts_def sortEntries_def)
qed

text \<open>A put, and a get that overlaps it and returns what was there before.\<close>

definition histPut :: kvOperation where
  "histPut = \<lparr>opClientId = 0, opInput = \<lparr>kiOp = 1, kiKey = ''x'', kiValue = ''1''\<rparr>, opCall = 0, opOutput = \<lparr>koValue = ''''\<rparr>, opReturn = 10\<rparr>"

definition histGet :: kvOperation where
  "histGet = \<lparr>opClientId = 1, opInput = \<lparr>kiOp = 0, kiKey = ''x'', kiValue = ''''\<rparr>, opCall = 5, opOutput = \<lparr>koValue = ''''\<rparr>, opReturn = 20\<rparr>"

lemma ex_timed: "wellTimed [histPut, histGet]"
  by (simp add: wellTimed_def histPut_def histGet_def)

lemma ex_partition: "kvPartition [histPut, histGet] = [[histPut, histGet]]"
  by (simp add: kvPartition_def keyOf_def histPut_def histGet_def)

section \<open>The checker\<close>

text \<open>
  C3: The checker decides linearizability of the key/value store. On a non-empty history whose operations return after they were called, \<open>CheckOperations\<close> with
  \<open>KvModel\<close> returns, in whatever order the partitions finish and however \<open>sort.Sort\<close> orders equal entries, and it returns true exactly if there is a
  sequence of all operations that respects the real-time order and that the store, a map from keys to strings, allows. The search over linked
  lists, bit sets and a cache, cut into one partition per key, neither misses a linearization nor makes one up.
\<close>

theorem checker_decides_linearizability:
  assumes "sorts srt" and "wellTimed history" and "history \<noteq> []"
    and "distinct order" and "set order = {..<length (kvPartition history)}" and "\<And>i t. i \<in> set order \<Longrightarrow> \<not> kill i t"
  shows "CheckOperations srt KvModel history kill (map ResultOf order) = Some (linearizable StoreModel history)"
proof -
  have part: "Partition (fillDefault KvModel) = Some kvPartition" by (simp add: fillDefault_def KvModel_def)
  have t: "\<forall>sub \<in> set (kvPartition history). wellTimed sub" using assms(2) by (auto simp: kvPartition_set wellTimed_def)
  have "kvPartition history \<noteq> []" using assms(3) kvPartition_set [of history] by auto
  then obtain b where b: "CheckOperations srt KvModel history kill (map ResultOf order) = Some b"
    using CheckOperations_returns [OF assms(1) KvModel_equal part t assms(4,5)] by blast
  have "b \<longleftrightarrow> (\<forall>sub \<in> set (kvPartition history). linearizable KvModel sub)"
    by (rule CheckOperations_verdict [OF assms(1) KvModel_equal part t assms(4) _ assms(6) b]) (simp_all add: assms(5))
  then show ?thesis using b linearizable_local [OF assms(2)] by simp
qed

theorem checker_decides_linearizability_witness:
  "CheckOperations sortEntries KvModel [histPut, histGet] (\<lambda>i t. False) [ResultOf 0] = Some (linearizable StoreModel [histPut, histGet])"
  using checker_decides_linearizability [OF sortEntries_sorts ex_timed, of "[0]" "\<lambda>i t. False"] by (simp add: ex_partition lessThan_Suc)



text \<open>
  Lifting is undone by unlifting. In a heap that links a list of nodes, lifting a call that stands before its return takes exactly
  these two out of the list, and unlifting it restores the heap that was there, every pointer of it.
\<close>

lemma lift_unlift:
  assumes "linked h (xs @ p # e # ys @ m # zs)" and "distinct (xs @ p # e # ys @ m # zs)"
    and "set (xs @ p # e # ys @ m # zs) \<subseteq> {..<length h}" and "nmatch (h ! e) = Some m"
  shows "\<exists>h'. lift e h = Some h' \<and> linked h' (xs @ p # ys @ zs) \<and> unlift e h' = Some h"
  using lift_spec [OF assms] by blast






text \<open>With no operation there is no partition, no goroutine sends a result, and without a timer \<open>checkParallel\<close> waits for ever.\<close>

lemma empty_history_waits: "CheckOperations srt KvModel [] kill [] = None"
  by (simp add: CheckOperations_def checkOperations_def checkParallel_def fillDefault_def KvModel_def kvPartition_def)

end
