(* ===== verification/Labrpc.thy ===== *)
theory Labrpc
  imports Go_Pipeline "HOL-Library.Word"
begin

text \<open>
  The network the Raft peers talk over: \<open>src/labrpc/labrpc.go\<close>. The state holds the network, the server objects (their position
  is the pointer) and one record per \<open>Call\<close>, with the place its goroutines have reached: the caller together with \<open>processReq\<close>, and the
  goroutine that runs the handler. Each step is one channel operation, one section under a mutex or one atomic update. A handler is known by the replies it may give
  to its argument. \<open>log.Fatalf\<close> and panics are \<open>None\<close>: the process ends. Ends are named by strings and servers by numbers, as everywhere in the repository.
\<close>

section \<open>Messages, services and servers\<close>

text \<open>Encoding by \<open>encoding/gob\<close>: an error is \<open>None\<close>; \<open>gobZero\<close> is the zero value of a type, which a failed decoding leaves.\<close>

record 'x gob =
  gobEncode :: "'x \<Rightarrow> string option"
  gobDecode :: "string \<Rightarrow> 'x option"
  gobZero :: "string \<Rightarrow> 'x"

record reqMsg =
  rqEndname :: string
  rqSvcMeth :: string
  rqArgsType :: string
  rqArgs :: string

record replyMsg =
  rpOk :: bool
  rpReply :: string

definition noReply :: replyMsg where
  "noReply = \<lparr>rpOk = False, rpReply = ''''\<rparr>"

text \<open>What \<open>reflect\<close> tells about a method, and the replies it may give to an argument.\<close>

record 'x Method =
  mtName :: string
  mtPkgPath :: string
  mtNumIn :: nat
  mtIn1 :: string
  mtIn2Ptr :: bool
  mtNumOut :: nat
  mtFunc :: "'x \<Rightarrow> 'x \<Rightarrow> bool"

record 'x Service =
  svcName :: string
  svcMethods :: "string \<rightharpoonup> 'x Method"

record 'x Server =
  services :: "string \<rightharpoonup> 'x Service"
  svrCount :: int

definition MakeService :: "string \<Rightarrow> 'x Method list \<Rightarrow> 'x Service" where
  "MakeService typeName ms =
    \<lparr>svcName = typeName,
     svcMethods = foldl (\<lambda>tab m.
       if mtPkgPath m \<noteq> '''' \<or> mtNumIn m \<noteq> 3 \<or> \<not> mtIn2Ptr m \<or> mtNumOut m \<noteq> 0 then tab else tab(mtName m \<mapsto> m)) Map.empty ms\<rparr>"

definition MakeServer :: "'x Server" where
  "MakeServer = \<lparr>services = Map.empty, svrCount = 0\<rparr>"

definition AddService :: "'x Service \<Rightarrow> 'x Server \<Rightarrow> 'x Server" where
  "AddService svc rs = rs\<lparr>services := (services rs)(svcName svc \<mapsto> svc)\<rparr>"

definition svrGetCount :: "'x Server \<Rightarrow> int" where
  "svrGetCount rs = svrCount rs"

text \<open>\<open>strings.LastIndex(s, ".")\<close>.\<close>

definition lastDot :: "string \<Rightarrow> int" where
  "lastDot s = (case find (\<lambda>i. s ! i = CHR ''.'') (rev [0..<length s]) of None \<Rightarrow> - 1 | Some i \<Rightarrow> int i)"

definition splitMeth :: "string \<Rightarrow> (string \<times> string) option" where
  "splitMeth svcMeth = (let dot = lastDot svcMeth in do {
     serviceName \<leftarrow> sliceTo svcMeth dot;
     methodName \<leftarrow> sliceFrom svcMeth (dot + 1);
     Some (serviceName, methodName) })"

text \<open>\<open>Server.dispatch\<close> under the mutex: the server that counted the request, the service and the method's name.\<close>

definition svrDispatch :: "reqMsg \<Rightarrow> 'x Server \<Rightarrow> ('x Server \<times> 'x Service \<times> string) option" where
  "svrDispatch req rs = do {
     (serviceName, methodName) \<leftarrow> splitMeth (rqSvcMeth req);
     service \<leftarrow> services rs serviceName;
     Some (rs\<lparr>svrCount := svrCount rs + 1\<rparr>, service, methodName) }"

text \<open>\<open>Service.dispatch\<close>: the method and its argument, and the reply message once it has returned.\<close>

definition svcDispatch :: "'x gob \<Rightarrow> string \<Rightarrow> reqMsg \<Rightarrow> 'x Service \<Rightarrow> ('x Method \<times> 'x) option" where
  "svcDispatch G methname req svc = do {
     m \<leftarrow> svcMethods svc methname;
     let args = (case gobDecode G (rqArgs req) of Some v \<Rightarrow> v | None \<Rightarrow> gobZero G (rqArgsType req));
     (if mtIn1 m = rqArgsType req then Some (m, args) else None) }"

definition svcReply :: "'x gob \<Rightarrow> 'x \<Rightarrow> replyMsg" where
  "svcReply G reply = \<lparr>rpOk = True, rpReply = (case gobEncode G reply of Some b \<Rightarrow> b | None \<Rightarrow> '''')\<rparr>"

section \<open>The network\<close>

record ClientEnd =
  endname :: string

record Network =
  reliable :: bool
  longDelays :: bool
  longReordering :: bool
  ends :: "string \<rightharpoonup> ClientEnd"
  enabled :: "string \<Rightarrow> bool"
  servers :: "int \<Rightarrow> nat option"
  connections :: "string \<Rightarrow> int option"
  netCount :: "32 word"
  netBytes :: "64 word"
  netDone :: bool

definition MakeNetwork :: Network where
  "MakeNetwork = \<lparr>reliable = True, longDelays = False, longReordering = False, ends = Map.empty, enabled = (\<lambda>e. False),
     servers = (\<lambda>s. None), connections = (\<lambda>e. None), netCount = 0, netBytes = 0, netDone = False\<rparr>"

text \<open>Closing a closed channel panics.\<close>

definition Cleanup :: "Network \<Rightarrow> Network option" where
  "Cleanup rn = (if netDone rn then None else Some (rn\<lparr>netDone := True\<rparr>))"

definition Reliable :: "bool \<Rightarrow> Network \<Rightarrow> Network" where
  "Reliable yes rn = rn\<lparr>reliable := yes\<rparr>"

definition LongReordering :: "bool \<Rightarrow> Network \<Rightarrow> Network" where
  "LongReordering yes rn = rn\<lparr>longReordering := yes\<rparr>"

definition LongDelays :: "bool \<Rightarrow> Network \<Rightarrow> Network" where
  "LongDelays yes rn = rn\<lparr>longDelays := yes\<rparr>"

definition readEndnameInfo :: "string \<Rightarrow> Network \<Rightarrow> bool \<times> int option \<times> nat option \<times> bool \<times> bool" where
  "readEndnameInfo en rn =
    (let servername = connections rn en;
         server = (case servername of None \<Rightarrow> None | Some sn \<Rightarrow> servers rn sn)
     in (enabled rn en, servername, server, reliable rn, longReordering rn))"

definition isServerDead :: "string \<Rightarrow> int \<Rightarrow> nat \<Rightarrow> Network \<Rightarrow> bool" where
  "isServerDead en servername server rn = (if \<not> enabled rn en \<or> servers rn servername \<noteq> Some server then True else False)"

definition MakeEnd :: "string \<Rightarrow> Network \<Rightarrow> (ClientEnd \<times> Network) option" where
  "MakeEnd en rn =
    (if ends rn en \<noteq> None then None
     else let e = \<lparr>endname = en\<rparr>
          in Some (e, rn\<lparr>ends := (ends rn)(en \<mapsto> e), enabled := (enabled rn)(en := False), connections := (connections rn)(en := None)\<rparr>))"

definition AddServer :: "int \<Rightarrow> nat \<Rightarrow> Network \<Rightarrow> Network" where
  "AddServer servername rs rn = rn\<lparr>servers := (servers rn)(servername := Some rs)\<rparr>"

definition DeleteServer :: "int \<Rightarrow> Network \<Rightarrow> Network" where
  "DeleteServer servername rn = rn\<lparr>servers := (servers rn)(servername := None)\<rparr>"

definition Connect :: "string \<Rightarrow> int \<Rightarrow> Network \<Rightarrow> Network" where
  "Connect en servername rn = rn\<lparr>connections := (connections rn)(en := Some servername)\<rparr>"

definition Enable :: "string \<Rightarrow> bool \<Rightarrow> Network \<Rightarrow> Network" where
  "Enable en yes rn = rn\<lparr>enabled := (enabled rn)(en := yes)\<rparr>"

text \<open>The count of a server that is not there is read through a nil pointer.\<close>

definition GetCount :: "int \<Rightarrow> 'x Server list \<Rightarrow> Network \<Rightarrow> int option" where
  "GetCount servername heap rn = (case servers rn servername of None \<Rightarrow> None | Some k \<Rightarrow> Some (svrGetCount (heap ! k)))"

definition GetTotalCount :: "Network \<Rightarrow> int" where
  "GetTotalCount rn = sint (netCount rn)"

definition GetTotalBytes :: "Network \<Rightarrow> int" where
  "GetTotalBytes rn = sint (netBytes rn)"

section \<open>Calls under way\<close>

text \<open>What \<open>processReq\<close> has read about the end: the server's name and object, and the two switches.\<close>

record binding =
  bdServername :: int
  bdServer :: nat
  bdReliable :: bool
  bdLongreordering :: bool

text \<open>
  Where a call is: in the first \<open>select\<close> of \<open>Call\<close>; taken by the network's goroutine; bound to a server; waiting for the handler; with
  the handler's reply, before the last look at the server; given up because the server is dead; with a reply to count and to send; with a message for \<open>replyCh\<close>; back from \<open>Call\<close>,
  with the reply if it returned true.
\<close>

datatype 'x rpc_phase =
    CallSending
  | CallAccepted
  | CallBound binding
  | CallAwaiting binding
  | CallGot binding replyMsg
  | CallGaveUp
  | CallDelivering replyMsg
  | CallAnswering replyMsg
  | CallReturned "'x option"

text \<open>The goroutine that runs the handler: the server, the method, its argument and the reply.\<close>

datatype 'x rpc_handler =
    HandlerNone
  | HandlerSpawned nat
  | HandlerRunning nat "'x Method" 'x
  | HandlerDone nat "'x Method" 'x 'x
  | HandlerEnded nat "'x Method" 'x 'x

record 'x call =
  clReq :: reqMsg
  clPhase :: "'x rpc_phase"
  clHandler :: "'x rpc_handler"

record 'x rpc =
  rpcNet :: Network
  rpcLoop :: bool \<comment> \<open>the goroutine of \<open>MakeNetwork\<close> is running\<close>
  rpcServers :: "'x Server list"
  rpcCalls :: "'x call list"

definition startNetwork :: "'x rpc" where
  "startNetwork = \<lparr>rpcNet = MakeNetwork, rpcLoop = True, rpcServers = [], rpcCalls = []\<rparr>"

abbreviation phaseOf :: "'x rpc \<Rightarrow> nat \<Rightarrow> 'x rpc_phase" where
  "phaseOf s h \<equiv> clPhase (rpcCalls s ! h)"

abbreviation handlerOf :: "'x rpc \<Rightarrow> nat \<Rightarrow> 'x rpc_handler" where
  "handlerOf s h \<equiv> clHandler (rpcCalls s ! h)"

definition setCall :: "nat \<Rightarrow> 'x rpc_phase \<Rightarrow> 'x rpc_handler \<Rightarrow> 'x rpc \<Rightarrow> 'x rpc" where
  "setCall h ph hdl s = s\<lparr>rpcCalls := (rpcCalls s)[h := (rpcCalls s ! h)\<lparr>clPhase := ph, clHandler := hdl\<rparr>]\<rparr>"

abbreviation goTo :: "nat \<Rightarrow> 'x rpc_phase \<Rightarrow> 'x rpc \<Rightarrow> 'x rpc" where
  "goTo h ph s \<equiv> setCall h ph (handlerOf s h) s"

text \<open>The beginning of \<open>Call\<close>.\<close>

definition callBegin :: "'x gob \<Rightarrow> ClientEnd \<Rightarrow> string \<Rightarrow> string \<Rightarrow> 'x \<Rightarrow> 'x rpc \<Rightarrow> 'x rpc option" where
  "callBegin G e svcMeth argsType args s = do {
     b \<leftarrow> gobEncode G args;
     let req = \<lparr>rqEndname = endname e, rqSvcMeth = svcMeth, rqArgsType = argsType, rqArgs = b\<rparr>;
     Some (s\<lparr>rpcCalls := rpcCalls s @ [\<lparr>clReq = req, clPhase = CallSending, clHandler = HandlerNone\<rparr>]\<rparr>) }"

text \<open>The end of \<open>Call\<close>, with the message from \<open>replyCh\<close>.\<close>

definition callEnd :: "'x gob \<Rightarrow> replyMsg \<Rightarrow> 'x option option" where
  "callEnd G rep = (if rpOk rep then (case gobDecode G (rpReply rep) of None \<Rightarrow> None | Some x \<Rightarrow> Some (Some x)) else Some None)"

text \<open>The goroutine of \<open>MakeNetwork\<close> takes a request.\<close>

definition acceptReq :: "nat \<Rightarrow> 'x rpc \<Rightarrow> 'x rpc" where
  "acceptReq h s =
    goTo h CallAccepted (s\<lparr>rpcNet := (rpcNet s)\<lparr>netCount := netCount (rpcNet s) + 1,
      netBytes := netBytes (rpcNet s) + of_nat (length (rqArgs (clReq (rpcCalls s ! h))))\<rparr>\<rparr>)"

text \<open>The first step of \<open>processReq\<close>.\<close>

definition lookupReq :: "nat \<Rightarrow> 'x rpc \<Rightarrow> 'x rpc" where
  "lookupReq h s =
    (case readEndnameInfo (rqEndname (clReq (rpcCalls s ! h))) (rpcNet s) of
       (True, Some sn, Some k, rel, lr) \<Rightarrow>
         goTo h (CallBound \<lparr>bdServername = sn, bdServer = k, bdReliable = rel, bdLongreordering = lr\<rparr>) s
     | _ \<Rightarrow> goTo h (CallAnswering noReply) s)"

text \<open>The handler's goroutine enters the server's \<open>dispatch\<close>.\<close>

definition enterServer :: "'x gob \<Rightarrow> nat \<Rightarrow> nat \<Rightarrow> 'x rpc \<Rightarrow> 'x rpc option" where
  "enterServer G h k s = do {
     let req = clReq (rpcCalls s ! h);
     (rs, svc, methname) \<leftarrow> svrDispatch req (rpcServers s ! k);
     (m, args) \<leftarrow> svcDispatch G methname req svc;
     Some (setCall h (phaseOf s h) (HandlerRunning k m args) (s\<lparr>rpcServers := (rpcServers s)[k := rs]\<rparr>)) }"

definition boundDead :: "nat \<Rightarrow> binding \<Rightarrow> 'x rpc \<Rightarrow> bool" where
  "boundDead h b s = isServerDead (rqEndname (clReq (rpcCalls s ! h))) (bdServername b) (bdServer b) (rpcNet s)"

text \<open>
  The steps the calls under way make. Delays and timers are the freedom of when a step is made; a look at the server after 100 ms that finds it alive
  changes nothing and is no step. \<open>deliver\<close> adds the reply to the statistics, with or without the long delay before it.
\<close>

inductive carry_step :: "'x gob \<Rightarrow> 'x rpc \<Rightarrow> 'x rpc \<Rightarrow> bool" for G where
  accept: "h < length (rpcCalls s) \<Longrightarrow> phaseOf s h = CallSending \<Longrightarrow> rpcLoop s \<Longrightarrow> carry_step G s (acceptReq h s)"
| destroyed: "h < length (rpcCalls s) \<Longrightarrow> phaseOf s h = CallSending \<Longrightarrow> netDone (rpcNet s) \<Longrightarrow>
     carry_step G s (goTo h (CallReturned None) s)"
| loop_ends: "rpcLoop s \<Longrightarrow> netDone (rpcNet s) \<Longrightarrow> carry_step G s (s\<lparr>rpcLoop := False\<rparr>)"
| lookup: "h < length (rpcCalls s) \<Longrightarrow> phaseOf s h = CallAccepted \<Longrightarrow> carry_step G s (lookupReq h s)"
| drop_request: "h < length (rpcCalls s) \<Longrightarrow> phaseOf s h = CallBound b \<Longrightarrow> \<not> bdReliable b \<Longrightarrow>
     carry_step G s (goTo h (CallAnswering noReply) s)"
| spawn: "h < length (rpcCalls s) \<Longrightarrow> phaseOf s h = CallBound b \<Longrightarrow>
     carry_step G s (setCall h (CallAwaiting b) (HandlerSpawned (bdServer b)) s)"
| enter: "h < length (rpcCalls s) \<Longrightarrow> handlerOf s h = HandlerSpawned k \<Longrightarrow> enterServer G h k s = Some s' \<Longrightarrow> carry_step G s s'"
| finish: "h < length (rpcCalls s) \<Longrightarrow> handlerOf s h = HandlerRunning k m args \<Longrightarrow> mtFunc m args reply \<Longrightarrow>
     carry_step G s (setCall h (phaseOf s h) (HandlerDone k m args reply) s)"
| receive: "h < length (rpcCalls s) \<Longrightarrow> phaseOf s h = CallAwaiting b \<Longrightarrow> handlerOf s h = HandlerDone k m args reply \<Longrightarrow>
     carry_step G s (setCall h (CallGot b (svcReply G reply)) (HandlerEnded k m args reply) s)"
| give_up: "h < length (rpcCalls s) \<Longrightarrow> phaseOf s h = CallAwaiting b \<Longrightarrow> boundDead h b s \<Longrightarrow> carry_step G s (goTo h CallGaveUp s)"
| drain: "h < length (rpcCalls s) \<Longrightarrow> (\<forall>b. phaseOf s h \<noteq> CallAwaiting b) \<Longrightarrow> handlerOf s h = HandlerDone k m args reply \<Longrightarrow>
     carry_step G s (setCall h (phaseOf s h) (HandlerEnded k m args reply) s)"
| refuse: "h < length (rpcCalls s) \<Longrightarrow> phaseOf s h = CallGaveUp \<Longrightarrow> carry_step G s (goTo h (CallAnswering noReply) s)"
| died: "h < length (rpcCalls s) \<Longrightarrow> phaseOf s h = CallGot b r \<Longrightarrow> boundDead h b s \<Longrightarrow> carry_step G s (goTo h (CallAnswering noReply) s)"
| drop_reply: "h < length (rpcCalls s) \<Longrightarrow> phaseOf s h = CallGot b r \<Longrightarrow> \<not> boundDead h b s \<Longrightarrow> \<not> bdReliable b \<Longrightarrow>
     carry_step G s (goTo h (CallAnswering noReply) s)"
| pass: "h < length (rpcCalls s) \<Longrightarrow> phaseOf s h = CallGot b r \<Longrightarrow> \<not> boundDead h b s \<Longrightarrow> carry_step G s (goTo h (CallDelivering r) s)"
| deliver: "h < length (rpcCalls s) \<Longrightarrow> phaseOf s h = CallDelivering r \<Longrightarrow>
     carry_step G s (goTo h (CallAnswering r) (s\<lparr>rpcNet := (rpcNet s)\<lparr>netBytes := netBytes (rpcNet s) + of_nat (length (rpReply r))\<rparr>\<rparr>))"
| return: "h < length (rpcCalls s) \<Longrightarrow> phaseOf s h = CallAnswering r \<Longrightarrow> callEnd G r = Some x \<Longrightarrow> carry_step G s (goTo h (CallReturned x) s)"

text \<open>What the program does with the network, and new calls.\<close>

inductive net_op :: "nat \<Rightarrow> Network \<Rightarrow> Network \<Rightarrow> bool" for n where
  op_reliable: "net_op n rn (Reliable yes rn)"
| op_reordering: "net_op n rn (LongReordering yes rn)"
| op_delays: "net_op n rn (LongDelays yes rn)"
| op_end: "MakeEnd en rn = Some (e, rn') \<Longrightarrow> net_op n rn rn'"
| op_add: "k < n \<Longrightarrow> net_op n rn (AddServer sn k rn)"
| op_delete: "net_op n rn (DeleteServer sn rn)"
| op_connect: "net_op n rn (Connect en sn rn)"
| op_enable: "net_op n rn (Enable en yes rn)"
| op_cleanup: "Cleanup rn = Some rn' \<Longrightarrow> net_op n rn rn'"

inductive rpc_step :: "'x gob \<Rightarrow> 'x rpc \<Rightarrow> 'x rpc \<Rightarrow> bool" for G where
  carry: "carry_step G s s' \<Longrightarrow> rpc_step G s s'"
| call: "ends (rpcNet s) en = Some e \<Longrightarrow> callBegin G e svcMeth argsType args s = Some s' \<Longrightarrow> rpc_step G s s'"
| config: "net_op (length (rpcServers s)) (rpcNet s) rn \<Longrightarrow> rpc_step G s (s\<lparr>rpcNet := rn\<rparr>)"
| make_server: "rpc_step G s (s\<lparr>rpcServers := rpcServers s @ [MakeServer]\<rparr>)"
| add_service: "k < length (rpcServers s) \<Longrightarrow> rpc_step G s (s\<lparr>rpcServers := (rpcServers s)[k := AddService svc (rpcServers s ! k)]\<rparr>)"

end
