(* ===== verification/Labrpc_Facts.thy ===== *)
theory Labrpc_Facts
  imports Labrpc
begin

text \<open>
  The invariant of the network: each call has at most one handler goroutine, which runs the method once on what the caller sent, and a positive
  reply carries what that run returned. The calls under way are an instance of \<open>draining\<close>.
\<close>

section \<open>One call\<close>

text \<open>What the code relies on of \<open>encoding/gob\<close>: values can be encoded, and decoding gives them back.\<close>

definition gobOk :: "'x gob \<Rightarrow> bool" where
  "gobOk G \<longleftrightarrow> (\<forall>v. \<exists>b. gobEncode G v = Some b \<and> gobDecode G b = Some v)"

lemma gobOk_decode: "gobOk G \<Longrightarrow> gobEncode G v = Some b \<Longrightarrow> gobDecode G b = Some v"
  unfolding gobOk_def by (metis option.inject)

lemma svcReply_end: "gobOk G \<Longrightarrow> callEnd G (svcReply G x) = Some y \<longleftrightarrow> y = Some x"
proof -
  assume "gobOk G"
  then obtain b where "gobEncode G x = Some b" "gobDecode G b = Some x" unfolding gobOk_def by blast
  then show ?thesis by (auto simp: callEnd_def svcReply_def)
qed

lemma noReply_end [simp]: "callEnd G noReply = Some y \<longleftrightarrow> y = None"
  by (auto simp: callEnd_def noReply_def)

definition handlerOk :: "'x gob \<Rightarrow> nat \<Rightarrow> reqMsg \<Rightarrow> 'x rpc_handler \<Rightarrow> bool" where
  "handlerOk G n req hdl = (case hdl of
     HandlerNone \<Rightarrow> True
   | HandlerSpawned k \<Rightarrow> k < n
   | HandlerRunning k m a \<Rightarrow> k < n \<and> gobDecode G (rqArgs req) = Some a
   | HandlerDone k m a x \<Rightarrow> k < n \<and> gobDecode G (rqArgs req) = Some a \<and> mtFunc m a x
   | HandlerEnded k m a x \<Rightarrow> k < n \<and> gobDecode G (rqArgs req) = Some a \<and> mtFunc m a x)"

text \<open>The server on which the handler of a call was started, and on which it has entered \<open>dispatch\<close>.\<close>

definition handlerAt :: "'x rpc_handler \<Rightarrow> nat option" where
  "handlerAt hdl = (case hdl of
     HandlerNone \<Rightarrow> None | HandlerSpawned k \<Rightarrow> Some k | HandlerRunning k m a \<Rightarrow> Some k | HandlerDone k m a x \<Rightarrow> Some k | HandlerEnded k m a x \<Rightarrow> Some k)"

definition dispatchedOn :: "nat \<Rightarrow> 'x call \<Rightarrow> bool" where
  "dispatchedOn k c \<longleftrightarrow> handlerAt (clHandler c) = Some k \<and> clHandler c \<noteq> HandlerSpawned k"

definition returnedReply :: "'x gob \<Rightarrow> 'x rpc_handler \<Rightarrow> replyMsg \<Rightarrow> bool" where
  "returnedReply G hdl r \<longleftrightarrow> (\<exists>k m a x. hdl = HandlerEnded k m a x \<and> r = svcReply G x)"

definition phaseOk :: "'x gob \<Rightarrow> nat \<Rightarrow> 'x rpc_handler \<Rightarrow> 'x rpc_phase \<Rightarrow> bool" where
  "phaseOk G n hdl ph = (case ph of
     CallSending \<Rightarrow> hdl = HandlerNone
   | CallAccepted \<Rightarrow> hdl = HandlerNone
   | CallBound b \<Rightarrow> hdl = HandlerNone \<and> bdServer b < n
   | CallAwaiting b \<Rightarrow> handlerAt hdl = Some (bdServer b) \<and> (\<forall>k m a x. hdl \<noteq> HandlerEnded k m a x)
   | CallGot b r \<Rightarrow> handlerAt hdl = Some (bdServer b) \<and> returnedReply G hdl r
   | CallGaveUp \<Rightarrow> True
   | CallDelivering r \<Rightarrow> returnedReply G hdl r
   | CallAnswering r \<Rightarrow> r = noReply \<or> returnedReply G hdl r
   | CallReturned x \<Rightarrow> (case x of None \<Rightarrow> True | Some v \<Rightarrow> \<exists>k m a. hdl = HandlerEnded k m a v))"

definition callOk :: "'x gob \<Rightarrow> nat \<Rightarrow> 'x call \<Rightarrow> bool" where
  "callOk G n c \<longleftrightarrow> gobDecode G (rqArgs (clReq c)) \<noteq> None \<and> handlerOk G n (clReq c) (clHandler c) \<and> phaseOk G n (clHandler c) (clPhase c)"

lemmas call_defs = callOk_def handlerOk_def phaseOk_def handlerAt_def returnedReply_def

lemma callOk_mono: "callOk G n c \<Longrightarrow> n \<le> n' \<Longrightarrow> callOk G n' c"
  by (auto simp: callOk_def handlerOk_def phaseOk_def split: rpc_handler.splits rpc_phase.splits)

section \<open>The invariant\<close>

definition rpcInv :: "'x gob \<Rightarrow> 'x rpc \<Rightarrow> bool" where
  "rpcInv G s \<longleftrightarrow>
     (\<forall>c \<in> set (rpcCalls s). callOk G (length (rpcServers s)) c) \<and>
     (\<forall>sn k. servers (rpcNet s) sn = Some k \<longrightarrow> k < length (rpcServers s)) \<and>
     (rpcLoop s \<or> netDone (rpcNet s)) \<and>
     (\<forall>k < length (rpcServers s). svrCount (rpcServers s ! k) = int (length (filter (dispatchedOn k) (rpcCalls s))))"

lemma rpcInv_D:
  assumes "rpcInv G s"
  shows "h < length (rpcCalls s) \<Longrightarrow> callOk G (length (rpcServers s)) (rpcCalls s ! h)"
    "servers (rpcNet s) sn = Some k \<Longrightarrow> k < length (rpcServers s)" "rpcLoop s \<or> netDone (rpcNet s)"
    "j < length (rpcServers s) \<Longrightarrow> svrCount (rpcServers s ! j) = int (length (filter (dispatchedOn j) (rpcCalls s)))"
  using assms nth_mem unfolding rpcInv_def by blast+

lemma length_filter_update:
  "h < length xs \<Longrightarrow> length (filter P (xs[h := y])) + (if P (xs ! h) then 1 else 0) = length (filter P xs) + (if P y then 1 else 0)"
proof (induction xs arbitrary: h)
  case (Cons x xs)
  then show ?case by (cases h) auto
qed simp

lemma setCall_sel [simp]:
  "rpcNet (setCall h ph hdl s) = rpcNet s" "rpcLoop (setCall h ph hdl s) = rpcLoop s" "rpcServers (setCall h ph hdl s) = rpcServers s"
  "length (rpcCalls (setCall h ph hdl s)) = length (rpcCalls s)"
  by (simp_all add: setCall_def)

lemma setCall_nth:
  "i < length (rpcCalls s) \<Longrightarrow>
   rpcCalls (setCall h ph hdl s) ! i = (if i = h then (rpcCalls s ! h)\<lparr>clPhase := ph, clHandler := hdl\<rparr> else rpcCalls s ! i)"
  by (simp add: setCall_def nth_list_update)

text \<open>A step of one call that enters no server: what has to be shown is about this call.\<close>

lemma rpcInv_setCall:
  assumes inv: "rpcInv G s" and h: "h < length (rpcCalls s)"
    and c: "c = (rpcCalls s ! h)\<lparr>clPhase := ph, clHandler := hdl\<rparr>"
    and ok: "callOk G (length (rpcServers s)) c" and same: "\<And>k. dispatchedOn k c = dispatchedOn k (rpcCalls s ! h)"
  shows "rpcInv G (setCall h ph hdl s)"
proof -
  have "length (filter (dispatchedOn k) ((rpcCalls s)[h := c])) = length (filter (dispatchedOn k) (rpcCalls s))" for k
    using length_filter_update [OF h, of "dispatchedOn k" c] same [of k] by (simp split: if_splits)
  then show ?thesis
    using inv ok set_update_subset_insert [of "rpcCalls s" h c] by (auto simp: rpcInv_def setCall_def c)
qed

lemma rpcInv_net:
  "rpcInv G s \<Longrightarrow> (\<And>sn k. servers rn sn = Some k \<Longrightarrow> k < length (rpcServers s)) \<Longrightarrow> (netDone (rpcNet s) \<Longrightarrow> netDone rn) \<Longrightarrow>
   rpcInv G (s\<lparr>rpcNet := rn\<rparr>)"
  by (auto simp: rpcInv_def)

text \<open>What a step may do to its call.\<close>

lemma rpcInv_goTo:
  assumes "rpcInv G s" and "h < length (rpcCalls s)" and "phaseOk G (length (rpcServers s)) (handlerOf s h) ph"
  shows "rpcInv G (goTo h ph s)"
proof (rule rpcInv_setCall [OF assms(1,2) refl])
  show "callOk G (length (rpcServers s)) ((rpcCalls s ! h)\<lparr>clPhase := ph, clHandler := handlerOf s h\<rparr>)"
    using rpcInv_D(1) [OF assms(1,2)] assms(3) by (simp add: callOk_def)
qed (simp add: dispatchedOn_def handlerAt_def)

lemma rpcInv_accept: "rpcInv G s \<Longrightarrow> h < length (rpcCalls s) \<Longrightarrow> phaseOf s h = CallSending \<Longrightarrow> rpcInv G (acceptReq h s)"
proof -
  assume inv: "rpcInv G s" and h: "h < length (rpcCalls s)" "phaseOf s h = CallSending"
  let ?rn = "(rpcNet s)\<lparr>netCount := netCount (rpcNet s) + 1, netBytes := netBytes (rpcNet s) + of_nat (length (rqArgs (clReq (rpcCalls s ! h))))\<rparr>"
  have "rpcInv G (s\<lparr>rpcNet := ?rn\<rparr>)" by (rule rpcInv_net [OF inv]) (use rpcInv_D(2) [OF inv] in auto)
  moreover have "phaseOk G (length (rpcServers s)) (handlerOf s h) CallAccepted"
    using rpcInv_D(1) [OF inv h(1)] h(2) by (simp add: callOk_def phaseOk_def)
  ultimately show ?thesis using rpcInv_goTo [of G "s\<lparr>rpcNet := ?rn\<rparr>" h CallAccepted] h(1) by (simp add: acceptReq_def)
qed

lemma rpcInv_answer: "rpcInv G s \<Longrightarrow> h < length (rpcCalls s) \<Longrightarrow> rpcInv G (goTo h (CallAnswering noReply) s)"
  by (rule rpcInv_goTo) (simp_all add: phaseOk_def)

lemma lookupReq_cases:
  obtains b where "lookupReq h s = goTo h (CallBound b) s" "enabled (rpcNet s) (rqEndname (clReq (rpcCalls s ! h)))"
      "connections (rpcNet s) (rqEndname (clReq (rpcCalls s ! h))) = Some (bdServername b)" "servers (rpcNet s) (bdServername b) = Some (bdServer b)"
      "bdReliable b = reliable (rpcNet s)"
    | "lookupReq h s = goTo h (CallAnswering noReply) s"
      "\<And>sn. enabled (rpcNet s) (rqEndname (clReq (rpcCalls s ! h))) \<Longrightarrow>
       connections (rpcNet s) (rqEndname (clReq (rpcCalls s ! h))) = Some sn \<Longrightarrow> servers (rpcNet s) sn = None"
proof (cases "\<exists>sn k. enabled (rpcNet s) (rqEndname (clReq (rpcCalls s ! h))) \<and>
    connections (rpcNet s) (rqEndname (clReq (rpcCalls s ! h))) = Some sn \<and> servers (rpcNet s) sn = Some k")
  case True
  then obtain sn k where k: "enabled (rpcNet s) (rqEndname (clReq (rpcCalls s ! h)))"
    "connections (rpcNet s) (rqEndname (clReq (rpcCalls s ! h))) = Some sn" "servers (rpcNet s) sn = Some k" by blast
  show ?thesis
    by (rule that(1) [of "\<lparr>bdServername = sn, bdServer = k, bdReliable = reliable (rpcNet s), bdLongreordering = longReordering (rpcNet s)\<rparr>"])
      (simp_all add: k lookupReq_def readEndnameInfo_def)
next
  case False
  show ?thesis
    by (rule that(2)) (use False in \<open>auto simp: lookupReq_def readEndnameInfo_def Let_def split: bool.splits option.splits\<close>)
qed

lemma rpcInv_lookup: "rpcInv G s \<Longrightarrow> h < length (rpcCalls s) \<Longrightarrow> phaseOf s h = CallAccepted \<Longrightarrow> rpcInv G (lookupReq h s)"
proof -
  assume inv: "rpcInv G s" and h: "h < length (rpcCalls s)" "phaseOf s h = CallAccepted"
  show ?thesis
  proof (cases h s rule: lookupReq_cases)
    case (1 b)
    have "phaseOk G (length (rpcServers s)) (handlerOf s h) (CallBound b)"
      using rpcInv_D(1) [OF inv h(1)] rpcInv_D(2) [OF inv 1(4)] h(2) by (simp add: callOk_def phaseOk_def)
    then show ?thesis using 1(1) rpcInv_goTo [OF inv h(1)] by simp
  next
    case 2
    then show ?thesis using rpcInv_answer [OF inv h(1)] by simp
  qed
qed

lemma enterServer_SomeE:
  assumes "enterServer G h k s = Some s'"
  obtains rs m a where "s' = setCall h (phaseOf s h) (HandlerRunning k m a) (s\<lparr>rpcServers := (rpcServers s)[k := rs]\<rparr>)"
    "svrCount rs = svrCount (rpcServers s ! k) + 1" "services rs = services (rpcServers s ! k)"
    "a = (case gobDecode G (rqArgs (clReq (rpcCalls s ! h))) of Some v \<Rightarrow> v | None \<Rightarrow> gobZero G (rqArgsType (clReq (rpcCalls s ! h))))"
  using assms by (auto simp: enterServer_def svrDispatch_def svcDispatch_def bind_Some_iff Let_def split: if_splits)

lemma rpcInv_enter:
  assumes inv: "rpcInv G s" and h: "h < length (rpcCalls s)" "handlerOf s h = HandlerSpawned k" and e: "enterServer G h k s = Some s'"
  shows "rpcInv G s'"
proof -
  obtain rs m a where s': "s' = setCall h (phaseOf s h) (HandlerRunning k m a) (s\<lparr>rpcServers := (rpcServers s)[k := rs]\<rparr>)"
      and rs: "svrCount rs = svrCount (rpcServers s ! k) + 1"
      and a: "a = (case gobDecode G (rqArgs (clReq (rpcCalls s ! h))) of Some v \<Rightarrow> v | None \<Rightarrow> gobZero G (rqArgsType (clReq (rpcCalls s ! h))))"
    using e by (rule enterServer_SomeE)
  let ?c = "(rpcCalls s ! h)\<lparr>clPhase := phaseOf s h, clHandler := HandlerRunning k m a\<rparr>"
  have old: "callOk G (length (rpcServers s)) (rpcCalls s ! h)" by (rule rpcInv_D(1) [OF inv h(1)])
  have ok: "callOk G (length (rpcServers s)) ?c"
    using old h(2) a by (auto simp: call_defs split: rpc_phase.splits option.splits)
  have d: "dispatchedOn j ?c \<longleftrightarrow> j = k" "\<not> dispatchedOn j (rpcCalls s ! h)" for j
    using h(2) by (auto simp: dispatchedOn_def handlerAt_def)
  have k: "k < length (rpcServers s)" using old h(2) by (simp add: callOk_def handlerOk_def)
  have "length (filter (dispatchedOn j) ((rpcCalls s)[h := ?c])) = length (filter (dispatchedOn j) (rpcCalls s)) + (if j = k then 1 else 0)" for j
    using length_filter_update [OF h(1), of "dispatchedOn j" ?c] d(1) [of j] d(2) [of j] by (simp split: if_splits)
  then show ?thesis
    using inv ok rs k set_update_subset_insert [of "rpcCalls s" h ?c] unfolding rpcInv_def s'
    by (auto simp: setCall_def nth_list_update)
qed

lemma rpcInv_handler:
  assumes "rpcInv G s" and "h < length (rpcCalls s)" and "handlerOk G (length (rpcServers s)) (clReq (rpcCalls s ! h)) hdl"
    and "phaseOk G (length (rpcServers s)) hdl ph"
    and "\<And>k. handlerAt hdl = Some k \<and> hdl \<noteq> HandlerSpawned k \<longleftrightarrow> dispatchedOn k (rpcCalls s ! h)"
  shows "rpcInv G (setCall h ph hdl s)"
  using rpcInv_D(1) [OF assms(1,2)] assms
  by (intro rpcInv_setCall [OF assms(1,2) refl]) (simp_all add: callOk_def dispatchedOn_def)

lemma rpcInv_carry: "carry_step G s s' \<Longrightarrow> gobOk G \<Longrightarrow> rpcInv G s \<Longrightarrow> rpcInv G s'"
proof (induction rule: carry_step.induct)
  case (accept h s)
  then show ?case by (simp add: rpcInv_accept)
next
  case (destroyed h s)
  then show ?case by (intro rpcInv_goTo) (simp_all add: phaseOk_def)
next
  case (loop_ends s)
  then show ?case by (simp add: rpcInv_def)
next
  case (lookup h s)
  then show ?case by (simp add: rpcInv_lookup)
next
  case (spawn h s b)
  then show ?case
    using rpcInv_D(1) [OF spawn.prems(2) spawn.hyps(1)] spawn.hyps(2)
    by (intro rpcInv_handler) (auto simp: callOk_def handlerOk_def phaseOk_def dispatchedOn_def handlerAt_def)
next
  case (enter h s k s')
  then show ?case by (simp add: rpcInv_enter)
next
  case (finish h s k m args reply)
  then show ?case
    using rpcInv_D(1) [OF finish.prems(2) finish.hyps(1)] finish.hyps(2)
    by (intro rpcInv_handler) (auto simp: call_defs dispatchedOn_def split: rpc_phase.splits option.splits)
next
  case (receive h s b k m args reply)
  then show ?case
    using rpcInv_D(1) [OF receive.prems(2) receive.hyps(1)] receive.hyps(2,3)
    by (intro rpcInv_handler) (auto simp: call_defs dispatchedOn_def)
next
  case (drain h s k m args reply)
  then show ?case
    using rpcInv_D(1) [OF drain.prems(2) drain.hyps(1)] drain.hyps(2,3)
    by (intro rpcInv_handler) (auto simp: call_defs dispatchedOn_def split: rpc_phase.splits option.splits)
next
  case (give_up h s b)
  then show ?case by (intro rpcInv_goTo) (simp_all add: phaseOk_def)
next
  case (pass h s b r)
  then show ?case
    using rpcInv_D(1) [OF pass.prems(2) pass.hyps(1)] by (intro rpcInv_goTo) (simp_all add: callOk_def phaseOk_def)
next
  case (deliver h s r)
  let ?s = "s\<lparr>rpcNet := (rpcNet s)\<lparr>netBytes := netBytes (rpcNet s) + of_nat (length (rpReply r))\<rparr>\<rparr>"
  have "rpcInv G ?s" by (rule rpcInv_net) (use deliver.prems rpcInv_D(2) [OF deliver.prems(2)] in auto)
  then show ?case
    using rpcInv_D(1) [OF deliver.prems(2) deliver.hyps(1)] deliver.hyps rpcInv_goTo [of G ?s h "CallAnswering r"]
    by (simp add: callOk_def phaseOk_def)
next
  case (return h s r x)
  have "phaseOk G (length (rpcServers s)) (handlerOf s h) (CallReturned x)"
    using rpcInv_D(1) [OF return.prems(2) return.hyps(1)] return.hyps(2,3) svcReply_end [OF return.prems(1)]
    by (auto simp: callOk_def phaseOk_def returnedReply_def)
  then show ?case using rpcInv_goTo return by blast
qed (simp_all add: rpcInv_answer)

lemma net_op_keeps:
  assumes "net_op n rn rn'" and "\<And>sn k. servers rn sn = Some k \<Longrightarrow> k < n"
  shows "(servers rn' sn = Some k \<longrightarrow> k < n) \<and> (netDone rn \<longrightarrow> netDone rn')"
  using assms
  by cases (auto simp: Reliable_def LongReordering_def LongDelays_def MakeEnd_def AddServer_def DeleteServer_def Connect_def Enable_def
      Cleanup_def Let_def split: if_splits)

lemma rpcInv_step: "rpc_step G s s' \<Longrightarrow> gobOk G \<Longrightarrow> rpcInv G s \<Longrightarrow> rpcInv G s'"
proof (induction rule: rpc_step.induct)
  case (carry s s')
  then show ?case by (simp add: rpcInv_carry)
next
  case (call s en e svcMeth argsType args s')
  then obtain b where b: "gobEncode G args = Some b" "s' = s\<lparr>rpcCalls := rpcCalls s @ [\<lparr>clReq = \<lparr>rqEndname = endname e, rqSvcMeth = svcMeth,
      rqArgsType = argsType, rqArgs = b\<rparr>, clPhase = CallSending, clHandler = HandlerNone\<rparr>]\<rparr>"
    by (auto simp: callBegin_def bind_Some_iff Let_def)
  then show ?case
    using call.prems gobOk_decode [OF call.prems(1) b(1)]
    by (auto simp: rpcInv_def call_defs dispatchedOn_def)
next
  case (config s rn)
  then show ?case using net_op_keeps [OF config.hyps rpcInv_D(2) [OF config.prems(2)]] by (intro rpcInv_net) auto
next
  case (make_server s)
  have "callOk G (Suc (length (rpcServers s))) c" if "c \<in> set (rpcCalls s)" for c
    using make_server.prems(2) that callOk_mono [of G "length (rpcServers s)" c] by (simp add: rpcInv_def)
  moreover have "\<not> dispatchedOn (length (rpcServers s)) c" if "c \<in> set (rpcCalls s)" for c
    using make_server.prems(2) that by (fastforce simp: rpcInv_def callOk_def handlerOk_def dispatchedOn_def handlerAt_def split: rpc_handler.splits)
  ultimately show ?case
    using make_server.prems(2) by (auto simp: rpcInv_def nth_append MakeServer_def less_Suc_eq filter_empty_conv)
next
  case (add_service k s svc)
  then show ?case by (auto simp: rpcInv_def AddService_def nth_list_update)
qed

lemma rpcInv_start: "rpcInv G startNetwork"
  by (simp add: rpcInv_def startNetwork_def MakeNetwork_def)

lemma rpcInv_reach: "(rpc_step G)\<^sup>*\<^sup>* startNetwork s \<Longrightarrow> gobOk G \<Longrightarrow> rpcInv G s"
  by (induction rule: rtranclp_induct) (auto intro: rpcInv_start rpcInv_step)

section \<open>Calls come back\<close>

text \<open>A request that finds its service and method on a server, with a handler that returns.\<close>

definition resolves :: "'x gob \<Rightarrow> reqMsg \<Rightarrow> 'x Server \<Rightarrow> bool" where
  "resolves G req rs \<longleftrightarrow> (\<exists>rs' svc mn m a r. svrDispatch req rs = Some (rs', svc, mn) \<and> svcDispatch G mn req svc = Some (m, a) \<and> mtFunc m a r)"

definition returns :: "'x rpc_handler \<Rightarrow> bool" where
  "returns hdl = (case hdl of HandlerRunning k m a \<Rightarrow> \<exists>r. mtFunc m a r | _ \<Rightarrow> True)"

definition answerable :: "'x gob \<Rightarrow> 'x rpc \<Rightarrow> bool" where
  "answerable G s \<longleftrightarrow> (\<forall>c \<in> set (rpcCalls s). returns (clHandler c) \<and> (\<forall>rs \<in> set (rpcServers s). resolves G (clReq c) rs))"

definition allReturned :: "'x rpc \<Rightarrow> bool" where
  "allReturned s \<longleftrightarrow> (\<forall>c \<in> set (rpcCalls s). \<exists>x. clPhase c = CallReturned x)"

definition phaseWork :: "'x rpc_phase \<Rightarrow> nat" where
  "phaseWork ph = (case ph of CallSending \<Rightarrow> 20 | CallAccepted \<Rightarrow> 19 | CallBound b \<Rightarrow> 18 | CallAwaiting b \<Rightarrow> 10 | CallGot b r \<Rightarrow> 4 | CallGaveUp \<Rightarrow> 4
   | CallDelivering r \<Rightarrow> 3 | CallAnswering r \<Rightarrow> 2 | CallReturned x \<Rightarrow> 0)"

definition handlerWork :: "'x rpc_handler \<Rightarrow> nat" where
  "handlerWork hdl = (case hdl of HandlerNone \<Rightarrow> 0 | HandlerSpawned k \<Rightarrow> 3 | HandlerRunning k m a \<Rightarrow> 2 | HandlerDone k m a x \<Rightarrow> 1 | HandlerEnded k m a x \<Rightarrow> 0)"

definition rpcWork :: "'x rpc \<Rightarrow> nat" where
  "rpcWork s = (\<Sum>c \<leftarrow> rpcCalls s. phaseWork (clPhase c) + handlerWork (clHandler c)) + (if rpcLoop s then 1 else 0)"

lemmas work_defs = phaseWork_def handlerWork_def

lemma rpcWork_setCall:
  "h < length (rpcCalls s) \<Longrightarrow>
   rpcWork (setCall h ph hdl s) + (phaseWork (phaseOf s h) + handlerWork (handlerOf s h)) = rpcWork s + (phaseWork ph + handlerWork hdl)"
  using sum_list_update [of h "rpcCalls s" "\<lambda>c. phaseWork (clPhase c) + handlerWork (clHandler c)" "(rpcCalls s ! h)\<lparr>clPhase := ph, clHandler := hdl\<rparr>"]
  by (simp add: rpcWork_def setCall_def)

lemma rpcWork_net [simp]:
  "rpcWork (setCall h ph hdl (s\<lparr>rpcNet := rn\<rparr>)) = rpcWork (setCall h ph hdl s)"
  "rpcWork (setCall h ph hdl (s\<lparr>rpcServers := rs\<rparr>)) = rpcWork (setCall h ph hdl s)"
  by (simp_all add: rpcWork_def setCall_def)

lemma rpcWork_less:
  "h < length (rpcCalls s) \<Longrightarrow> phaseWork ph + handlerWork hdl < phaseWork (phaseOf s h) + handlerWork (handlerOf s h) \<Longrightarrow> rpcWork (setCall h ph hdl s) < rpcWork s"
  using rpcWork_setCall [of h s ph hdl] by linarith

lemma carry_work: "carry_step G s s' \<Longrightarrow> rpcInv G s \<Longrightarrow> rpcWork s' < rpcWork s"
proof (induction rule: carry_step.induct)
  case (accept h s)
  then show ?case using rpcWork_less [of h s CallAccepted "handlerOf s h"] by (simp add: acceptReq_def phaseWork_def)
next
  case (loop_ends s)
  then show ?case by (simp add: rpcWork_def)
next
  case (lookup h s)
  then show ?case by (cases h s rule: lookupReq_cases) (auto intro!: rpcWork_less simp: phaseWork_def)
next
  case (spawn h s b)
  then have "handlerOf s h = HandlerNone" using rpcInv_D(1) [of G s h] by (simp add: callOk_def phaseOk_def)
  with spawn show ?case by (intro rpcWork_less) (simp_all add: work_defs)
next
  case (enter h s k s')
  then show ?case by (auto elim!: enterServer_SomeE intro!: rpcWork_less simp: handlerWork_def)
next
  case (deliver h s r)
  then show ?case using rpcWork_less [of h s "CallAnswering r" "handlerOf s h"] by (simp add: phaseWork_def)
qed (auto intro!: rpcWork_less simp: work_defs)

lemma resolves_services: "services rs = services rs' \<Longrightarrow> resolves G req rs \<longleftrightarrow> resolves G req rs'"
  by (simp add: resolves_def svrDispatch_def bind_Some_iff) blast

lemma answerable_setCall: "answerable G s \<Longrightarrow> h < length (rpcCalls s) \<Longrightarrow> returns hdl \<Longrightarrow> answerable G (setCall h ph hdl s)"
  using set_update_subset_insert [of "rpcCalls s" h] nth_mem [of h "rpcCalls s"] unfolding answerable_def setCall_def by fastforce

lemma answerable_net [simp]: "answerable G (s\<lparr>rpcNet := rn\<rparr>) = answerable G s"
  by (simp add: answerable_def)

lemma answerable_D: "answerable G s \<Longrightarrow> h < length (rpcCalls s) \<Longrightarrow> returns (handlerOf s h)"
  "answerable G s \<Longrightarrow> h < length (rpcCalls s) \<Longrightarrow> k < length (rpcServers s) \<Longrightarrow> resolves G (clReq (rpcCalls s ! h)) (rpcServers s ! k)"
  by (simp_all add: answerable_def)

lemma answerable_enter:
  assumes a: "answerable G s" and h: "h < length (rpcCalls s)" and k: "k < length (rpcServers s)" and e: "enterServer G h k s = Some s'"
  shows "answerable G s'"
proof -
  let ?req = "clReq (rpcCalls s ! h)"
  obtain rs svc mn m v where d: "svrDispatch ?req (rpcServers s ! k) = Some (rs, svc, mn)" "svcDispatch G mn ?req svc = Some (m, v)"
      and s': "s' = setCall h (phaseOf s h) (HandlerRunning k m v) (s\<lparr>rpcServers := (rpcServers s)[k := rs]\<rparr>)"
    using e by (auto simp: enterServer_def bind_Some_iff Let_def)
  have "\<exists>r. mtFunc m v r" using answerable_D(2) [OF a h k] d by (auto simp: resolves_def)
  moreover have "services rs = services (rpcServers s ! k)" using d(1) by (auto simp: svrDispatch_def bind_Some_iff)
  then have "answerable G (s\<lparr>rpcServers := (rpcServers s)[k := rs]\<rparr>)"
    using a set_update_subset_insert [of "rpcServers s" k rs] nth_mem [OF k] resolves_services [of rs] unfolding answerable_def by fastforce
  ultimately show ?thesis unfolding s' using h by (intro answerable_setCall) (simp_all add: returns_def)
qed

lemma answerable_carry: "carry_step G s s' \<Longrightarrow> rpcInv G s \<Longrightarrow> answerable G s \<Longrightarrow> answerable G s'"
proof (induction rule: carry_step.induct)
  case (accept h s)
  then show ?case using answerable_D(1) [of G s h] by (auto simp: acceptReq_def intro!: answerable_setCall)
next
  case (loop_ends s)
  then show ?case by (simp add: answerable_def)
next
  case (lookup h s)
  then show ?case using answerable_D(1) [of G s h] by (cases h s rule: lookupReq_cases) (auto intro!: answerable_setCall)
next
  case (enter h s k s')
  then show ?case using rpcInv_D(1) [of G s h] answerable_enter [of G s h k s'] by (simp add: callOk_def handlerOk_def)
qed (auto intro!: answerable_setCall simp: returns_def answerable_D(1) [unfolded returns_def])

lemma handler_progress:
  assumes inv: "rpcInv G s" and a: "answerable G s" and h: "h < length (rpcCalls s)" "phaseOf s h = CallAwaiting b"
  shows "\<exists>s'. carry_step G s s'"
proof -
  have ok: "callOk G (length (rpcServers s)) (rpcCalls s ! h)" by (rule rpcInv_D(1) [OF inv h(1)])
  show ?thesis
  proof (cases "handlerOf s h")
    case (HandlerSpawned k)
    then have "resolves G (clReq (rpcCalls s ! h)) (rpcServers s ! k)"
      using ok answerable_D(2) [OF a h(1)] by (simp add: callOk_def handlerOk_def)
    then have "\<exists>s'. enterServer G h k s = Some s'" by (auto simp: resolves_def enterServer_def Let_def)
    then show ?thesis using carry_step.enter [OF h(1) HandlerSpawned] by blast
  next
    case (HandlerRunning k m v)
    then show ?thesis using carry_step.finish [OF h(1) HandlerRunning] answerable_D(1) [OF a h(1)] by (auto simp: returns_def)
  next
    case (HandlerDone k m v x)
    then show ?thesis using carry_step.receive [OF h HandlerDone] by blast
  qed (use ok h(2) in \<open>simp_all add: callOk_def phaseOk_def handlerAt_def\<close>)
qed

lemma rpc_progress:
  assumes inv: "rpcInv G s" and a: "answerable G s" and G: "gobOk G" and "\<not> allReturned s"
  shows "\<exists>s'. carry_step G s s'"
proof -
  obtain h where h: "h < length (rpcCalls s)" "\<And>x. phaseOf s h \<noteq> CallReturned x"
    using assms(4) by (auto simp: allReturned_def in_set_conv_nth)
  have ok: "callOk G (length (rpcServers s)) (rpcCalls s ! h)" by (rule rpcInv_D(1) [OF inv h(1)])
  show ?thesis
  proof (cases "phaseOf s h")
    case CallSending
    then show ?thesis using rpcInv_D(3) [OF inv] carry_step.accept [OF h(1)] carry_step.destroyed [OF h(1)] by blast
  next
    case (CallAwaiting b)
    then show ?thesis by (rule handler_progress [OF inv a h(1)])
  next
    case (CallGot b r)
    then show ?thesis using carry_step.died [OF h(1)] carry_step.pass [OF h(1)] by blast
  next
    case (CallAnswering r)
    then have "\<exists>x. callEnd G r = Some x" using ok svcReply_end [OF G] by (auto simp: callOk_def phaseOk_def returnedReply_def)
    then show ?thesis using carry_step.return [OF h(1) CallAnswering] by blast
  qed (use h in \<open>blast intro: carry_step.intros\<close>)+
qed

interpretation netDrain: draining "carry_step G" "\<lambda>s. rpcInv G s \<and> answerable G s \<and> gobOk G" rpcWork allReturned
  for G
  by unfold_locales (blast intro: rpcInv_carry answerable_carry carry_work rpc_progress)+

section \<open>A deleted server\<close>

text \<open>A call that is bound to a server object, or will not get a reply.\<close>

definition boundTo :: "int \<Rightarrow> nat \<Rightarrow> 'x rpc_phase \<Rightarrow> bool" where
  "boundTo sn k ph = (case ph of
     CallBound b \<Rightarrow> bdServername b = sn \<and> bdServer b = k
   | CallAwaiting b \<Rightarrow> bdServername b = sn \<and> bdServer b = k
   | CallGot b r \<Rightarrow> bdServername b = sn \<and> bdServer b = k
   | _ \<Rightarrow> False)"

definition silent :: "int \<Rightarrow> nat \<Rightarrow> 'x rpc_phase \<Rightarrow> bool" where
  "silent sn k ph \<longleftrightarrow> boundTo sn k ph \<or> ph = CallGaveUp \<or> ph = CallAnswering noReply \<or> ph = CallReturned None"

lemma lookupReq_nth: "i < length (rpcCalls s) \<Longrightarrow> i \<noteq> h \<Longrightarrow> rpcCalls (lookupReq h s) ! i = rpcCalls s ! i"
  by (cases h s rule: lookupReq_cases) (simp_all add: setCall_nth)

lemma silent_carry:
  "carry_step G s s' \<Longrightarrow> i < length (rpcCalls s) \<Longrightarrow> silent sn k (phaseOf s i) \<Longrightarrow> servers (rpcNet s) sn \<noteq> Some k \<Longrightarrow> silent sn k (phaseOf s' i)"
proof (induction rule: carry_step.induct)
  case (accept h s)
  then show ?case by (cases "i = h") (auto simp: acceptReq_def setCall_nth silent_def boundTo_def)
next
  case (lookup h s)
  then show ?case by (cases "i = h") (auto simp: lookupReq_nth silent_def boundTo_def)
next
  case (enter h s j s')
  then show ?case by (cases "i = h") (auto elim!: enterServer_SomeE simp: setCall_nth)
next
  case (pass h s b r)
  then show ?case by (cases "i = h") (auto simp: setCall_nth silent_def boundTo_def boundDead_def isServerDead_def)
qed (auto simp: setCall_nth silent_def boundTo_def split: if_splits)

lemma carry_step_length: "carry_step G s s' \<Longrightarrow> length (rpcCalls s') = length (rpcCalls s)"
proof (induction rule: carry_step.induct)
  case (lookup h s)
  then show ?case by (cases h s rule: lookupReq_cases) simp_all
qed (auto simp: acceptReq_def elim!: enterServer_SomeE)

lemma rpc_step_length: "rpc_step G s s' \<Longrightarrow> length (rpcCalls s) \<le> length (rpcCalls s')"
  by (induction rule: rpc_step.induct) (auto simp: carry_step_length callBegin_def bind_Some_iff Let_def)

lemma silent_step:
  "rpc_step G s s' \<Longrightarrow> i < length (rpcCalls s) \<Longrightarrow> silent sn k (phaseOf s i) \<Longrightarrow> servers (rpcNet s) sn \<noteq> Some k \<Longrightarrow> silent sn k (phaseOf s' i)"
proof (induction rule: rpc_step.induct)
  case (carry s s')
  then show ?case by (rule silent_carry)
qed (auto simp: callBegin_def bind_Some_iff Let_def nth_append)

lemma silent_run:
  assumes "(\<lambda>s s'. rpc_step G s s' \<and> servers (rpcNet s') sn \<noteq> Some k)\<^sup>*\<^sup>* s s'"
    and "servers (rpcNet s) sn \<noteq> Some k" and "i < length (rpcCalls s)" and "silent sn k (phaseOf s i)"
  shows "silent sn k (phaseOf s' i) \<and> i < length (rpcCalls s') \<and> servers (rpcNet s') sn \<noteq> Some k"
  using assms
proof (induction rule: rtranclp_induct)
  case (step t u)
  then show ?case using silent_step [of G t u i sn k] rpc_step_length [of G t u] by auto
qed simp

section \<open>Which method runs\<close>

text \<open>The method that a handler goroutine runs or has run, and the method that a request names among the services of a server.\<close>

definition methodOf :: "'x rpc_handler \<Rightarrow> 'x Method option" where
  "methodOf hdl = (case hdl of HandlerRunning k m a \<Rightarrow> Some m | HandlerDone k m a x \<Rightarrow> Some m | HandlerEnded k m a x \<Rightarrow> Some m | _ \<Rightarrow> None)"

definition finds :: "(string \<rightharpoonup> 'x Service) \<Rightarrow> string \<Rightarrow> 'x Method \<Rightarrow> bool" where
  "finds svcs svcMeth m \<longleftrightarrow> (\<exists>sn mn svc. splitMeth svcMeth = Some (sn, mn) \<and> svcs sn = Some svc \<and> svcMethods svc mn = Some m)"

definition ran :: "nat \<Rightarrow> 'x Method \<Rightarrow> 'x rpc_handler \<Rightarrow> bool" where
  "ran k m hdl \<longleftrightarrow> handlerAt hdl = Some k \<and> methodOf hdl = Some m"

lemma ran_simps [simp]:
  "ran k m HandlerNone = False" "ran k m (HandlerSpawned k') = False" "ran k m (HandlerRunning k' m' a) = (k' = k \<and> m' = m)"
  "ran k m (HandlerDone k' m' a x) = (k' = k \<and> m' = m)" "ran k m (HandlerEnded k' m' a x) = (k' = k \<and> m' = m)"
  by (auto simp: ran_def handlerAt_def methodOf_def)

lemma enterServer_finds:
  assumes "enterServer G h k s = Some s'"
  obtains rs m a where "s' = setCall h (phaseOf s h) (HandlerRunning k m a) (s\<lparr>rpcServers := (rpcServers s)[k := rs]\<rparr>)"
    "services rs = services (rpcServers s ! k)" "finds (services (rpcServers s ! k)) (rqSvcMeth (clReq (rpcCalls s ! h))) m"
  using assms by (force simp: enterServer_def svrDispatch_def svcDispatch_def bind_Some_iff finds_def Let_def split: if_splits)

text \<open>The moment of the dispatch: the handler is about to enter the server, which has the method.\<close>

definition dispatching :: "nat \<Rightarrow> 'x Method \<Rightarrow> nat \<Rightarrow> 'x rpc \<Rightarrow> bool" where
  "dispatching k m h s \<longleftrightarrow> handlerOf s h = HandlerSpawned k \<and> finds (services (rpcServers s ! k)) (rqSvcMeth (clReq (rpcCalls s ! h))) m"

lemma carry_step_ran:
  assumes "carry_step G s s'" and "i < length (rpcCalls s)"
  shows "clReq (rpcCalls s' ! i) = clReq (rpcCalls s ! i) \<and> (ran k m (handlerOf s' i) \<longrightarrow> ran k m (handlerOf s i) \<or> dispatching k m i s)"
  using assms
proof (induction rule: carry_step.induct)
  case (lookup h s)
  then show ?case by (cases h s rule: lookupReq_cases) (simp_all add: setCall_nth)
next
  case (enter h s k' s')
  obtain rs m' a where e: "s' = setCall h (phaseOf s h) (HandlerRunning k' m' a) (s\<lparr>rpcServers := (rpcServers s)[k' := rs]\<rparr>)"
      "finds (services (rpcServers s ! k')) (rqSvcMeth (clReq (rpcCalls s ! h))) m'"
    using enter.hyps(3) by (rule enterServer_finds)
  then show ?case using enter.hyps(2) enter.prems by (auto simp: e(1) setCall_nth dispatching_def)
qed (auto simp: setCall_nth acceptReq_def)

lemma rpc_step_ran:
  assumes "rpc_step G s s'" and "h < length (rpcCalls s')" and "ran k m (handlerOf s' h)"
  shows "h < length (rpcCalls s) \<and> clReq (rpcCalls s' ! h) = clReq (rpcCalls s ! h) \<and> (ran k m (handlerOf s h) \<or> dispatching k m h s)"
  using assms
proof (induction rule: rpc_step.induct)
  case (carry s s')
  then show ?case using carry_step_ran [OF carry.hyps, of h k m] carry_step_length [OF carry.hyps] by auto
next
  case (call s en e svcMeth argsType args s')
  then show ?case by (cases "h < length (rpcCalls s)") (auto simp: callBegin_def bind_Some_iff nth_append Let_def split: if_splits)
qed simp_all

text \<open>A method that ran for a call was the one that the request names on this server when the handler entered it.\<close>

lemma ran_dispatched:
  assumes "(rpc_step G)\<^sup>*\<^sup>* startNetwork s" and "h < length (rpcCalls s)" and "ran k m (handlerOf s h)"
  shows "\<exists>s0. (rpc_step G)\<^sup>*\<^sup>* startNetwork s0 \<and> (rpc_step G)\<^sup>*\<^sup>* s0 s \<and> h < length (rpcCalls s0) \<and>
    clReq (rpcCalls s0 ! h) = clReq (rpcCalls s ! h) \<and> dispatching k m h s0"
  using assms
proof (induction rule: rtranclp_induct)
  case base
  then show ?case by (simp add: startNetwork_def)
next
  case (step s s')
  then consider "ran k m (handlerOf s h)" | "dispatching k m h s" using rpc_step_ran [OF step.hyps(2) step.prems] by blast
  then show ?case
  proof cases
    case 1
    then show ?thesis using step.IH rpc_step_ran [OF step.hyps(2) step.prems] step.hyps(2) by (metis rtranclp.rtrancl_into_rtrancl)
  next
    case 2
    then show ?thesis using step.hyps rpc_step_ran [OF step.hyps(2) step.prems] by (metis r_into_rtranclp)
  qed
qed

end
