(* ===== verification/Runtime_Cluster.thy ===== *)
theory Runtime_Cluster
  imports KV_Server Go_Stdlib Labrpc_Facts
begin

text \<open>
  The key/value cluster in one process: \<open>src/kvraft/runtime/cluster.go\<close>. \<open>NewCluster\<close> makes a network, one client end per pair of peers, and for every peer a
  key/value server with its Raft peer, registered as two services of one \<open>labrpc\<close> server. What \<open>reflect\<close> finds as the methods of the two receivers is an argument.
  \<open>None\<close> ends the process. \<open>NewCluster\<close> is defined as it is written, and again as a list of single operations, which \<open>cluster_step\<close> interleaves with the calls of the peers and with \<open>Shutdown\<close>; the lemmas
  show that both build the same network and that a call made after the start-up is executed by the peer it is for.
\<close>

section \<open>Operations\<close>

record 'x Cluster =
  clNet :: "'x rpc"
  clN :: nat
  clKv :: "KVServer option list"
  clHttp :: "string option list" \<comment> \<open>the address a running HTTP server listens on\<close>
  clSaved :: "(Op, snapval) Persister option list"
  clNames :: "string list list"
  clHttpAddrs :: "string list"

definition endName :: "nat \<Rightarrow> nat \<Rightarrow> string" where
  "endName i j = ''raft-'' @ showNat i @ ''-to-'' @ showNat j"

fun makeEnds :: "string list \<Rightarrow> nat \<Rightarrow> Network \<Rightarrow> Network option" where
  "makeEnds [] j rn = Some rn"
| "makeEnds (en # names) j rn = do {
     (e, rn) \<leftarrow> MakeEnd en rn;
     makeEnds names (j + 1) (Connect en (int j) rn) }"

text \<open>\<open>startServer\<close> for peer \<open>i\<close>; it never returns an error.\<close>

definition startServer ::
  "(nat \<Rightarrow> 'x Method list) \<Rightarrow> (nat \<Rightarrow> 'x Method list) \<Rightarrow> int \<Rightarrow> nat \<Rightarrow> int \<Rightarrow> 'x Cluster \<Rightarrow> (string option \<times> 'x Cluster) option" where
  "startServer kvMethods rfMethods now i maxRaftState c = do {
     rn \<leftarrow> makeEnds (clNames c ! i) 0 (rpcNet (clNet c));
     let ps = MakePersister;
     let kv = fst (StartKVServer (clN c) (int i) ps maxRaftState now);
     let kvsvc = MakeService ''KVServer'' (kvMethods i);
     let rfsvc = MakeService ''Raft'' (rfMethods i);
     let srv = AddService rfsvc (AddService kvsvc MakeServer);
     let k = length (rpcServers (clNet c));
     addr \<leftarrow> idx (clHttpAddrs c) (int i);
     Some (None, c\<lparr>clNet := (clNet c)\<lparr>rpcNet := AddServer (int i) k rn, rpcServers := rpcServers (clNet c) @ [srv]\<rparr>,
       clSaved := (clSaved c)[i := Some ps], clKv := (clKv c)[i := Some kv], clHttp := (clHttp c)[i := Some addr]\<rparr>) }"

definition enableAll :: "(string \<times> bool) list \<Rightarrow> Network \<Rightarrow> Network" where
  "enableAll es rn = foldl (\<lambda>rn (en, yes). Enable en yes rn) rn es"

definition connectAll :: "'x Cluster \<Rightarrow> 'x Cluster" where
  "connectAll c =
    (let es = concat (map (\<lambda>i. concat (map (\<lambda>j. [(clNames c ! i ! j, True), (clNames c ! j ! i, True)]) [0..<clN c])) [0..<clN c])
     in c\<lparr>clNet := (clNet c)\<lparr>rpcNet := enableAll es (rpcNet (clNet c))\<rparr>\<rparr>)"

text \<open>\<open>Shutdown\<close>: the servers that were killed, and the cluster.\<close>

definition Shutdown :: "'x Cluster \<Rightarrow> (KVServer list \<times> 'x Cluster) option" where
  "Shutdown c = do {
     let stopped = concat (map (\<lambda>kv. case kv of None \<Rightarrow> [] | Some kv \<Rightarrow> [KVKill kv]) (clKv c));
     rn \<leftarrow> Cleanup (rpcNet (clNet c));
     Some (stopped, c\<lparr>clHttp := replicate (clN c) None, clKv := replicate (clN c) None, clNet := (clNet c)\<lparr>rpcNet := rn\<rparr>\<rparr>) }"

text \<open>The loop of \<open>NewCluster\<close> that starts the servers from number \<open>i\<close> on.\<close>

fun startAll ::
  "(nat \<Rightarrow> 'x Method list) \<Rightarrow> (nat \<Rightarrow> 'x Method list) \<Rightarrow> int \<Rightarrow> nat list \<Rightarrow> int \<Rightarrow> 'x Cluster \<Rightarrow> (string + 'x Cluster) option" where
  "startAll kvMethods rfMethods now [] maxRaftState c = Some (Inr c)"
| "startAll kvMethods rfMethods now (i # is) maxRaftState c = do {
     (err, c) \<leftarrow> startServer kvMethods rfMethods now i maxRaftState c;
     (case err of
        Some e \<Rightarrow> do { (stopped, c) \<leftarrow> Shutdown c; Some (Inl e) }
      | None \<Rightarrow> startAll kvMethods rfMethods now is maxRaftState c) }"

definition emptyCluster :: "nat \<Rightarrow> string list \<Rightarrow> 'x Cluster" where
  "emptyCluster n httpAddrs =
    \<lparr>clNet = startNetwork, clN = n, clKv = replicate n None, clHttp = replicate n None, clSaved = replicate n None,
     clNames = map (\<lambda>i. map (endName i) [0..<n]) [0..<n], clHttpAddrs = httpAddrs\<rparr>"

definition NewCluster ::
  "(nat \<Rightarrow> 'x Method list) \<Rightarrow> (nat \<Rightarrow> 'x Method list) \<Rightarrow> int \<Rightarrow> int \<Rightarrow> string list \<Rightarrow> int \<Rightarrow> (string + 'x Cluster) option" where
  "NewCluster kvMethods rfMethods now n httpAddrs maxRaftState =
    (if int (length httpAddrs) \<noteq> n
     then Some (Inl (''need '' @ showInt n @ '' http addresses, got '' @ showInt (int (length httpAddrs))))
     else do {
       r \<leftarrow> startAll kvMethods rfMethods now [0..<nat n] maxRaftState (emptyCluster (nat n) httpAddrs);
       Some (case r of Inl e \<Rightarrow> Inl e | Inr c \<Rightarrow> Inr (connectAll c)) })"

definition clusterKV :: "int \<Rightarrow> 'x Cluster \<Rightarrow> KVServer option option" where
  "clusterKV i c = idx (clKv c) i"

section \<open>Start-up, calls and shutdown together\<close>

text \<open>
  The goroutines of a peer run as soon as \<open>StartKVServer\<close> has been called, while \<open>NewCluster\<close> is still making ends and servers. A \<open>boot\<close> is one operation of \<open>NewCluster\<close>
  that others can see: an end is made, connected, a server object is added, and so on.
\<close>

datatype boot = BootEnd nat nat | BootConnect nat nat | BootKV nat | BootServe nat | BootHttp nat | BootEnable nat nat

abbreviation setNet :: "Network \<Rightarrow> 'x Cluster \<Rightarrow> 'x Cluster" where
  "setNet rn c \<equiv> c\<lparr>clNet := (clNet c)\<lparr>rpcNet := rn\<rparr>\<rparr>"

fun bootStep :: "(nat \<Rightarrow> 'x Method list) \<Rightarrow> (nat \<Rightarrow> 'x Method list) \<Rightarrow> int \<Rightarrow> int \<Rightarrow> boot \<Rightarrow> 'x Cluster \<Rightarrow> 'x Cluster option" where
  "bootStep K R now ms (BootEnd i j) c = do { (e, rn) \<leftarrow> MakeEnd (clNames c ! i ! j) (rpcNet (clNet c)); Some (setNet rn c) }"
| "bootStep K R now ms (BootConnect i j) c = Some (setNet (Connect (clNames c ! i ! j) (int j) (rpcNet (clNet c))) c)"
| "bootStep K R now ms (BootKV i) c =
     (let ps = MakePersister in Some (c\<lparr>clSaved := (clSaved c)[i := Some ps], clKv := (clKv c)[i := Some (fst (StartKVServer (clN c) (int i) ps ms now))]\<rparr>))"
| "bootStep K R now ms (BootServe i) c =
     (let srv = AddService (MakeService ''Raft'' (R i)) (AddService (MakeService ''KVServer'' (K i)) MakeServer)
      in Some (c\<lparr>clNet := (clNet c)\<lparr>rpcNet := AddServer (int i) (length (rpcServers (clNet c))) (rpcNet (clNet c)), rpcServers := rpcServers (clNet c) @ [srv]\<rparr>\<rparr>))"
| "bootStep K R now ms (BootHttp i) c = do { addr \<leftarrow> idx (clHttpAddrs c) (int i); Some (c\<lparr>clHttp := (clHttp c)[i := Some addr]\<rparr>) }"
| "bootStep K R now ms (BootEnable i j) c = Some (setNet (Enable (clNames c ! i ! j) True (rpcNet (clNet c))) c)"

definition endOps :: "nat \<Rightarrow> nat list \<Rightarrow> boot list" where
  "endOps i js = concat (map (\<lambda>j. [BootEnd i j, BootConnect i j]) js)"

definition serverOps :: "nat \<Rightarrow> nat \<Rightarrow> boot list" where
  "serverOps n i = endOps i [0..<n] @ [BootKV i, BootServe i, BootHttp i]"

definition enableOps :: "nat \<Rightarrow> boot list" where
  "enableOps n = concat (map (\<lambda>i. concat (map (\<lambda>j. [BootEnable i j, BootEnable j i]) [0..<n])) [0..<n])"

definition bootOps :: "nat \<Rightarrow> boot list" where
  "bootOps n = concat (map (serverOps n) [0..<n]) @ enableOps n"

fun runBoot :: "(nat \<Rightarrow> 'x Method list) \<Rightarrow> (nat \<Rightarrow> 'x Method list) \<Rightarrow> int \<Rightarrow> int \<Rightarrow> boot list \<Rightarrow> 'x Cluster \<Rightarrow> 'x Cluster option" where
  "runBoot K R now ms [] c = Some c"
| "runBoot K R now ms (op # ops) c = do { c \<leftarrow> bootStep K R now ms op c; runBoot K R now ms ops c }"

text \<open>
  The life of a cluster: the next operation of \<open>NewCluster\<close>, at some time; a call over an end that has been made; a step of the network; and \<open>Shutdown\<close> once \<open>NewCluster\<close> has returned.
\<close>

inductive cluster_step ::
  "(nat \<Rightarrow> 'x Method list) \<Rightarrow> (nat \<Rightarrow> 'x Method list) \<Rightarrow> int \<Rightarrow> 'x gob \<Rightarrow> 'x Cluster \<times> boot list \<Rightarrow> 'x Cluster \<times> boot list \<Rightarrow> bool" for K R ms G where
  boot: "bootStep K R now ms op c = Some c' \<Longrightarrow> cluster_step K R ms G (c, op # ops) (c', ops)"
| call: "ends (rpcNet (clNet c)) en = Some e \<Longrightarrow> callBegin G e svcMeth argsType args (clNet c) = Some s \<Longrightarrow>
    cluster_step K R ms G (c, ops) (c\<lparr>clNet := s\<rparr>, ops)"
| carry: "carry_step G (clNet c) s \<Longrightarrow> cluster_step K R ms G (c, ops) (c\<lparr>clNet := s\<rparr>, ops)"
| shutdown: "Shutdown c = Some (stopped, c') \<Longrightarrow> cluster_step K R ms G (c, []) (c', [])"

section \<open>Names of ends\<close>

lemma showNat_no_dash: "CHR ''-'' \<notin> set (showNat n)"
  using showNat_chars [of "CHR ''-''" n] by auto

lemma split_at_unique: "xs @ c # ys = xs' @ c # ys' \<Longrightarrow> c \<notin> set xs \<Longrightarrow> c \<notin> set xs' \<Longrightarrow> xs = xs' \<and> ys = ys'"
proof (induction xs arbitrary: xs')
  case Nil
  then show ?case by (cases xs') auto
next
  case (Cons x xs)
  then show ?case by (cases xs') auto
qed

lemma endName_inject [simp]: "endName i j = endName i' j' \<longleftrightarrow> i = i' \<and> j = j'"
proof
  assume "endName i j = endName i' j'"
  then have "showNat i @ CHR ''-'' # (''to-'' @ showNat j) = showNat i' @ CHR ''-'' # (''to-'' @ showNat j')" by (simp add: endName_def)
  from split_at_unique [OF this showNat_no_dash showNat_no_dash] show "i = i' \<and> j = j'" by (metis append_eq_append_conv readNat_showNat)
qed simp

lemma endName_image [simp]: "endName a b \<in> endName i ` S \<longleftrightarrow> a = i \<and> b \<in> S"
  by auto

section \<open>The wiring\<close>

lemma makeEnds_spec:
  assumes "distinct names" and "\<And>en. en \<in> set names \<Longrightarrow> ends rn en = None"
  shows "\<exists>rn'. makeEnds names j rn = Some rn' \<and>
    ends rn' = (\<lambda>en. if en \<in> set names then Some \<lparr>endname = en\<rparr> else ends rn en) \<and>
    (\<forall>k < length names. connections rn' (names ! k) = Some (int (j + k))) \<and> (\<forall>en. en \<notin> set names \<longrightarrow> connections rn' en = connections rn en) \<and>
    servers rn' = servers rn \<and> reliable rn' = reliable rn \<and> longReordering rn' = longReordering rn \<and> netDone rn' = netDone rn"
  using assms
proof (induction names arbitrary: j rn)
  case (Cons en names)
  let ?rn = "Connect en (int j) (rn\<lparr>ends := (ends rn)(en \<mapsto> \<lparr>endname = en\<rparr>), enabled := (enabled rn)(en := False), connections := (connections rn)(en := None)\<rparr>)"
  have sel: "ends ?rn = (ends rn)(en \<mapsto> \<lparr>endname = en\<rparr>)" "connections ?rn = (connections rn)(en \<mapsto> int j)" "servers ?rn = servers rn"
      "reliable ?rn = reliable rn" "longReordering ?rn = longReordering rn" "netDone ?rn = netDone rn"
    by (simp_all add: Connect_def)
  have "makeEnds (en # names) j rn = makeEnds names (j + 1) ?rn" using Cons.prems(2) [of en] by (simp add: MakeEnd_def Let_def)
  moreover have "\<And>e. e \<in> set names \<Longrightarrow> ends ?rn e = None" using Cons.prems unfolding sel by auto
  note ih = Cons.IH [OF _ this, of "j + 1", unfolded sel(3-)]
  have "distinct names" using Cons.prems(1) by simp
  from ih [OF this] obtain rn' where rn': "makeEnds names (j + 1) ?rn = Some rn'"
      "ends rn' = (\<lambda>e. if e \<in> set names then Some \<lparr>endname = e\<rparr> else ends ?rn e)"
      "\<And>k. k < length names \<Longrightarrow> connections rn' (names ! k) = Some (int (j + 1 + k))" "\<And>e. e \<notin> set names \<Longrightarrow> connections rn' e = connections ?rn e"
      "servers rn' = servers rn" "reliable rn' = reliable rn" "longReordering rn' = longReordering rn" "netDone rn' = netDone rn"
    by blast
  moreover have "connections rn' ((en # names) ! k) = Some (int (j + k))" if "k < length (en # names)" for k
    using that rn'(3) rn'(4) [of en] Cons.prems(1) sel(2) by (cases k) auto
  moreover have "ends rn' = (\<lambda>e. if e \<in> set (en # names) then Some \<lparr>endname = e\<rparr> else ends rn e)"
    unfolding rn'(2) sel using Cons.prems(1) by (auto simp: fun_eq_iff)
  moreover have "connections rn' e = connections rn e" if "e \<notin> set (en # names)" for e
    using that rn'(4) [of e] sel(2) by simp
  ultimately show ?case by auto
qed simp

text \<open>The cluster when the servers below \<open>i\<close> have been started.\<close>

definition servicesOf :: "(nat \<Rightarrow> 'x Method list) \<Rightarrow> (nat \<Rightarrow> 'x Method list) \<Rightarrow> nat \<Rightarrow> string \<rightharpoonup> 'x Service" where
  "servicesOf K R k = [''KVServer'' \<mapsto> MakeService ''KVServer'' (K k), ''Raft'' \<mapsto> MakeService ''Raft'' (R k)]"

definition started :: "(nat \<Rightarrow> 'x Method list) \<Rightarrow> (nat \<Rightarrow> 'x Method list) \<Rightarrow> nat \<Rightarrow> nat \<Rightarrow> 'x Cluster \<Rightarrow> bool" where
  "started K R n i c \<longleftrightarrow>
     clN c = n \<and> clNames c = map (\<lambda>i. map (endName i) [0..<n]) [0..<n] \<and> length (clHttpAddrs c) = n \<and> length (clKv c) = n \<and>
     rpcLoop (clNet c) \<and> rpcCalls (clNet c) = [] \<and>
     reliable (rpcNet (clNet c)) \<and> \<not> longReordering (rpcNet (clNet c)) \<and> \<not> netDone (rpcNet (clNet c)) \<and>
     length (rpcServers (clNet c)) = i \<and> (\<forall>k < i. rpcServers (clNet c) ! k = \<lparr>services = servicesOf K R k, svrCount = 0\<rparr>) \<and>
     servers (rpcNet (clNet c)) = (\<lambda>sn. if 0 \<le> sn \<and> sn < int i then Some (nat sn) else None) \<and>
     ends (rpcNet (clNet c)) = (\<lambda>en. if \<exists>a < i. \<exists>b < n. en = endName a b then Some \<lparr>endname = en\<rparr> else None) \<and>
     (\<forall>a < i. \<forall>b < n. connections (rpcNet (clNet c)) (endName a b) = Some (int b))"

lemma started_empty: "length addrs = n \<Longrightarrow> started K R n 0 (emptyCluster n addrs)"
  by (auto simp: started_def emptyCluster_def startNetwork_def MakeNetwork_def fun_eq_iff)

lemma startServer_started:
  assumes c: "started K R n i c" and i: "i < n"
  shows "\<exists>c'. startServer K R now i ms c = Some (None, c') \<and> started K R n (Suc i) c'"
proof -
  let ?names = "map (endName i) [0..<n]" and ?rn = "rpcNet (clNet c)"
  have "distinct ?names" by (simp add: distinct_map inj_on_def)
  moreover have "\<And>en. en \<in> set ?names \<Longrightarrow> ends ?rn en = None" using c by (auto simp: started_def)
  ultimately obtain rn where rn: "makeEnds ?names 0 ?rn = Some rn"
      "ends rn = (\<lambda>en. if en \<in> set ?names then Some \<lparr>endname = en\<rparr> else ends ?rn en)"
      "\<forall>k < n. connections rn (endName i k) = Some (int k)" "\<And>en. en \<notin> set ?names \<Longrightarrow> connections rn en = connections ?rn en"
      "servers rn = servers ?rn" "reliable rn = reliable ?rn" "longReordering rn = longReordering ?rn" "netDone rn = netDone ?rn"
    using makeEnds_spec [of ?names ?rn 0] by auto
  have names: "clNames c ! i = ?names" using c i by (simp add: started_def)
  have "\<exists>a. idx (clHttpAddrs c) (int i) = Some a" using c i by (simp add: started_def idx_def)
  then obtain c' where c': "startServer K R now i ms c = Some (None, c')"
      "clNet c' = (clNet c)\<lparr>rpcNet := AddServer (int i) (length (rpcServers (clNet c))) rn,
         rpcServers := rpcServers (clNet c) @ [AddService (MakeService ''Raft'' (R i)) (AddService (MakeService ''KVServer'' (K i)) MakeServer)]\<rparr>"
      "clN c' = clN c" "clNames c' = clNames c" "clHttpAddrs c' = clHttpAddrs c" "length (clKv c') = length (clKv c)"
    unfolding startServer_def names rn(1) by (auto simp: Let_def)
  have srv: "AddService (MakeService ''Raft'' (R i)) (AddService (MakeService ''KVServer'' (K i)) MakeServer) = \<lparr>services = servicesOf K R i, svrCount = 0\<rparr>"
    by (simp add: AddService_def MakeServer_def MakeService_def servicesOf_def)
  have "connections rn (endName a b) = Some (int b)" if "a < Suc i" "b < n" for a b
    using that rn(3) rn(4) [of "endName a b"] c by (cases "a = i") (auto simp: started_def)
  moreover have "ends rn = (\<lambda>en. if \<exists>a < Suc i. \<exists>b < n. en = endName a b then Some \<lparr>endname = en\<rparr> else None)"
    unfolding rn(2) using c by (fastforce simp: started_def fun_eq_iff less_Suc_eq)
  ultimately have "started K R n (Suc i) c'"
    using c rn(5-8) c'(3-) unfolding started_def c'(2) srv
    by (auto simp: AddServer_def nth_append less_Suc_eq fun_eq_iff)
  then show ?thesis using c'(1) by blast
qed

lemma startAll_started:
  "started K R n i c \<Longrightarrow> i \<le> n \<Longrightarrow> \<exists>c'. startAll K R now [i..<n] ms c = Some (Inr c') \<and> started K R n n c'"
proof (induction "n - i" arbitrary: i c)
  case (Suc d)
  then have i: "i < n" by simp
  obtain c1 where c1: "startServer K R now i ms c = Some (None, c1)" "started K R n (Suc i) c1"
    using startServer_started [OF Suc.prems(1) i] by blast
  then show ?case using Suc.hyps(1) [of "Suc i" c1] Suc.hyps(2) i by (simp add: upt_conv_Cons)
qed simp

text \<open>All ends are enabled and connected, all servers are there.\<close>

definition wired :: "(nat \<Rightarrow> 'x Method list) \<Rightarrow> (nat \<Rightarrow> 'x Method list) \<Rightarrow> nat \<Rightarrow> 'x rpc \<Rightarrow> bool" where
  "wired K R n s \<longleftrightarrow>
     reliable (rpcNet s) \<and>
     length (rpcServers s) = n \<and> (\<forall>k < n. services (rpcServers s ! k) = servicesOf K R k) \<and>
     servers (rpcNet s) = (\<lambda>sn. if 0 \<le> sn \<and> sn < int n then Some (nat sn) else None) \<and>
     (\<forall>en e. ends (rpcNet s) en = Some e \<longrightarrow> (\<exists>a < n. \<exists>b < n. endname e = endName a b)) \<and>
     (\<forall>a < n. \<forall>b < n. ends (rpcNet s) (endName a b) = Some \<lparr>endname = endName a b\<rparr> \<and>
        connections (rpcNet s) (endName a b) = Some (int b) \<and> enabled (rpcNet s) (endName a b))"

lemma enableAll_sel: "servers (enableAll es rn) = servers rn" "ends (enableAll es rn) = ends rn" "connections (enableAll es rn) = connections rn"
  "reliable (enableAll es rn) = reliable rn" "netDone (enableAll es rn) = netDone rn"
  by (induction es arbitrary: rn; simp add: enableAll_def Enable_def split_beta)+

lemma enableAll_enabled: "\<forall>p \<in> set es. snd p \<Longrightarrow> en \<in> fst ` set es \<or> enabled rn en \<Longrightarrow> enabled (enableAll es rn) en"
proof (induction es arbitrary: rn)
  case (Cons p es)
  have "enableAll (p # es) rn = enableAll es (Enable (fst p) True rn)" using Cons.prems(1) by (cases p) (simp add: enableAll_def)
  then show ?case using Cons.prems Cons.IH [of "Enable (fst p) True rn"] by (auto simp: Enable_def)
qed (simp add: enableAll_def)

lemma connectAll_enabled:
  assumes c: "started K R n n c" and ab: "a < n" "b < n"
  shows "enabled (rpcNet (clNet (connectAll c))) (endName a b)"
proof -
  define row where "row i = concat (map (\<lambda>j. [(clNames c ! i ! j, True), (clNames c ! j ! i, True)]) [0..<n])" for i
  define es where "es = concat (map row [0..<n])"
  have c': "rpcNet (clNet (connectAll c)) = enableAll es (rpcNet (clNet c))"
    using c by (simp add: connectAll_def es_def row_def [abs_def] started_def)
  have "clNames c ! a ! b = endName a b" using c ab by (simp add: started_def)
  then have "(endName a b, True) \<in> set (row a)" using ab(2) by (auto simp: row_def intro!: bexI [of _ b])
  then have "(endName a b, True) \<in> set es" using ab(1) by (auto simp: es_def intro!: bexI [of _ a])
  then have "endName a b \<in> fst ` set es" by force
  moreover have "\<forall>p \<in> set es. snd p" by (auto simp: es_def row_def)
  ultimately show ?thesis unfolding c' by (intro enableAll_enabled) simp_all
qed

lemma connectAll_sel:
  "rpcLoop (clNet (connectAll c)) = rpcLoop (clNet c)" "rpcCalls (clNet (connectAll c)) = rpcCalls (clNet c)"
  "rpcServers (clNet (connectAll c)) = rpcServers (clNet c)" "clN (connectAll c) = clN c" "clKv (connectAll c) = clKv c"
  "servers (rpcNet (clNet (connectAll c))) = servers (rpcNet (clNet c))" "ends (rpcNet (clNet (connectAll c))) = ends (rpcNet (clNet c))"
  "connections (rpcNet (clNet (connectAll c))) = connections (rpcNet (clNet c))"
  "reliable (rpcNet (clNet (connectAll c))) = reliable (rpcNet (clNet c))" "netDone (rpcNet (clNet (connectAll c))) = netDone (rpcNet (clNet c))"
  by (simp_all add: connectAll_def enableAll_sel Let_def)

lemma NewCluster_wired:
  assumes "length addrs = n"
  obtains c where "NewCluster K R now (int n) addrs ms = Some (Inr c)" "wired K R n (clNet c)" "rpcCalls (clNet c) = []"
    "\<not> netDone (rpcNet (clNet c))"
proof -
  obtain c where c: "startAll K R now [0..<n] ms (emptyCluster n addrs) = Some (Inr c)" "started K R n n c"
    using startAll_started [OF started_empty [OF assms], of K R now ms] by auto
  have "wired K R n (clNet (connectAll c))"
    using c(2) connectAll_enabled [OF c(2)] unfolding wired_def started_def connectAll_sel by (auto split: if_splits)
  moreover have "NewCluster K R now (int n) addrs ms = Some (Inr (connectAll c))" using assms c(1) by (simp add: NewCluster_def)
  moreover have "rpcCalls (clNet (connectAll c)) = []" "\<not> netDone (rpcNet (clNet (connectAll c)))"
    using c(2) unfolding connectAll_sel by (simp_all add: started_def)
  ultimately show ?thesis using that by blast
qed

section \<open>Start-up that nothing interrupts\<close>

lemma runBoot_append: "runBoot K R now ms (xs @ ys) c = do { c \<leftarrow> runBoot K R now ms xs c; runBoot K R now ms ys c }"
  by (induction xs arbitrary: c) (auto split: bind_splits)

lemma runBoot_ends:
  "\<forall>j \<in> set js. clNames c ! i ! j = f j \<Longrightarrow> js = [a..<b] \<Longrightarrow>
   runBoot K R now ms (endOps i js) c = map_option (\<lambda>rn. setNet rn c) (makeEnds (map f js) a (rpcNet (clNet c)))"
proof (induction js arbitrary: a c)
  case (Cons j js)
  have a: "j = a" "js = [Suc a..<b]" using iffD1 [OF upt_eq_Cons_conv Cons.prems(2) [symmetric]] by auto
  show ?case
  proof (cases "MakeEnd (f a) (rpcNet (clNet c))")
    case None
    then show ?thesis using Cons.prems(1) a by (simp add: endOps_def)
  next
    case (Some p)
    let ?c = "setNet (Connect (f a) (int a) (snd p)) c"
    have "runBoot K R now ms (endOps i (j # js)) c = runBoot K R now ms (endOps i js) ?c"
      using Some Cons.prems(1) a(1) by (simp add: endOps_def split_beta)
    also have "\<dots> = map_option (\<lambda>rn. setNet rn ?c) (makeEnds (map f js) (Suc a) (rpcNet (clNet ?c)))"
      by (rule Cons.IH) (use Cons.prems(1) a in auto)
    finally show ?thesis using Some a(1) by (simp add: split_beta option.map_comp comp_def)
  qed
qed (simp add: endOps_def)

lemma runBoot_server:
  assumes "clN c = n" and "clNames c ! i = map (endName i) [0..<n]"
  shows "startServer K R now i ms c = map_option (\<lambda>c. (None, c)) (runBoot K R now ms (serverOps n i) c)"
proof -
  have "runBoot K R now ms (endOps i [0..<n]) c = map_option (\<lambda>rn. setNet rn c) (makeEnds (map (endName i) [0..<n]) 0 (rpcNet (clNet c)))"
    by (rule runBoot_ends) (use assms in auto)
  then show ?thesis
    using assms by (auto simp: startServer_def serverOps_def runBoot_append Let_def split: bind_splits option.splits)
qed

lemma startServer_names: "startServer K R now i ms c = Some (e, c') \<Longrightarrow> clN c' = clN c \<and> clNames c' = clNames c \<and> e = None"
  by (auto simp: startServer_def bind_Some_iff Let_def)

lemma runBoot_servers:
  assumes "clN c = n" and "clNames c = map (\<lambda>i. map (endName i) [0..<n]) [0..<n]" and "\<forall>i \<in> set is. i < n"
  shows "startAll K R now is ms c = map_option Inr (runBoot K R now ms (concat (map (serverOps n) is)) c)"
  using assms
proof (induction "is" arbitrary: c)
  case (Cons i "is")
  have s: "startServer K R now i ms c = map_option (\<lambda>c. (None, c)) (runBoot K R now ms (serverOps n i) c)"
    by (rule runBoot_server) (use Cons.prems in simp_all)
  show ?case
  proof (cases "runBoot K R now ms (serverOps n i) c")
    case None
    then show ?thesis using s by (simp add: runBoot_append)
  next
    case (Some c1)
    then have "clN c1 = n" "clNames c1 = map (\<lambda>i. map (endName i) [0..<n]) [0..<n]"
      using s startServer_names [of K R now i ms c None c1] Cons.prems(1,2) by simp_all
    then show ?thesis using s Some Cons.IH [of c1] Cons.prems(3) by (simp add: runBoot_append)
  qed
qed simp

lemma runBoot_enables:
  "runBoot K R now ms (map (\<lambda>(i, j). BootEnable i j) ps) c =
   Some (setNet (enableAll (map (\<lambda>(i, j). (clNames c ! i ! j, True)) ps) (rpcNet (clNet c))) c)"
  by (induction ps arbitrary: c) (auto simp: enableAll_def)

lemma runBoot_connect: "clN c = n \<Longrightarrow> runBoot K R now ms (enableOps n) c = Some (connectAll c)"
proof -
  define ps where "ps = concat (map (\<lambda>i. concat (map (\<lambda>j. [(i, j), (j, i)]) [0..<n])) [0..<n])"
  assume "clN c = n"
  moreover have "enableOps n = map (\<lambda>(i, j). BootEnable i j) ps" by (simp add: enableOps_def ps_def map_concat comp_def)
  ultimately show ?thesis using runBoot_enables [of K R now ms ps c] by (simp add: connectAll_def ps_def map_concat comp_def)
qed

text \<open>\<open>NewCluster\<close> is its operations, one after another.\<close>

lemma NewCluster_boot:
  assumes "length addrs = n" and "NewCluster K R now (int n) addrs ms = Some (Inr c)"
  shows "runBoot K R now ms (bootOps n) (emptyCluster n addrs) = Some c"
proof -
  have s: "startAll K R now [0..<n] ms (emptyCluster n addrs) =
      map_option Inr (runBoot K R now ms (concat (map (serverOps n) [0..<n])) (emptyCluster n addrs))"
    by (rule runBoot_servers) (simp_all add: emptyCluster_def)
  obtain c1 where c1: "startAll K R now [0..<n] ms (emptyCluster n addrs) = Some (Inr c1)" "c = connectAll c1"
    using startAll_started [OF started_empty [OF assms(1)], of K R now ms] assms by (auto simp: NewCluster_def)
  have "started K R n n c1" using startAll_started [OF started_empty [OF assms(1)], of K R now ms] c1(1) by auto
  then have "clN c1 = n" by (simp add: started_def)
  moreover have "runBoot K R now ms (concat (map (serverOps n) [0..<n])) (emptyCluster n addrs) = Some c1"
    using trans [OF s [symmetric] c1(1)] by simp
  ultimately show ?thesis using c1(2) by (simp add: bootOps_def runBoot_append runBoot_connect)
qed

section \<open>Calls do not disturb the start-up\<close>

text \<open>What is left of a cluster without the calls, the counters and the clocks: the part that \<open>NewCluster\<close> builds.\<close>

definition quietNet :: "'x rpc \<Rightarrow> 'x rpc" where
  "quietNet s = \<lparr>rpcNet = (rpcNet s)\<lparr>netCount := 0, netBytes := 0\<rparr>, rpcLoop = True, rpcServers = map (\<lambda>rs. rs\<lparr>svrCount := 0\<rparr>) (rpcServers s), rpcCalls = []\<rparr>"

definition quiet :: "'x Cluster \<Rightarrow> 'x Cluster" where
  "quiet c = c\<lparr>clNet := quietNet (clNet c), clKv := []\<rparr>"

lemma quietNet_sel [simp]:
  "ends (rpcNet (quietNet s)) = ends (rpcNet s)" "enabled (rpcNet (quietNet s)) = enabled (rpcNet s)" "servers (rpcNet (quietNet s)) = servers (rpcNet s)"
  "connections (rpcNet (quietNet s)) = connections (rpcNet s)" "reliable (rpcNet (quietNet s)) = reliable (rpcNet s)" "netDone (rpcNet (quietNet s)) = netDone (rpcNet s)"
  "length (rpcServers (quietNet s)) = length (rpcServers s)"
  by (simp_all add: quietNet_def)

lemma quietNet_setCall [simp]: "quietNet (setCall h ph hdl s) = quietNet s"
  by (simp add: quietNet_def)

lemma svrCount_cong: "services rs = services rs' \<Longrightarrow> rs\<lparr>svrCount := x\<rparr> = (rs' :: 'x Server)\<lparr>svrCount := x\<rparr>"
  by (cases rs; cases rs') simp

lemma quietNet_carry: "carry_step G s s' \<Longrightarrow> quietNet s' = quietNet s"
proof (induction rule: carry_step.induct)
  case (lookup h s)
  then show ?case by (cases h s rule: lookupReq_cases) simp_all
next
  case (enter h s k s')
  obtain rs m a where "s' = setCall h (phaseOf s h) (HandlerRunning k m a) (s\<lparr>rpcServers := (rpcServers s)[k := rs]\<rparr>)"
      "services rs = services (rpcServers s ! k)" using enter.hyps(3) by (rule enterServer_finds)
  moreover have "map (\<lambda>rs. rs\<lparr>svrCount := 0\<rparr>) ((rpcServers s)[k := rs]) = map (\<lambda>rs. rs\<lparr>svrCount := 0\<rparr>) (rpcServers s)"
  proof (cases "k < length (rpcServers s)")
    case True
    then show ?thesis using calculation(2) svrCount_cong [of rs "rpcServers s ! k"] by (simp add: map_update list_update_same_conv)
  qed (simp add: list_update_beyond)
  ultimately show ?case by (simp add: quietNet_def)
qed (simp_all add: quietNet_def acceptReq_def)

lemma quietNet_call: "callBegin G e svcMeth argsType args s = Some s' \<Longrightarrow> quietNet s' = quietNet s"
  by (auto simp: callBegin_def bind_Some_iff quietNet_def Let_def)

lemma bootStep_quiet: "bootStep K R now' ms op c = Some c' \<Longrightarrow> bootStep K R now ms op (quiet c) = Some (quiet c')"
  by (cases op) (auto simp: quiet_def quietNet_def MakeEnd_def Connect_def AddServer_def Enable_def AddService_def MakeServer_def Let_def
      bind_Some_iff split: if_splits)

lemma runBoot_quiet: "runBoot K R now' ms ops c = Some c' \<Longrightarrow> runBoot K R now ms ops (quiet c) = Some (quiet c')"
  by (induction ops arbitrary: c) (auto simp: bind_Some_iff bootStep_quiet)

lemma wired_quiet: "wired K R n (quietNet s) = wired K R n s"
proof -
  have "services (rpcServers (quietNet s) ! k) = services (rpcServers s ! k)" if "k < length (rpcServers s)" for k using that by (simp add: quietNet_def)
  then show ?thesis by (auto simp: wired_def)
qed

lemma wired_cong: "quietNet s' = quietNet s \<Longrightarrow> wired K R n s' = wired K R n s"
  using wired_quiet by metis

lemma wired_shutdown: "Shutdown c = Some (stopped, c') \<Longrightarrow> wired K R n (clNet c') = wired K R n (clNet c)"
  by (auto simp: Shutdown_def Cleanup_def bind_Some_iff wired_def Let_def split: if_splits)

text \<open>The operations that have run have built what they build when nothing interrupts them; after the last one the wiring stays.\<close>

definition bootOk :: "(nat \<Rightarrow> 'x Method list) \<Rightarrow> (nat \<Rightarrow> 'x Method list) \<Rightarrow> int \<Rightarrow> nat \<Rightarrow> string list \<Rightarrow> 'x Cluster \<times> boot list \<Rightarrow> bool" where
  "bootOk K R ms n addrs x \<longleftrightarrow>
     (\<exists>ops. ops @ snd x = bootOps n \<and> runBoot K R 0 ms ops (quiet (emptyCluster n addrs)) = Some (quiet (fst x))) \<or> (snd x = [] \<and> wired K R n (clNet (fst x)))"

lemma boot_finished:
  assumes "length addrs = n" and "bootOk K R ms n addrs (c, [])"
  shows "wired K R n (clNet c)"
proof -
  obtain c0 where c0: "NewCluster K R 0 (int n) addrs ms = Some (Inr c0)" "wired K R n (clNet c0)"
    by (rule NewCluster_wired [OF assms(1), of K R 0 ms])
  have "runBoot K R 0 ms (bootOps n) (quiet (emptyCluster n addrs)) = Some (quiet c0)"
    by (rule runBoot_quiet [OF NewCluster_boot [OF assms(1) c0(1)]])
  then have "quiet c = quiet c0 \<or> wired K R n (clNet c)" using assms(2) by (auto simp: bootOk_def)
  moreover have "clNet (quiet c) = quietNet (clNet c)" for c :: "'a Cluster" by (simp add: quiet_def)
  ultimately show ?thesis using c0(2) wired_cong by metis
qed

lemma bootStep_unquiet: "bootStep K R now ms op (quiet c) \<noteq> None \<Longrightarrow> bootStep K R now' ms op c \<noteq> None"
  by (cases op) (auto simp: quiet_def quietNet_def MakeEnd_def Let_def split: if_splits bind_splits)

text \<open>No operation of the start-up panics, whatever calls come in between.\<close>

lemma boot_never_panics:
  assumes "length addrs = n" and "bootOk K R ms n addrs (c, op # ops)"
  shows "bootStep K R now ms op c \<noteq> None"
proof -
  obtain ops' where ops': "ops' @ op # ops = bootOps n" "runBoot K R 0 ms ops' (quiet (emptyCluster n addrs)) = Some (quiet c)"
    using assms(2) by (auto simp: bootOk_def)
  obtain c0 where "NewCluster K R 0 (int n) addrs ms = Some (Inr c0)" by (rule NewCluster_wired [OF assms(1), of K R 0 ms])
  then have "runBoot K R 0 ms (ops' @ op # ops) (quiet (emptyCluster n addrs)) = Some (quiet c0)"
    using runBoot_quiet [OF NewCluster_boot [OF assms(1)]] ops'(1) by simp
  then have "bootStep K R 0 ms op (quiet c) \<noteq> None" using ops'(2) by (auto simp: runBoot_append bind_Some_iff)
  then show ?thesis by (rule bootStep_unquiet)
qed

lemma bootOk_step:
  assumes "length addrs = n" and "cluster_step K R ms G x y" and "bootOk K R ms n addrs x"
  shows "bootOk K R ms n addrs y"
  using assms(2,3)
proof (induction rule: cluster_step.induct)
  case (boot now op c c' ops)
  then obtain ops' where "ops' @ op # ops = bootOps n" "runBoot K R 0 ms ops' (quiet (emptyCluster n addrs)) = Some (quiet c)"
    by (auto simp: bootOk_def)
  then have "runBoot K R 0 ms (ops' @ [op]) (quiet (emptyCluster n addrs)) = Some (quiet c')"
    using bootStep_quiet [OF boot.hyps, of 0] by (simp add: runBoot_append)
  then show ?case using \<open>ops' @ op # ops = bootOps n\<close> unfolding bootOk_def by (intro disjI1 exI [of _ "ops' @ [op]"]) simp
next
  case (call c en e svcMeth argsType args s ops)
  note q = quietNet_call [OF call.hyps(2)]
  show ?case using call.prems q wired_cong [OF q, of K R n] by (simp add: bootOk_def quiet_def)
next
  case (carry c s ops)
  note q = quietNet_carry [OF carry.hyps]
  show ?case using carry.prems q wired_cong [OF q, of K R n] by (simp add: bootOk_def quiet_def)
next
  case (shutdown c stopped c')
  then show ?case using boot_finished [OF assms(1) shutdown.prems] wired_shutdown [OF shutdown.hyps] by (simp add: bootOk_def)
qed

lemma bootOk_reach:
  assumes "length addrs = n" and "(cluster_step K R ms G)\<^sup>*\<^sup>* (emptyCluster n addrs, bootOps n) x"
  shows "bootOk K R ms n addrs x"
  using assms(2)
proof (induction rule: rtranclp_induct)
  case base
  show ?case unfolding bootOk_def by (intro disjI1 exI [of _ "[]"]) simp
qed (rule bootOk_step [OF assms(1)])

text \<open>The operations of a cluster on its network are steps of the network.\<close>

lemma serve_steps:
  "(rpc_step G)\<^sup>*\<^sup>* s (s\<lparr>rpcNet := AddServer sn (length (rpcServers s)) (rpcNet s), rpcServers := rpcServers s @ [AddService svc2 (AddService svc1 MakeServer)]\<rparr>)"
proof -
  let ?k = "length (rpcServers s)"
  let ?s1 = "s\<lparr>rpcServers := rpcServers s @ [MakeServer]\<rparr>"
  let ?s2 = "?s1\<lparr>rpcServers := (rpcServers ?s1)[?k := AddService svc1 (rpcServers ?s1 ! ?k)]\<rparr>"
  let ?s3 = "?s2\<lparr>rpcServers := (rpcServers ?s2)[?k := AddService svc2 (rpcServers ?s2 ! ?k)]\<rparr>"
  let ?s4 = "?s3\<lparr>rpcNet := AddServer sn ?k (rpcNet ?s3)\<rparr>"
  have "rpc_step G s ?s1" by (rule rpc_step.make_server)
  moreover have "rpc_step G ?s1 ?s2" by (rule rpc_step.add_service) simp
  moreover have "rpc_step G ?s2 ?s3" by (rule rpc_step.add_service) simp
  moreover have "rpc_step G ?s3 ?s4" by (rule rpc_step.config, rule net_op.op_add) simp
  ultimately have "(rpc_step G)\<^sup>*\<^sup>* s ?s4" by (meson rtranclp.rtrancl_into_rtrancl rtranclp.rtrancl_refl)
  moreover have "?s4 = s\<lparr>rpcNet := AddServer sn ?k (rpcNet s), rpcServers := rpcServers s @ [AddService svc2 (AddService svc1 MakeServer)]\<rparr>" by (cases s) simp
  ultimately show ?thesis by (rule back_subst)
qed

lemma bootStep_rpc:
  assumes "bootStep K R now ms op c = Some c'"
  shows "(rpc_step G)\<^sup>*\<^sup>* (clNet c) (clNet c')"
proof -
  have config: "(rpc_step G)\<^sup>*\<^sup>* s (s\<lparr>rpcNet := rn\<rparr>)" if "net_op (length (rpcServers s)) (rpcNet s) rn" for s rn
    using rpc_step.config [OF that] by blast
  show ?thesis
  proof (cases op)
    case (BootEnd i j)
    then show ?thesis using assms by (auto simp: bind_Some_iff intro!: config intro: net_op.op_end)
  next
    case (BootServe i)
    then show ?thesis using assms serve_steps [of G "clNet c"] by (auto simp: Let_def)
  qed (use assms in \<open>auto simp: bind_Some_iff Let_def intro!: config intro: net_op.op_connect net_op.op_enable\<close>)
qed

lemma cluster_step_rpc: "cluster_step K R ms G x y \<Longrightarrow> (rpc_step G)\<^sup>*\<^sup>* (clNet (fst x)) (clNet (fst y))"
proof (induction rule: cluster_step.induct)
  case (shutdown c stopped c')
  then obtain rn where "Cleanup (rpcNet (clNet c)) = Some rn" "clNet c' = (clNet c)\<lparr>rpcNet := rn\<rparr>" by (auto simp: Shutdown_def bind_Some_iff Let_def)
  then show ?case using rpc_step.config [OF net_op.op_cleanup] by fastforce
qed (auto simp: bootStep_rpc intro: rpc_step.carry rpc_step.call)

lemma cluster_steps_rpc: "(cluster_step K R ms G)\<^sup>*\<^sup>* x y \<Longrightarrow> (rpc_step G)\<^sup>*\<^sup>* (clNet (fst x)) (clNet (fst y))"
  by (induction rule: rtranclp_induct) (auto intro: rtranclp_trans cluster_step_rpc)

lemma cluster_rpcInv:
  assumes "gobOk G" and "(cluster_step K R ms G)\<^sup>*\<^sup>* (emptyCluster n addrs, ops) x"
  shows "rpcInv G (clNet (fst x))"
  using rpcInv_reach [OF _ assms(1)] cluster_steps_rpc [OF assms(2)] by (simp add: emptyCluster_def)

lemma runBoot_steps: "runBoot K R now ms ops c = Some c' \<Longrightarrow> (cluster_step K R ms G)\<^sup>*\<^sup>* (c, ops @ rest) (c', rest)"
  by (induction ops arbitrary: c) (auto simp: bind_Some_iff intro: converse_rtranclp_into_rtranclp cluster_step.boot)

section \<open>Calls between the peers\<close>

text \<open>A call to peer \<open>j\<close> on its way, with nothing lost; once the network is closed it may have been turned away.\<close>

definition onItsWay :: "nat \<Rightarrow> bool \<Rightarrow> 'x rpc_phase \<Rightarrow> bool" where
  "onItsWay j closed ph = (case ph of
     CallSending \<Rightarrow> True
   | CallAccepted \<Rightarrow> True
   | CallBound b \<Rightarrow> bdServername b = int j \<and> bdServer b = j \<and> bdReliable b
   | CallAwaiting b \<Rightarrow> bdServername b = int j \<and> bdServer b = j \<and> bdReliable b
   | CallGot b r \<Rightarrow> bdServername b = int j \<and> bdServer b = j \<and> bdReliable b \<and> rpOk r
   | CallGaveUp \<Rightarrow> False
   | CallDelivering r \<Rightarrow> rpOk r
   | CallAnswering r \<Rightarrow> rpOk r
   | CallReturned x \<Rightarrow> x \<noteq> None \<or> closed)"

definition callFine :: "(nat \<Rightarrow> 'x Method list) \<Rightarrow> (nat \<Rightarrow> 'x Method list) \<Rightarrow> nat \<Rightarrow> bool \<Rightarrow> reqMsg \<Rightarrow> 'x rpc_phase \<Rightarrow> 'x rpc_handler \<Rightarrow> bool" where
  "callFine K R n closed req ph hdl \<longleftrightarrow>
     (\<exists>i < n. \<exists>j < n. rqEndname req = endName i j \<and> onItsWay j closed ph \<and> (handlerAt hdl = None \<or> handlerAt hdl = Some j) \<and>
        (\<forall>m. methodOf hdl = Some m \<longrightarrow> finds (servicesOf K R j) (rqSvcMeth req) m))"

text \<open>The calls from number \<open>N\<close> on, those made after the start-up, are fine.\<close>

definition clusterInv :: "(nat \<Rightarrow> 'x Method list) \<Rightarrow> (nat \<Rightarrow> 'x Method list) \<Rightarrow> nat \<Rightarrow> nat \<Rightarrow> 'x rpc \<Rightarrow> bool" where
  "clusterInv K R n N s \<longleftrightarrow> wired K R n s \<and>
     (\<forall>h < length (rpcCalls s). N \<le> h \<longrightarrow> callFine K R n (netDone (rpcNet s)) (clReq (rpcCalls s ! h)) (phaseOf s h) (handlerOf s h))"

lemma clusterInv_fine:
  assumes "clusterInv K R n N s" and "h < length (rpcCalls s)" and "N \<le> h"
  obtains i j where "i < n" "j < n" "rqEndname (clReq (rpcCalls s ! h)) = endName i j" "onItsWay j (netDone (rpcNet s)) (phaseOf s h)"
    "handlerAt (handlerOf s h) = None \<or> handlerAt (handlerOf s h) = Some j"
    "\<And>m. methodOf (handlerOf s h) = Some m \<Longrightarrow> finds (servicesOf K R j) (rqSvcMeth (clReq (rpcCalls s ! h))) m"
  using assms unfolding clusterInv_def callFine_def by blast

lemma wired_D: "wired K R n s \<Longrightarrow> a < n \<Longrightarrow> b < n \<Longrightarrow> connections (rpcNet s) (endName a b) = Some (int b) \<and> enabled (rpcNet s) (endName a b)"
  "wired K R n s \<Longrightarrow> b < n \<Longrightarrow> servers (rpcNet s) (int b) = Some b" "wired K R n s \<Longrightarrow> reliable (rpcNet s)"
  "wired K R n s \<Longrightarrow> b < n \<Longrightarrow> services (rpcServers s ! b) = servicesOf K R b"
  by (simp_all add: wired_def)

lemma clusterInv_cong:
  assumes "clusterInv K R n N s" and "quietNet s' = quietNet s" and "rpcCalls s' = rpcCalls s"
  shows "clusterInv K R n N s'"
proof -
  have "netDone (rpcNet s') = netDone (rpcNet s)" using quietNet_sel(6) [of s'] quietNet_sel(6) [of s] assms(2) by simp
  then show ?thesis using assms(1,3) wired_cong [OF assms(2)] by (simp add: clusterInv_def)
qed

lemma clusterInv_setCall:
  assumes "clusterInv K R n N s" and "h < length (rpcCalls s)"
    and "N \<le> h \<Longrightarrow> callFine K R n (netDone (rpcNet s)) (clReq (rpcCalls s ! h)) ph hdl"
  shows "clusterInv K R n N (setCall h ph hdl s)"
proof -
  have "wired K R n (setCall h ph hdl s)" using assms(1) by (simp add: clusterInv_def wired_cong [OF quietNet_setCall])
  then show ?thesis using assms by (simp add: clusterInv_def setCall_nth)
qed

lemma clusterInv_handler:
  assumes inv: "clusterInv K R n N s" and h: "h < length (rpcCalls s)"
    and ph: "\<And>j. N \<le> h \<Longrightarrow> onItsWay j (netDone (rpcNet s)) (phaseOf s h) \<Longrightarrow> onItsWay j (netDone (rpcNet s)) ph"
    and hdl: "handlerAt hdl = handlerAt (handlerOf s h)" "methodOf hdl = methodOf (handlerOf s h)"
  shows "clusterInv K R n N (setCall h ph hdl s)"
proof (rule clusterInv_setCall [OF inv h])
  assume N: "N \<le> h"
  show "callFine K R n (netDone (rpcNet s)) (clReq (rpcCalls s ! h)) ph hdl"
    by (rule clusterInv_fine [OF inv h N]) (use ph [OF N] hdl in \<open>auto simp: callFine_def\<close>)
qed

lemma clusterInv_goTo:
  assumes "clusterInv K R n N s" and "h < length (rpcCalls s)"
    and "\<And>j. N \<le> h \<Longrightarrow> onItsWay j (netDone (rpcNet s)) (phaseOf s h) \<Longrightarrow> onItsWay j (netDone (rpcNet s)) ph"
  shows "clusterInv K R n N (goTo h ph s)"
  by (rule clusterInv_handler [OF assms]) simp_all

lemma alive:
  assumes inv: "clusterInv K R n N s" and h: "h < length (rpcCalls s)" "N \<le> h" and ph: "phaseOf s h = CallAwaiting b \<or> phaseOf s h = CallGot b r"
  shows "\<not> boundDead h b s"
proof (rule clusterInv_fine [OF inv h])
  fix i j assume ij: "i < n" "j < n" "rqEndname (clReq (rpcCalls s ! h)) = endName i j" "onItsWay j (netDone (rpcNet s)) (phaseOf s h)"
  have w: "wired K R n s" using inv by (simp add: clusterInv_def)
  show ?thesis using wired_D(1) [OF w ij(1,2)] wired_D(2) [OF w ij(2)] ij(3,4) ph by (auto simp: boundDead_def isServerDead_def onItsWay_def)
qed

lemma clusterInv_lookup:
  assumes inv: "clusterInv K R n N s" and h: "h < length (rpcCalls s)"
  shows "clusterInv K R n N (lookupReq h s)"
proof -
  have w: "wired K R n s" using inv by (simp add: clusterInv_def)
  have fine: "onItsWay j (netDone (rpcNet s)) (CallBound b)"
    if "i < n" "j < n" "rqEndname (clReq (rpcCalls s ! h)) = endName i j" "connections (rpcNet s) (rqEndname (clReq (rpcCalls s ! h))) = Some (bdServername b)"
      "servers (rpcNet s) (bdServername b) = Some (bdServer b)" "bdReliable b = reliable (rpcNet s)" for i j b
    using that wired_D(1) [OF w that(1,2)] wired_D(2) [OF w that(2)] wired_D(3) [OF w] by (auto simp: onItsWay_def)
  show ?thesis
  proof (cases h s rule: lookupReq_cases)
    case (1 b)
    have "callFine K R n (netDone (rpcNet s)) (clReq (rpcCalls s ! h)) (CallBound b) (handlerOf s h)" if "N \<le> h"
      by (rule clusterInv_fine [OF inv h that]) (use 1 fine in \<open>auto simp: callFine_def\<close>)
    then show ?thesis unfolding 1(1) by (rule clusterInv_setCall [OF inv h])
  next
    case 2
    have False if "N \<le> h"
      by (rule clusterInv_fine [OF inv h that]) (use 2(2) wired_D(1) [OF w] wired_D(2) [OF w] in fastforce)
    then show ?thesis unfolding 2(1) by (intro clusterInv_goTo [OF inv h]) blast
  qed
qed

lemma clusterInv_enter:
  assumes inv: "clusterInv K R n N s" and h: "h < length (rpcCalls s)" "handlerOf s h = HandlerSpawned k" and e: "enterServer G h k s = Some s'"
  shows "clusterInv K R n N s'"
proof -
  let ?req = "clReq (rpcCalls s ! h)"
  obtain rs m v where s': "s' = setCall h (phaseOf s h) (HandlerRunning k m v) (s\<lparr>rpcServers := (rpcServers s)[k := rs]\<rparr>)"
      and m: "finds (services (rpcServers s ! k)) (rqSvcMeth ?req) m"
    using e by (rule enterServer_finds)
  let ?s = "s\<lparr>rpcServers := (rpcServers s)[k := rs]\<rparr>"
  have w: "wired K R n s" using inv by (simp add: clusterInv_def)
  have "quietNet s' = quietNet s" by (rule quietNet_carry [OF carry_step.enter [OF h e]])
  then have inv': "clusterInv K R n N ?s" by (intro clusterInv_cong [OF inv]) (simp_all add: s')
  have "callFine K R n (netDone (rpcNet ?s)) (clReq (rpcCalls ?s ! h)) (phaseOf s h) (HandlerRunning k m v)" if "N \<le> h"
  proof (rule clusterInv_fine [OF inv h(1) that])
    fix i j assume ij: "i < n" "j < n" "rqEndname ?req = endName i j" "onItsWay j (netDone (rpcNet s)) (phaseOf s h)"
      "handlerAt (handlerOf s h) = None \<or> handlerAt (handlerOf s h) = Some j"
    then have "j = k" using h(2) by (simp add: handlerAt_def)
    then show ?thesis using ij m wired_D(4) [OF w ij(2)] by (auto simp: callFine_def handlerAt_def methodOf_def)
  qed
  then show ?thesis unfolding s' using clusterInv_setCall [OF inv'] h(1) by simp
qed

lemma clusterInv_spawn:
  assumes inv: "clusterInv K R n N s" and h: "h < length (rpcCalls s)" "phaseOf s h = CallBound b"
  shows "clusterInv K R n N (setCall h (CallAwaiting b) (HandlerSpawned (bdServer b)) s)"
proof (rule clusterInv_setCall [OF inv h(1)])
  assume N: "N \<le> h"
  show "callFine K R n (netDone (rpcNet s)) (clReq (rpcCalls s ! h)) (CallAwaiting b) (HandlerSpawned (bdServer b))"
    by (rule clusterInv_fine [OF inv h(1) N]) (use h(2) in \<open>auto simp: callFine_def onItsWay_def handlerAt_def methodOf_def\<close>)
qed

lemma clusterInv_carry: "carry_step G s s' \<Longrightarrow> clusterInv K R n N s \<Longrightarrow> clusterInv K R n N s'"
proof (induction rule: carry_step.induct)
  case (accept h s)
  let ?s = "s\<lparr>rpcNet := (rpcNet s)\<lparr>netCount := netCount (rpcNet s) + 1, netBytes := netBytes (rpcNet s) + of_nat (length (rqArgs (clReq (rpcCalls s ! h))))\<rparr>\<rparr>"
  have "clusterInv K R n N ?s" by (rule clusterInv_cong [OF accept.prems]) (simp_all add: quietNet_def)
  from clusterInv_goTo [OF this, of h CallAccepted] accept.hyps show ?case by (simp add: acceptReq_def onItsWay_def)
next
  case (loop_ends s)
  show ?case by (rule clusterInv_cong [OF loop_ends.prems]) (simp_all add: quietNet_def)
next
  case (lookup h s)
  then show ?case by (simp add: clusterInv_lookup)
next
  case (spawn h s b)
  then show ?case by (simp add: clusterInv_spawn)
next
  case (enter h s k s')
  then show ?case by (simp add: clusterInv_enter)
next
  case (give_up h s b)
  show ?case by (rule clusterInv_goTo [OF give_up.prems give_up.hyps(1)]) (use alive [OF give_up.prems give_up.hyps(1)] give_up.hyps in blast)
next
  case (died h s b r)
  show ?case by (rule clusterInv_goTo [OF died.prems died.hyps(1)]) (use alive [OF died.prems died.hyps(1)] died.hyps in blast)
next
  case (deliver h s r)
  let ?s = "s\<lparr>rpcNet := (rpcNet s)\<lparr>netBytes := netBytes (rpcNet s) + of_nat (length (rpReply r))\<rparr>\<rparr>"
  have "clusterInv K R n N ?s" by (rule clusterInv_cong [OF deliver.prems]) (simp_all add: quietNet_def)
  from clusterInv_goTo [OF this, of h "CallAnswering r"] deliver.hyps show ?case by (simp add: onItsWay_def)
next
  case (return h s r x)
  have "rpOk r \<Longrightarrow> x \<noteq> None" using return.hyps(3) by (cases "gobDecode G (rpReply r)") (auto simp: callEnd_def)
  then show ?case using return by (intro clusterInv_goTo) (simp_all add: onItsWay_def)
qed (auto intro!: clusterInv_goTo clusterInv_handler simp: onItsWay_def handlerAt_def methodOf_def svcReply_def)

lemma clusterInv_call:
  assumes inv: "clusterInv K R n N s" and e: "ends (rpcNet s) en = Some e" "callBegin G e svcMeth argsType args s = Some s'"
  shows "clusterInv K R n N s'"
proof -
  obtain req where s': "s' = s\<lparr>rpcCalls := rpcCalls s @ [\<lparr>clReq = req, clPhase = CallSending, clHandler = HandlerNone\<rparr>]\<rparr>" "rqEndname req = endname e"
    using e(2) by (auto simp: callBegin_def bind_Some_iff Let_def)
  have "\<exists>a < n. \<exists>b < n. endname e = endName a b" using inv e(1) by (auto simp: clusterInv_def wired_def)
  then have "callFine K R n (netDone (rpcNet s)) req CallSending HandlerNone" by (auto simp: callFine_def s'(2) onItsWay_def handlerAt_def methodOf_def)
  moreover have "wired K R n s'" using inv wired_cong [OF quietNet_call [OF e(2)]] by (simp add: clusterInv_def)
  ultimately show ?thesis using inv unfolding clusterInv_def s'(1) by (auto simp: nth_append less_Suc_eq)
qed

lemma clusterInv_shutdown:
  assumes "clusterInv K R n N (clNet c)" and "Shutdown c = Some (stopped, c')"
  shows "clusterInv K R n N (clNet c')"
proof -
  have "rpcCalls (clNet c') = rpcCalls (clNet c)" "netDone (rpcNet (clNet c'))"
    using assms(2) by (auto simp: Shutdown_def Cleanup_def bind_Some_iff Let_def split: if_splits)
  moreover have "onItsWay j closed ph \<Longrightarrow> onItsWay j True ph" for j closed and ph :: "'a rpc_phase" by (auto simp: onItsWay_def split: rpc_phase.splits)
  ultimately show ?thesis
    using assms(1) wired_shutdown [OF assms(2)] unfolding clusterInv_def callFine_def by (metis (full_types))
qed

text \<open>From a cluster that has started.\<close>

lemma clusterInv_reach:
  assumes "(cluster_step K R ms G)\<^sup>*\<^sup>* (c, []) x" and "wired K R n (clNet c)"
  shows "clusterInv K R n (length (rpcCalls (clNet c))) (clNet (fst x)) \<and> snd x = []"
  using assms(1)
proof (induction rule: rtranclp_induct)
  case base
  then show ?case using assms(2) by (simp add: clusterInv_def)
next
  case (step x y)
  from step.hyps(2) step.IH show ?case
    by (cases rule: cluster_step.cases) (auto intro: clusterInv_call clusterInv_carry clusterInv_shutdown)
qed

end
