(* ===== verification/Labgob.thy ===== *)
theory Labgob
  imports Go_Prelude
begin

text \<open>
  The checks of the encoder: \<open>src/labgob/labgob.go\<close>. A type is a number, its place in the table of the program's types; types refer to each other by these
  numbers and may be recursive. The checks print and count, and do not change what is encoded. Field names are ASCII. The recursion of \<open>checkType\<close> has
  fuel; \<open>checkType_spec\<close> shows that one unit more than there are types is enough.
\<close>

section \<open>Types and values\<close>

datatype goType =
    TStruct string "(string \<times> nat) list"
  | TSlice nat
  | TArray nat
  | TPtr nat
  | TMap nat nat \<comment> \<open>key, element\<close>
  | TOther

text \<open>A value as \<open>checkDefault1\<close> looks at it: a value of a basic type has the name of its type and may be the zero value.\<close>

datatype goValue =
    VStruct "(string \<times> goValue) list"
  | VPtr "goValue option"
  | VBasic string bool
  | VOther

datatype notice = LowerCase string string | NonDefault string

record labgob =
  errorCount :: int
  checked :: "nat set"
  printed :: "notice list"

definition isUpper :: "string \<Rightarrow> bool" where
  "isUpper name = (case name of [] \<Rightarrow> False | c # cs \<Rightarrow> 65 \<le> (of_char c :: nat) \<and> (of_char c :: nat) \<le> 90)"

section \<open>The checks\<close>

fun checkType :: "nat \<Rightarrow> goType list \<Rightarrow> nat \<Rightarrow> labgob \<Rightarrow> labgob option"
  and checkFields :: "nat \<Rightarrow> goType list \<Rightarrow> string \<Rightarrow> (string \<times> nat) list \<Rightarrow> labgob \<Rightarrow> labgob option" where
  "checkType 0 tt t st = None"
| "checkType (Suc fuel) tt t st =
    (if t \<in> checked st then Some st
     else let st = st\<lparr>checked := insert t (checked st)\<rparr>
          in case tt ! t of
            TStruct name fs \<Rightarrow> checkFields fuel tt name fs st
          | TSlice e \<Rightarrow> checkType fuel tt e st
          | TArray e \<Rightarrow> checkType fuel tt e st
          | TPtr e \<Rightarrow> checkType fuel tt e st
          | TMap k e \<Rightarrow> do { st \<leftarrow> checkType fuel tt e st; checkType fuel tt k st }
          | TOther \<Rightarrow> Some st)"
| "checkFields fuel tt name [] st = Some st"
| "checkFields fuel tt name ((fname, ft) # fs) st = do {
     let st = (if \<not> isUpper fname then st\<lparr>printed := printed st @ [LowerCase fname name], errorCount := errorCount st + 1\<rparr> else st);
     st \<leftarrow> checkType fuel tt ft st;
     checkFields fuel tt name fs st }"

definition checkValue :: "goType list \<Rightarrow> nat \<Rightarrow> labgob \<Rightarrow> labgob option" where
  "checkValue tt t st = checkType (Suc (length tt)) tt t st"

fun checkDefault1 :: "goValue \<Rightarrow> int \<Rightarrow> string \<Rightarrow> labgob \<Rightarrow> labgob"
  and checkDefaults :: "(string \<times> goValue) list \<Rightarrow> int \<Rightarrow> string \<Rightarrow> labgob \<Rightarrow> labgob" where
  "checkDefault1 (VStruct fs) depth name st = (if depth > 3 then st else checkDefaults fs depth name st)"
| "checkDefault1 (VPtr None) depth name st = st"
| "checkDefault1 (VPtr (Some v)) depth name st = (if depth > 3 then st else checkDefault1 v (depth + 1) name st)"
| "checkDefault1 (VBasic typ isZero) depth name st =
    (if depth > 3 \<or> isZero then st
     else let st = (if errorCount st < 1 then st\<lparr>printed := printed st @ [NonDefault (if name = '''' then typ else name)]\<rparr> else st)
          in st\<lparr>errorCount := errorCount st + 1\<rparr>)"
| "checkDefault1 VOther depth name st = st"
| "checkDefaults [] depth name st = st"
| "checkDefaults ((fname, v) # fs) depth name st =
    (let name1 = (if name \<noteq> '''' then name @ ''.'' @ fname else fname)
     in checkDefaults fs depth name (checkDefault1 v (depth + 1) name1 st))"

definition checkDefault :: "goValue option \<Rightarrow> labgob \<Rightarrow> labgob" where
  "checkDefault value st = (case value of None \<Rightarrow> st | Some v \<Rightarrow> checkDefault1 v 1 '''' st)"

text \<open>
  \<open>Encode\<close>, \<open>Decode\<close> and \<open>Register\<close> check and then call \<open>encoding/gob\<close>, whose part is \<open>gob\<close>. \<open>EncodeValue\<close> and \<open>RegisterName\<close> differ from \<open>Encode\<close>
  and \<open>Register\<close> in that call only.
\<close>

definition labEncode :: "goType list \<Rightarrow> ('x \<Rightarrow> 'r) \<Rightarrow> nat \<Rightarrow> 'x \<Rightarrow> labgob \<Rightarrow> ('r \<times> labgob) option" where
  "labEncode tt gob t e st = do { st \<leftarrow> checkValue tt t st; Some (gob e, st) }"

definition labDecode :: "goType list \<Rightarrow> ('b \<Rightarrow> 'r) \<Rightarrow> nat \<Rightarrow> goValue option \<Rightarrow> 'b \<Rightarrow> labgob \<Rightarrow> ('r \<times> labgob) option" where
  "labDecode tt gob t target b st = do { st \<leftarrow> checkValue tt t st; Some (gob b, checkDefault target st) }"

definition labRegister :: "goType list \<Rightarrow> ('x \<Rightarrow> 'r) \<Rightarrow> nat \<Rightarrow> 'x \<Rightarrow> labgob \<Rightarrow> ('r \<times> labgob) option" where
  "labRegister tt gob t value st = do { st \<leftarrow> checkValue tt t st; Some (gob value, st) }"

section \<open>What a check reaches\<close>

fun partsOf :: "goType \<Rightarrow> nat list" where
  "partsOf (TStruct name fs) = map snd fs"
| "partsOf (TSlice e) = [e]"
| "partsOf (TArray e) = [e]"
| "partsOf (TPtr e) = [e]"
| "partsOf (TMap k e) = [e, k]"
| "partsOf TOther = []"

fun lowerFields :: "goType \<Rightarrow> nat" where
  "lowerFields (TStruct name fs) = length (filter (\<lambda>f. \<not> isUpper (fst f)) fs)"
| "lowerFields _ = 0"

text \<open>Every type refers to types of the table.\<close>

definition tableOk :: "goType list \<Rightarrow> bool" where
  "tableOk tt \<longleftrightarrow> (\<forall>t \<in> set tt. \<forall>p \<in> set (partsOf t). p < length tt)"

definition toCheck :: "goType list \<Rightarrow> labgob \<Rightarrow> nat" where
  "toCheck tt st = card ({..<length tt} - checked st)"

text \<open>
  A part of a check: it has visited the types \<open>S\<close>, with every newly visited type it has visited the parts, and it has complained \<open>k\<close> times, and once for
  every lower-case field of a newly visited type.
\<close>

definition visits :: "goType list \<Rightarrow> labgob \<Rightarrow> labgob \<Rightarrow> nat set \<Rightarrow> nat \<Rightarrow> bool" where
  "visits tt st st' S k \<longleftrightarrow>
     checked st \<subseteq> checked st' \<and> S \<subseteq> checked st' \<and> checked st' - checked st \<subseteq> {..<length tt} \<and>
     (\<forall>u \<in> checked st' - checked st. set (partsOf (tt ! u)) \<subseteq> checked st') \<and>
     errorCount st' = errorCount st + int (k + (\<Sum>u \<in> checked st' - checked st. lowerFields (tt ! u)))"

lemma visits_refl: "S \<subseteq> checked st \<Longrightarrow> visits tt st st S 0"
  by (simp add: visits_def)

lemma visits_trans:
  assumes a: "visits tt st st1 S k" and b: "visits tt st1 st2 T j"
  shows "visits tt st st2 (S \<union> T) (k + j)"
proof -
  have sub: "checked st \<subseteq> checked st1" "checked st1 \<subseteq> checked st2" using a b by (auto simp: visits_def)
  have split: "checked st2 - checked st = (checked st1 - checked st) \<union> (checked st2 - checked st1)" using sub by auto
  have fin: "finite (checked st1 - checked st)" "finite (checked st2 - checked st1)"
    using a b finite_subset [OF _ finite_lessThan] by (auto simp: visits_def)
  have "(\<Sum>u \<in> checked st2 - checked st. lowerFields (tt ! u)) =
      (\<Sum>u \<in> checked st1 - checked st. lowerFields (tt ! u)) + (\<Sum>u \<in> checked st2 - checked st1. lowerFields (tt ! u))"
    unfolding split by (rule sum.union_disjoint [OF fin]) auto
  moreover have "set (partsOf (tt ! u)) \<subseteq> checked st2" if "u \<in> checked st2 - checked st" for u
    using that a b sub(2) unfolding split visits_def by blast
  ultimately show ?thesis using a b sub unfolding visits_def by (intro conjI ballI) (blast | simp)+
qed

lemma visits_mark:
  assumes t: "t < length tt" "t \<notin> checked st"
    and v: "visits tt (st\<lparr>checked := insert t (checked st)\<rparr>) st' (set (partsOf (tt ! t))) (lowerFields (tt ! t))"
  shows "visits tt st st' {t} 0"
proof -
  let ?new = "checked st' - insert t (checked st)"
  have new: "checked st' - checked st = insert t ?new" using v t(2) by (auto simp: visits_def)
  have "finite ?new" using v finite_subset [OF _ finite_lessThan] by (auto simp: visits_def)
  then have "(\<Sum>u \<in> checked st' - checked st. lowerFields (tt ! u)) = lowerFields (tt ! t) + (\<Sum>u \<in> ?new. lowerFields (tt ! u))"
    unfolding new by simp
  moreover have "set (partsOf (tt ! u)) \<subseteq> checked st'" if "u \<in> checked st' - checked st" for u
    using that v unfolding new visits_def by auto
  moreover have "checked st' - checked st \<subseteq> {..<length tt}" using v t(1) unfolding new visits_def by simp
  ultimately show ?thesis using v unfolding visits_def by (intro conjI ballI) (blast | simp)+
qed

lemma toCheck_visits: "visits tt st st' S k \<Longrightarrow> toCheck tt st' \<le> toCheck tt st"
  unfolding toCheck_def by (rule card_mono) (auto simp: visits_def)

lemma toCheck_mark: "t < length tt \<Longrightarrow> t \<notin> checked st \<Longrightarrow> toCheck tt st = Suc (toCheck tt (st\<lparr>checked := insert t (checked st)\<rparr>))"
proof -
  assume t: "t < length tt" "t \<notin> checked st"
  then have "{..<length tt} - checked st = insert t ({..<length tt} - insert t (checked st))" by auto
  then have "card ({..<length tt} - checked st) = Suc (card ({..<length tt} - insert t (checked st)))" by (metis card.insert finite_Diff finite_lessThan Diff_iff insertI1)
  then show ?thesis by (simp add: toCheck_def)
qed

lemma toCheck_warn [simp]: "toCheck tt (st\<lparr>printed := p, errorCount := e\<rparr>) = toCheck tt st"
  by (simp add: toCheck_def)

lemma visits_warn:
  "visits tt (st\<lparr>printed := p, errorCount := errorCount st + 1\<rparr>) st' S k \<Longrightarrow> visits tt st st' S (Suc k)"
  by (auto simp: visits_def)

lemma check_visits:
  "tableOk tt \<Longrightarrow> toCheck tt st < fuel \<Longrightarrow> t < length tt \<Longrightarrow> \<exists>st'. checkType fuel tt t st = Some st' \<and> visits tt st st' {t} 0"
  "tableOk tt \<Longrightarrow> toCheck tt st < fuel \<Longrightarrow> \<forall>f \<in> set fs. snd f < length tt \<Longrightarrow>
   \<exists>st'. checkFields fuel tt name fs st = Some st' \<and> visits tt st st' (snd ` set fs) (length (filter (\<lambda>f. \<not> isUpper (fst f)) fs))"
proof (induction fuel tt t st and fuel tt name fs st rule: checkType_checkFields.induct)
  case (2 fuel tt t st)
  show ?case
  proof (cases "t \<in> checked st")
    case True
    then show ?thesis by (auto intro: visits_refl)
  next
    case False
    let ?st = "st\<lparr>checked := insert t (checked st)\<rparr>"
    have fuel: "toCheck tt ?st < fuel" using toCheck_mark [OF "2.prems"(3) False] "2.prems"(2) by simp
    have parts: "\<forall>p \<in> set (partsOf (tt ! t)). p < length tt" using "2.prems"(1,3) by (auto simp: tableOk_def)
    have "\<exists>st'. checkType (Suc fuel) tt t st = Some st' \<and> visits tt ?st st' (set (partsOf (tt ! t))) (lowerFields (tt ! t))"
    proof (cases "tt ! t")
      case (TMap k e)
      obtain s1 where s1: "checkType fuel tt e ?st = Some s1" "visits tt ?st s1 {e} 0"
        using "2.IH"(5) [OF False refl TMap "2.prems"(1) fuel] parts TMap by auto
      have "toCheck tt s1 < fuel" using toCheck_visits [OF s1(2)] fuel by simp
      then obtain s2 where "checkType fuel tt k s1 = Some s2" "visits tt s1 s2 {k} 0"
        using "2.IH"(6) [OF False refl TMap, of s1] s1(1) "2.prems"(1) parts TMap by auto
      then show ?thesis using s1 visits_trans [OF s1(2)] False TMap by (fastforce simp: Let_def)
    next
      case TOther
      then show ?thesis using False by (simp add: visits_refl)
    qed (use "2.IH"(1-4) [OF False refl _ "2.prems"(1) fuel] parts False in auto)
    then show ?thesis using visits_mark [OF "2.prems"(3) False] by blast
  qed
next
  case (3 fuel tt name st)
  then show ?case by (simp add: visits_refl)
next
  case (4 fuel tt name fname ft fs st)
  define s0 where "s0 = (if \<not> isUpper fname then st\<lparr>printed := printed st @ [LowerCase fname name], errorCount := errorCount st + 1\<rparr> else st)"
  have t0: "toCheck tt s0 = toCheck tt st" by (simp add: s0_def)
  obtain s1 where s1: "checkType fuel tt ft s0 = Some s1" "visits tt s0 s1 {ft} 0"
    using "4.IH"(1) [OF s0_def "4.prems"(1)] "4.prems"(2,3) t0 by auto
  have "toCheck tt s1 < fuel" using toCheck_visits [OF s1(2)] "4.prems"(2) t0 by simp
  then obtain s2 where s2: "checkFields fuel tt name fs s1 = Some s2" "visits tt s1 s2 (snd ` set fs) (length (filter (\<lambda>f. \<not> isUpper (fst f)) fs))"
    using "4.IH"(2) [OF s0_def, of s1] s1(1) "4.prems"(1,3) by auto
  have "visits tt s0 s2 (insert ft (snd ` set fs)) (length (filter (\<lambda>f. \<not> isUpper (fst f)) fs))" using visits_trans [OF s1(2) s2(2)] by simp
  then have "visits tt st s2 (snd ` set ((fname, ft) # fs)) (length (filter (\<lambda>f. \<not> isUpper (fst f)) ((fname, ft) # fs)))"
    using visits_warn unfolding s0_def by (simp split: if_splits)
  then show ?case using s1(1) s2(1) unfolding s0_def by simp
qed simp

text \<open>The types a type is made of, directly or through others.\<close>

definition partRel :: "goType list \<Rightarrow> (nat \<times> nat) set" where
  "partRel tt = {(u, p). p \<in> set (partsOf (tt ! u))}"

definition closedUnder :: "goType list \<Rightarrow> nat set \<Rightarrow> bool" where
  "closedUnder tt S \<longleftrightarrow> (\<forall>u \<in> S. set (partsOf (tt ! u)) \<subseteq> S)"

lemma closedUnder_reach: "(t, u) \<in> (partRel tt)\<^sup>* \<Longrightarrow> closedUnder tt S \<Longrightarrow> t \<in> S \<Longrightarrow> u \<in> S"
  by (induction rule: rtrancl_induct) (auto simp: closedUnder_def partRel_def)

lemma checkType_spec:
  assumes "tableOk tt" and "t < length tt" and "closedUnder tt (checked st)"
  obtains st' where "checkValue tt t st = Some st'" "visits tt st st' {t} 0" "closedUnder tt (checked st')"
    "\<And>u. (t, u) \<in> (partRel tt)\<^sup>* \<Longrightarrow> u \<in> checked st' \<and> checkValue tt u st' = Some st'"
proof -
  have "toCheck tt st \<le> length tt" unfolding toCheck_def by (metis Diff_subset card_lessThan card_mono finite_lessThan)
  then obtain st' where st': "checkValue tt t st = Some st'" "visits tt st st' {t} 0"
    using check_visits(1) [OF assms(1) _ assms(2), of st "Suc (length tt)"] by (auto simp: checkValue_def)
  have "closedUnder tt (checked st')"
    using st'(2) assms(3) unfolding closedUnder_def visits_def by (metis Diff_iff subset_trans)
  moreover have "u \<in> checked st'" if "(t, u) \<in> (partRel tt)\<^sup>*" for u
    using closedUnder_reach [OF that calculation] st'(2) by (simp add: visits_def)
  ultimately show ?thesis using that st' by (simp add: checkValue_def)
qed

end
