(* ===== verification/Network_Theorems.thy ===== *)
theory Network_Theorems
  imports Runtime_Cluster Labgob
begin

text \<open>
  The properties of the network between the peers, of the cluster that uses it and of the encoder's checks, with a small network on which they are evaluated.
\<close>

section \<open>A network with one peer\<close>

definition strGob :: "string gob" where
  "strGob = \<lparr>gobEncode = Some, gobDecode = Some, gobZero = (\<lambda>t. '''')\<rparr>"

definition echoMethod :: "string Method" where
  "echoMethod = \<lparr>mtName = ''Echo'', mtPkgPath = '''', mtNumIn = 3, mtIn1 = ''string'', mtIn2Ptr = True, mtNumOut = 0, mtFunc = (\<lambda>a r. r = a)\<rparr>"

abbreviation noMethods :: "nat \<Rightarrow> string Method list" where
  "noMethods k \<equiv> []"

abbreviation echoMethods :: "nat \<Rightarrow> string Method list" where
  "echoMethods k \<equiv> [echoMethod]"

lemma strGob_ok: "gobOk strGob"
  by (simp add: gobOk_def strGob_def)

definition echoCall :: "string call" where
  "echoCall = \<lparr>clReq = \<lparr>rqEndname = endName 0 0, rqSvcMeth = ''Raft.Echo'', rqArgsType = ''string'', rqArgs = ''hi''\<rparr>, clPhase = CallSending, clHandler = HandlerNone\<rparr>"

lemma echo_resolves: "services rs = servicesOf noMethods echoMethods 0 \<Longrightarrow> resolves strGob (clReq echoCall) rs"
proof -
  assume rs: "services rs = servicesOf noMethods echoMethods 0"
  have split: "splitMeth ''Raft.Echo'' = Some (''Raft'', ''Echo'')" by code_simp
  show ?thesis
    unfolding resolves_def svrDispatch_def svcDispatch_def rs
    by (simp add: split echoCall_def servicesOf_def MakeService_def echoMethod_def strGob_def)
qed

text \<open>A network with one peer, built step by step.\<close>

definition exNetwork :: "string rpc" where
  "exNetwork = (let rn = MakeNetwork\<lparr>ends := [endName 0 0 \<mapsto> \<lparr>endname = endName 0 0\<rparr>], enabled := (\<lambda>e. False)(endName 0 0 := True),
       connections := (\<lambda>e. None)(endName 0 0 := Some 0), servers := (\<lambda>s. None)(0 := Some 0)\<rparr>
     in \<lparr>rpcNet = rn, rpcLoop = True, rpcServers = [\<lparr>services = servicesOf noMethods echoMethods 0, svrCount = 0\<rparr>], rpcCalls = []\<rparr>)"

lemma exNetwork_reached: "(rpc_step strGob)\<^sup>*\<^sup>* startNetwork exNetwork"
proof -
  let ?s0 = "startNetwork :: string rpc"
  define s1 where "s1 = ?s0\<lparr>rpcServers := rpcServers ?s0 @ [MakeServer]\<rparr>"
  define s2 where "s2 = s1\<lparr>rpcServers := (rpcServers s1)[0 := AddService (MakeService ''KVServer'' []) (rpcServers s1 ! 0)]\<rparr>"
  define s3 where "s3 = s2\<lparr>rpcServers := (rpcServers s2)[0 := AddService (MakeService ''Raft'' [echoMethod]) (rpcServers s2 ! 0)]\<rparr>"
  obtain rn where rn: "MakeEnd (endName 0 0) (rpcNet s3) = Some (\<lparr>endname = endName 0 0\<rparr>, rn)"
    by (simp add: MakeEnd_def s3_def s2_def s1_def startNetwork_def MakeNetwork_def Let_def)
  define s4 where "s4 = s3\<lparr>rpcNet := rn\<rparr>"
  define s5 where "s5 = s4\<lparr>rpcNet := Connect (endName 0 0) 0 (rpcNet s4)\<rparr>"
  define s6 where "s6 = s5\<lparr>rpcNet := AddServer 0 0 (rpcNet s5)\<rparr>"
  define s7 where "s7 = s6\<lparr>rpcNet := Enable (endName 0 0) True (rpcNet s6)\<rparr>"
  have len: "length (rpcServers s1) = 1" "length (rpcServers s2) = 1" "length (rpcServers s5) = 1"
    by (simp_all add: s5_def s4_def s3_def s2_def s1_def startNetwork_def)
  have "(rpc_step strGob)\<^sup>*\<^sup>* ?s0 s1" unfolding s1_def by (intro r_into_rtranclp rpc_step.make_server)
  also have "rpc_step strGob s1 s2" unfolding s2_def by (rule rpc_step.add_service) (simp add: len)
  also (rtranclp.rtrancl_into_rtrancl) have "rpc_step strGob s2 s3" unfolding s3_def by (rule rpc_step.add_service) (simp add: len)
  also (rtranclp.rtrancl_into_rtrancl) have "rpc_step strGob s3 s4" unfolding s4_def by (rule rpc_step.config, rule net_op.op_end [OF rn])
  also (rtranclp.rtrancl_into_rtrancl) have "rpc_step strGob s4 s5" unfolding s5_def by (rule rpc_step.config, rule net_op.op_connect)
  also (rtranclp.rtrancl_into_rtrancl) have "rpc_step strGob s5 s6" unfolding s6_def by (rule rpc_step.config, rule net_op.op_add) (simp add: len)
  also (rtranclp.rtrancl_into_rtrancl) have "rpc_step strGob s6 s7" unfolding s7_def by (rule rpc_step.config, rule net_op.op_enable)
  finally (rtranclp.rtrancl_into_rtrancl) have "(rpc_step strGob)\<^sup>*\<^sup>* ?s0 s7" .
  moreover have "s7 = exNetwork"
    using rn by (auto simp: s7_def s6_def s5_def s4_def s3_def s2_def s1_def exNetwork_def startNetwork_def MakeNetwork_def MakeEnd_def Connect_def AddServer_def
        Enable_def AddService_def MakeServer_def MakeService_def servicesOf_def Let_def fun_eq_iff)
  ultimately show ?thesis by simp
qed

lemma exNetwork_wired: "wired noMethods echoMethods 1 exNetwork" "rpcCalls exNetwork = []" "\<not> netDone (rpcNet exNetwork)"
proof -
  have "(if a = endName 0 0 then Some \<lparr>endname = endName 0 0\<rparr> else None) = Some e \<Longrightarrow> endname e = endName 0 0" for a e
    by (auto split: if_splits)
  then show "wired noMethods echoMethods 1 exNetwork" by (auto simp: wired_def exNetwork_def MakeNetwork_def Let_def fun_eq_iff)
qed (simp_all add: exNetwork_def MakeNetwork_def Let_def)

text \<open>A call from peer 0 to itself, and where it comes to rest: its reply has arrived.\<close>

lemma echo_begins:
  assumes "rpcCalls s = []"
  shows "callBegin strGob \<lparr>endname = endName 0 0\<rparr> ''Raft.Echo'' ''string'' ''hi'' s = Some (s\<lparr>rpcCalls := [echoCall]\<rparr>)"
  using assms by (simp add: callBegin_def strGob_def echoCall_def Let_def)

lemma echo_returned:
  assumes w: "wired noMethods echoMethods 1 s" "rpcCalls s = []" "\<not> netDone (rpcNet s)" and inv: "rpcInv strGob s"
  shows "\<exists>s' x. (carry_step strGob)\<^sup>*\<^sup>* (s\<lparr>rpcCalls := [echoCall]\<rparr>) s' \<and> length (rpcCalls s') = 1 \<and> phaseOf s' 0 = CallReturned (Some x)"
proof -
  let ?s = "s\<lparr>rpcCalls := [echoCall]\<rparr>"
  have e: "ends (rpcNet s) (endName 0 0) = Some \<lparr>endname = endName 0 0\<rparr>" using w(1) by (simp add: wired_def)
  have "rpcInv strGob ?s" using rpcInv_step [OF rpc_step.call [OF e echo_begins [OF w(2)]] strGob_ok inv] .
  moreover have "length (rpcServers s) = 1" "services (rpcServers s ! 0) = servicesOf noMethods echoMethods 0" using w(1) by (simp_all add: wired_def)
  then have "answerable strGob ?s"
    using echo_resolves by (auto simp: answerable_def returns_def echoCall_def in_set_conv_nth)
  ultimately obtain k s' where s': "(carry_step strGob ^^ k) ?s s'" "allReturned s'"
    using netDrain.comes_to_rest [of strGob ?s] strGob_ok by blast
  then have run: "(carry_step strGob)\<^sup>*\<^sup>* ?s s'" by (simp add: relpowp_imp_rtranclp)
  have "clusterInv noMethods echoMethods 1 0 s" using w by (simp add: clusterInv_def)
  from clusterInv_call [OF this e echo_begins [OF w(2)]] have "clusterInv noMethods echoMethods 1 0 ?s" .
  with run have "clusterInv noMethods echoMethods 1 0 s' \<and> length (rpcCalls s') = 1 \<and> netDone (rpcNet s') = netDone (rpcNet s)"
  proof (induction rule: rtranclp_induct)
    case (step t u)
    then show ?case using clusterInv_carry carry_step_length quietNet_carry [OF step.hyps(2)] quietNet_sel(6) by metis
  qed simp
  note s1 = this
  obtain x where x: "phaseOf s' 0 = CallReturned x" using s'(2) s1 unfolding allReturned_def by (metis nth_mem zero_less_one)
  have "x \<noteq> None" by (rule clusterInv_fine [of noMethods echoMethods 1 0 s' 0]) (use s1 x w(3) in \<open>auto simp: onItsWay_def\<close>)
  then show ?thesis using run s1 x by blast
qed

lemma echo_run:
  "\<exists>s x. (rpc_step strGob)\<^sup>*\<^sup>* startNetwork s \<and> length (rpcCalls s) = 1 \<and> phaseOf s 0 = CallReturned (Some x)"
proof -
  have inv: "rpcInv strGob exNetwork" by (rule rpcInv_reach [OF exNetwork_reached strGob_ok])
  obtain s x where s: "(carry_step strGob)\<^sup>*\<^sup>* (exNetwork\<lparr>rpcCalls := [echoCall]\<rparr>) s" "length (rpcCalls s) = 1" "phaseOf s 0 = CallReturned (Some x)"
    using echo_returned [OF exNetwork_wired inv] by blast
  have "ends (rpcNet exNetwork) (endName 0 0) = Some \<lparr>endname = endName 0 0\<rparr>" using exNetwork_wired(1) by (simp add: wired_def)
  then have "rpc_step strGob exNetwork (exNetwork\<lparr>rpcCalls := [echoCall]\<rparr>)" by (rule rpc_step.call [OF _ echo_begins [OF exNetwork_wired(2)]])
  moreover have "(rpc_step strGob)\<^sup>*\<^sup>* (exNetwork\<lparr>rpcCalls := [echoCall]\<rparr>) s" using s(1) by (metis mono_rtranclp rpc_step.carry)
  ultimately show ?thesis using exNetwork_reached s(2,3) by (meson converse_rtranclp_into_rtranclp rtranclp_trans)
qed

section \<open>Remote calls\<close>

text \<open>
  C9: A call is executed at most once, and a true result is a real one. In every state of the network, whatever was lost, delayed, reconnected or deleted, the count of a server object
  is the number of calls whose handler ran on it, so no request is handed to a server twice; and if \<open>Call\<close> returned true, the reply is one that a method gave to exactly
  the arguments of this call, and this method is the one that the server had under the service and method names of the request when the request entered it.
\<close>

theorem rpc_at_most_once:
  assumes "gobOk G" and "(rpc_step G)\<^sup>*\<^sup>* startNetwork s"
  shows "(\<forall>k < length (rpcServers s). svrCount (rpcServers s ! k) = int (length (filter (dispatchedOn k) (rpcCalls s)))) \<and>
    (\<forall>h < length (rpcCalls s). \<forall>x. phaseOf s h = CallReturned (Some x) \<longrightarrow>
      (\<exists>k m a. handlerOf s h = HandlerEnded k m a x \<and> k < length (rpcServers s) \<and> gobDecode G (rqArgs (clReq (rpcCalls s ! h))) = Some a \<and> mtFunc m a x \<and>
        (\<exists>s0. (rpc_step G)\<^sup>*\<^sup>* startNetwork s0 \<and> (rpc_step G)\<^sup>*\<^sup>* s0 s \<and> handlerOf s0 h = HandlerSpawned k \<and>
           finds (services (rpcServers s0 ! k)) (rqSvcMeth (clReq (rpcCalls s ! h))) m)))"
proof -
  have inv: "rpcInv G s" by (rule rpcInv_reach [OF assms(2,1)])
  have "\<exists>k m a. handlerOf s h = HandlerEnded k m a x \<and> k < length (rpcServers s) \<and> gobDecode G (rqArgs (clReq (rpcCalls s ! h))) = Some a \<and> mtFunc m a x \<and>
      (\<exists>s0. (rpc_step G)\<^sup>*\<^sup>* startNetwork s0 \<and> (rpc_step G)\<^sup>*\<^sup>* s0 s \<and> handlerOf s0 h = HandlerSpawned k \<and>
         finds (services (rpcServers s0 ! k)) (rqSvcMeth (clReq (rpcCalls s ! h))) m)"
    if h: "h < length (rpcCalls s)" "phaseOf s h = CallReturned (Some x)" for h x
  proof -
    obtain k m a where e: "handlerOf s h = HandlerEnded k m a x" "k < length (rpcServers s)" "gobDecode G (rqArgs (clReq (rpcCalls s ! h))) = Some a" "mtFunc m a x"
      using rpcInv_D(1) [OF inv h(1)] h(2) by (auto simp: callOk_def phaseOk_def handlerOk_def)
    then have "ran k m (handlerOf s h)" by simp
    from ran_dispatched [OF assms(2) h(1) this] show ?thesis using e unfolding dispatching_def by metis
  qed
  then show ?thesis using rpcInv_D(4) [OF inv] by blast
qed

theorem rpc_at_most_once_witness:
  "\<exists>s k m a x. (rpc_step strGob)\<^sup>*\<^sup>* startNetwork s \<and> handlerOf s 0 = HandlerEnded k m a x \<and> mtFunc m a x"
proof -
  obtain s x where s: "(rpc_step strGob)\<^sup>*\<^sup>* startNetwork s" "length (rpcCalls s) = 1" "phaseOf s 0 = CallReturned (Some x)" using echo_run by blast
  have "\<exists>k m a. handlerOf s 0 = HandlerEnded k m a x \<and> mtFunc m a x"
    using rpc_at_most_once [OF strGob_ok s(1)] s(2,3) by fastforce
  then show ?thesis using s(1) by blast
qed

text \<open>
  C23: Calls come back. From every state of the network in which the requests under way name services and methods that the servers have and the handlers return, every run without
  new calls is bounded by the work left, and when no step is left every \<open>Call\<close> has returned: also those to deleted servers, on disabled ends and after \<open>Cleanup\<close>.
\<close>

theorem rpc_calls_return:
  assumes "gobOk G" and "(rpc_step G)\<^sup>*\<^sup>* startNetwork s" and "answerable G s"
  shows "(\<exists>k s'. (carry_step G ^^ k) s s' \<and> allReturned s') \<and>
    (\<forall>k s'. (carry_step G ^^ k) s s' \<longrightarrow> k \<le> rpcWork s \<and> ((\<exists>s''. carry_step G s' s'') \<or> allReturned s'))"
proof -
  have inv: "rpcInv G s \<and> answerable G s \<and> gobOk G" using rpcInv_reach [OF assms(2,1)] assms(1,3) by blast
  show ?thesis
    using netDrain.comes_to_rest [of G, OF inv] netDrain.work_steps [of _ G, OF _ inv] netDrain.stuck_at_rest [of _ G, OF _ inv]
    by (meson add_leE)
qed

theorem rpc_calls_return_witness:
  "\<exists>k s'. (carry_step strGob ^^ k) (exNetwork\<lparr>rpcCalls := [echoCall]\<rparr>) s' \<and> allReturned s'"
proof -
  let ?s = "exNetwork\<lparr>rpcCalls := [echoCall]\<rparr>"
  have "callBegin strGob \<lparr>endname = endName 0 0\<rparr> ''Raft.Echo'' ''string'' ''hi'' exNetwork = Some ?s"
    by (simp add: callBegin_def strGob_def exNetwork_def echoCall_def Let_def)
  then have "rpc_step strGob exNetwork ?s"
    by (rule rpc_step.call [rotated]) (simp add: exNetwork_def MakeNetwork_def Let_def)
  then have "(rpc_step strGob)\<^sup>*\<^sup>* startNetwork ?s" by (rule rtranclp.rtrancl_into_rtrancl [OF exNetwork_reached])
  moreover have "answerable strGob ?s"
    using echo_resolves by (simp add: answerable_def returns_def echoCall_def exNetwork_def Let_def)
  ultimately show ?thesis using rpc_calls_return [OF strGob_ok] by blast
qed

text \<open>
  C16: A deleted server gives no more positive replies. Once \<open>DeleteServer\<close> has run, a call that was already bound to the server object and has not passed the last check never returns true, however far its handler has
  come, as long as this object is not added again under its name. This is what lets a test supersede the persister of a crashed peer.
\<close>

theorem deleted_server_silent:
  assumes "h < length (rpcCalls s)" and "boundTo sn k (phaseOf s h)"
    and "(\<lambda>t u. rpc_step G t u \<and> servers (rpcNet u) sn \<noteq> Some k)\<^sup>*\<^sup>* (s\<lparr>rpcNet := DeleteServer sn (rpcNet s)\<rparr>) s'"
  shows "phaseOf s' h \<noteq> CallReturned (Some x)"
proof -
  have "silent sn k (phaseOf s' h)" using silent_run [OF assms(3), of h] assms(1,2) by (simp add: DeleteServer_def silent_def)
  then show ?thesis by (auto simp: silent_def boundTo_def)
qed

definition awaitingCall :: "string call" where
  "awaitingCall = echoCall\<lparr>clPhase := CallAwaiting \<lparr>bdServername = 0, bdServer = 0, bdReliable = True, bdLongreordering = False\<rparr>, clHandler := HandlerSpawned 0\<rparr>"

theorem deleted_server_silent_witness:
  "\<exists>s'. rpc_step strGob (exNetwork\<lparr>rpcCalls := [awaitingCall], rpcNet := DeleteServer 0 (rpcNet exNetwork)\<rparr>) s' \<and> phaseOf s' 0 \<noteq> CallReturned (Some ''hi'')"
proof -
  let ?s = "exNetwork\<lparr>rpcCalls := [awaitingCall]\<rparr>" and ?b = "\<lparr>bdServername = 0, bdServer = 0, bdReliable = True, bdLongreordering = False\<rparr>"
  let ?d = "?s\<lparr>rpcNet := DeleteServer 0 (rpcNet ?s)\<rparr>"
  have ph: "phaseOf ?d 0 = CallAwaiting ?b" by (simp add: awaitingCall_def)
  have st: "rpc_step strGob ?d (goTo 0 CallGaveUp ?d)"
    by (rule rpc_step.carry, rule carry_step.give_up [OF _ ph]) (simp_all add: boundDead_def isServerDead_def DeleteServer_def)
  then have "(\<lambda>t u. rpc_step strGob t u \<and> servers (rpcNet u) 0 \<noteq> Some 0)\<^sup>*\<^sup>* ?d (goTo 0 CallGaveUp ?d)"
    by (intro r_into_rtranclp) (simp add: DeleteServer_def)
  from deleted_server_silent [OF _ _ this] st show ?thesis by (auto simp: awaitingCall_def boundTo_def)
qed

section \<open>The cluster\<close>

text \<open>
  C5: Remote calls of the running cluster. With one address per peer no operation of \<open>NewCluster\<close> panics (so no client end is made twice), whatever calls the goroutines of the peers that have
  been started already make in between. A \<open>Call\<close> that is made once \<open>NewCluster\<close> has returned, and that returns, has returned true, unless \<open>Shutdown\<close> has closed the network: it was executed, by the method of
  that name of the peer the end is for, on the arguments of the call, and the reply is the one that method gave.
\<close>

theorem cluster_calls_exactly_once:
  assumes "gobOk G" and "length addrs = n" and "(cluster_step K R ms G)\<^sup>*\<^sup>* (emptyCluster n addrs, bootOps n) (c1, ops1)"
  shows "(\<forall>op ops now. ops1 = op # ops \<longrightarrow> bootStep K R now ms op c1 \<noteq> None) \<and>
    (\<forall>c2 ops2 h x. ops1 = [] \<longrightarrow> (cluster_step K R ms G)\<^sup>*\<^sup>* (c1, ops1) (c2, ops2) \<longrightarrow>
      length (rpcCalls (clNet c1)) \<le> h \<longrightarrow> h < length (rpcCalls (clNet c2)) \<longrightarrow> phaseOf (clNet c2) h = CallReturned x \<longrightarrow>
      (\<exists>i j. i < n \<and> j < n \<and> rqEndname (clReq (rpcCalls (clNet c2) ! h)) = endName i j \<and>
        (case x of
           None \<Rightarrow> netDone (rpcNet (clNet c2))
         | Some v \<Rightarrow> \<exists>m a. handlerOf (clNet c2) h = HandlerEnded j m a v \<and> finds (servicesOf K R j) (rqSvcMeth (clReq (rpcCalls (clNet c2) ! h))) m \<and>
             gobDecode G (rqArgs (clReq (rpcCalls (clNet c2) ! h))) = Some a \<and> mtFunc m a v)))"
proof -
  have ok: "bootOk K R ms n addrs (c1, ops1)" by (rule bootOk_reach [OF assms(2,3)])
  have "\<exists>i j. i < n \<and> j < n \<and> rqEndname (clReq (rpcCalls (clNet c2) ! h)) = endName i j \<and>
      (case x of
         None \<Rightarrow> netDone (rpcNet (clNet c2))
       | Some v \<Rightarrow> \<exists>m a. handlerOf (clNet c2) h = HandlerEnded j m a v \<and> finds (servicesOf K R j) (rqSvcMeth (clReq (rpcCalls (clNet c2) ! h))) m \<and>
           gobDecode G (rqArgs (clReq (rpcCalls (clNet c2) ! h))) = Some a \<and> mtFunc m a v)"
    if u: "ops1 = []" "(cluster_step K R ms G)\<^sup>*\<^sup>* (c1, ops1) (c2, ops2)" "length (rpcCalls (clNet c1)) \<le> h" "h < length (rpcCalls (clNet c2))"
      "phaseOf (clNet c2) h = CallReturned x" for c2 ops2 h x
  proof -
    have "wired K R n (clNet c1)" using boot_finished [OF assms(2), of K R ms c1] ok u(1) by simp
    then have "clusterInv K R n (length (rpcCalls (clNet c1))) (clNet c2)"
      using clusterInv_reach [of K R ms G c1 "(c2, ops2)" n] u(1,2) by simp
    then obtain i j where ij: "i < n" "j < n" "rqEndname (clReq (rpcCalls (clNet c2) ! h)) = endName i j" "onItsWay j (netDone (rpcNet (clNet c2))) (CallReturned x)"
        "handlerAt (handlerOf (clNet c2) h) = None \<or> handlerAt (handlerOf (clNet c2) h) = Some j"
        "\<And>m. methodOf (handlerOf (clNet c2) h) = Some m \<Longrightarrow> finds (servicesOf K R j) (rqSvcMeth (clReq (rpcCalls (clNet c2) ! h))) m"
      by (rule clusterInv_fine [OF _ u(4,3)]) (use u(5) in auto)
    have call: "callOk G (length (rpcServers (clNet c2))) (rpcCalls (clNet c2) ! h)"
      using rpcInv_D(1) [OF _ u(4)] cluster_rpcInv [OF assms(1) rtranclp_trans [OF assms(3) u(2)]] by simp
    show ?thesis
    proof (cases x)
      case None
      then show ?thesis using ij by (auto simp: onItsWay_def)
    next
      case (Some v)
      then obtain k m a where hd: "handlerOf (clNet c2) h = HandlerEnded k m a v" using call u(5) by (auto simp: callOk_def phaseOk_def)
      moreover have "gobDecode G (rqArgs (clReq (rpcCalls (clNet c2) ! h))) = Some a \<and> mtFunc m a v" using call hd by (simp add: callOk_def handlerOk_def)
      moreover have "k = j" using ij(5) hd by (simp add: handlerAt_def)
      ultimately show ?thesis using Some ij by (auto simp: methodOf_def)
    qed
  qed
  then show ?thesis using ok boot_never_panics [OF assms(2)] by blast
qed

text \<open>A cluster of one peer that starts and answers a call.\<close>

theorem cluster_calls_exactly_once_witness:
  "\<exists>(c1 :: string Cluster) c2 m v. (cluster_step noMethods echoMethods 1000 strGob)\<^sup>*\<^sup>* (emptyCluster 1 ['':8001''], bootOps 1) (c1, []) \<and>
     (cluster_step noMethods echoMethods 1000 strGob)\<^sup>*\<^sup>* (c1, []) (c2, []) \<and> phaseOf (clNet c2) 0 = CallReturned (Some v) \<and>
     finds (servicesOf noMethods echoMethods 0) (rqSvcMeth (clReq (rpcCalls (clNet c2) ! 0))) m"
proof -
  obtain c1 :: "string Cluster" where c1: "NewCluster noMethods echoMethods 0 (int 1) ['':8001''] 1000 = Some (Inr c1)"
      "wired noMethods echoMethods 1 (clNet c1)" "rpcCalls (clNet c1) = []" "\<not> netDone (rpcNet (clNet c1))"
    by (rule NewCluster_wired [of "['':8001'']" 1 noMethods echoMethods 0 1000]) simp_all
  have boot: "(cluster_step noMethods echoMethods 1000 strGob)\<^sup>*\<^sup>* (emptyCluster 1 ['':8001''], bootOps 1) (c1, [])"
    using runBoot_steps [OF NewCluster_boot [OF _ c1(1)], of strGob "[]"] by simp
  have inv: "rpcInv strGob (clNet c1)" using cluster_rpcInv [OF strGob_ok boot] by simp
  obtain s x where s: "(carry_step strGob)\<^sup>*\<^sup>* ((clNet c1)\<lparr>rpcCalls := [echoCall]\<rparr>) s" "length (rpcCalls s) = 1" "phaseOf s 0 = CallReturned (Some x)"
    using echo_returned [OF c1(2-4) inv] by blast
  have "ends (rpcNet (clNet c1)) (endName 0 0) = Some \<lparr>endname = endName 0 0\<rparr>" using c1(2) by (simp add: wired_def)
  then have call: "cluster_step noMethods echoMethods 1000 strGob (c1, []) (c1\<lparr>clNet := (clNet c1)\<lparr>rpcCalls := [echoCall]\<rparr>\<rparr>, [])"
    by (rule cluster_step.call [OF _ echo_begins [OF c1(3)]])
  have "(cluster_step noMethods echoMethods 1000 strGob)\<^sup>*\<^sup>* (c1\<lparr>clNet := t\<rparr>, []) (c1\<lparr>clNet := u\<rparr>, [])" if "(carry_step strGob)\<^sup>*\<^sup>* t u" for t u
    using that
  proof (induction rule: rtranclp_induct)
    case (step u v)
    have "cluster_step noMethods echoMethods 1000 strGob (c1\<lparr>clNet := u\<rparr>, []) (c1\<lparr>clNet := v\<rparr>, [])"
      using cluster_step.carry [of strGob "c1\<lparr>clNet := u\<rparr>" v noMethods echoMethods 1000 "[]"] step.hyps(2) by simp
    then show ?case using step.IH by simp
  qed simp
  from converse_rtranclp_into_rtranclp [OF call this [OF s(1)]]
  have run: "(cluster_step noMethods echoMethods 1000 strGob)\<^sup>*\<^sup>* (c1, []) (c1\<lparr>clNet := s\<rparr>, [])" .
  have "\<exists>m. finds (servicesOf noMethods echoMethods 0) (rqSvcMeth (clReq (rpcCalls s ! 0))) m"
    using cluster_calls_exactly_once [OF strGob_ok _ boot] run s(2,3) c1(3) by fastforce
  then show ?thesis using boot run s(3) by fastforce
qed

text \<open>
  C40: \<open>Shutdown\<close> kills every server that is running and closes the network, and a second \<open>Shutdown\<close> of the same cluster panics: the network stays set and its channel is closed again.
\<close>

theorem second_shutdown_panics:
  assumes "Shutdown c = Some (stopped, c')"
  shows "(\<forall>kv \<in> set stopped. KVKilled kv) \<and> length stopped = length (filter (\<lambda>kv. kv \<noteq> None) (clKv c)) \<and> netDone (rpcNet (clNet c')) \<and> Shutdown c' = None"
proof -
  let ?kill = "\<lambda>kv. case kv of None \<Rightarrow> [] | Some kv \<Rightarrow> [KVKill kv]"
  have c: "stopped = concat (map ?kill (clKv c))" "netDone (rpcNet (clNet c'))"
    using assms by (auto simp: Shutdown_def bind_Some_iff Cleanup_def Let_def split: if_splits)
  have "length (concat (map ?kill kvs)) = length (filter (\<lambda>kv. kv \<noteq> None) kvs)" for kvs by (induction kvs) (auto split: option.splits)
  moreover have "Shutdown c' = None" using c(2) by (simp add: Shutdown_def Cleanup_def)
  ultimately show ?thesis using c by (auto simp: KVKilled_def KVKill_def split: option.splits)
qed

theorem second_shutdown_panics_witness:
  "\<exists>stopped c'. Shutdown (emptyCluster 1 [''a''] :: string Cluster) = Some (stopped, c') \<and> Shutdown c' = None"
proof -
  obtain stopped and c' :: "string Cluster" where s: "Shutdown (emptyCluster 1 [''a'']) = Some (stopped, c')"
    by (auto simp: Shutdown_def Cleanup_def emptyCluster_def startNetwork_def MakeNetwork_def Let_def)
  from second_shutdown_panics [OF s] s show ?thesis by blast
qed

section \<open>The encoder's checks\<close>

text \<open>
  C33: The check of a type ends, also for recursive types, and complains once. It visits every type the value is made of, prints one complaint for every lower-case field of the types it had not seen, and any later check of
  one of these types changes nothing.
\<close>

theorem type_check_complains_once:
  assumes "tableOk tt" and "t < length tt" and "closedUnder tt (checked st)"
  shows "\<exists>st'. checkValue tt t st = Some st' \<and>
    errorCount st' = errorCount st + int (\<Sum>u \<in> checked st' - checked st. lowerFields (tt ! u)) \<and>
    (\<forall>u. (t, u) \<in> (partRel tt)\<^sup>* \<longrightarrow> u \<in> checked st' \<and> checkValue tt u st' = Some st')"
proof -
  obtain st' where "checkValue tt t st = Some st'" "visits tt st st' {t} 0"
      "\<And>u. (t, u) \<in> (partRel tt)\<^sup>* \<Longrightarrow> u \<in> checked st' \<and> checkValue tt u st' = Some st'"
    by (rule checkType_spec [OF assms]) blast
  then show ?thesis by (auto simp: visits_def)
qed

text \<open>A recursive type with a lower-case field.\<close>

definition listTypes :: "goType list" where
  "listTypes = [TStruct ''List'' [(''Head'', 1), (''next'', 2)], TOther, TPtr 0]"

theorem type_check_complains_once_witness:
  "\<exists>st'. checkValue listTypes 0 \<lparr>errorCount = 0, checked = {}, printed = []\<rparr> = Some st' \<and> 2 \<in> checked st' \<and> checkValue listTypes 2 st' = Some st'"
proof -
  have "(0, 2) \<in> (partRel listTypes)\<^sup>*" by (rule r_into_rtrancl) (simp add: partRel_def listTypes_def)
  moreover have "tableOk listTypes" "closedUnder listTypes {}" by (simp_all add: tableOk_def listTypes_def closedUnder_def)
  ultimately show ?thesis
    using type_check_complains_once [of listTypes 0 "\<lparr>errorCount = 0, checked = {}, printed = []\<rparr>"] by (auto simp: listTypes_def)
qed

end
