(* ===== verification/Spec2Isabelle.thy ===== *)
theory Spec2Isabelle
  imports Raft_Theorems KV_Theorems Control_Theorems Data_Theorems Porcupine_Theorems Network_Theorems
begin

text \<open>
  A verification of AiFS, an inference front end over a replicated key/value store, all in Go under \<open>src/\<close>.

  \<^bold>\<open>The program.\<close> A client posts a chat request to the gateway (\<open>gateway/gateway.go\<close>). The gateway asks the controller (\<open>controlplane/controller/controller.go\<close>) for the least
  loaded worker and forwards the prompt to it. A worker (\<open>worker/pool.go\<close>, \<open>server.go\<close>, \<open>backend.go\<close>) queues the prompt for one of its GPU loops. The controller keeps the
  workers in a key/value store, which it reaches over HTTP (\<open>controlplane/kvclient/client.go\<close>, \<open>kvraft/http.go\<close>). The store (\<open>kvraft/server.go\<close>) is replicated by Raft
  (\<open>raft/raft.go\<close>, \<open>raft/persister.go\<close>), whose peers run in one process (\<open>kvraft/runtime/cluster.go\<close>) and call each other over a simulated network (\<open>labrpc/labrpc.go\<close>, with the
  encoder's checks in \<open>labgob/labgob.go\<close>). Clerks (\<open>kvraft/client.go\<close>) use the store over the same network. Histories of the store are checked for linearizability (\<open>porcupine/\<close>, \<open>models/kv.go\<close>).

  \<^bold>\<open>How code becomes definitions.\<close> A record of the code is a \<open>record\<close>, an enumeration a \<open>datatype\<close>. A definition is one critical section, channel operation, handler or helper of the code, under the code's
  name where that is free. State is passed explicitly. A panic or the end of the process is \<open>None\<close>, an error an \<open>Inl\<close> or an \<open>option\<close> as the code returns it. Goroutines are the steps of a step relation, so that any
  interleaving of critical sections is a run. Pointers are positions in a list. Go's \<open>int\<close> is \<open>int\<close>; words are used for bit sets, for the task counter of a pool and for the counters of the network. Time, random numbers, HTTP exchanges, JSON and
  \<open>encoding/gob\<close> are arguments; where a theorem needs a law of theirs (decoding gives back what was encoded), the law is a hypothesis.

  \<^bold>\<open>Theories.\<close>
  \<^item> \<open>Go_Prelude\<close>, \<open>Go_Stdlib\<close>, \<open>Go_Pipeline\<close>: slices, panics, strings and numbers; majorities (locale \<open>quorum_system\<close>); retries round the servers (locale \<open>round_robin\<close>); channels, and why a pipeline of goroutines comes to rest (locale \<open>draining\<close>).
  \<^item> \<open>Persister\<close>, \<open>Raft_Node\<close>: \<open>persister.go\<close> and the critical sections of \<open>raft.go\<close>. \<open>Raft_Invariants\<close> and \<open>Raft_Promises\<close> have the invariant of a peer, what it promises and what survives a crash (locale \<open>stable_storage\<close>). \<open>Raft_Cluster\<close> runs the peers with lost and
    reordered messages, crashes and restarts; \<open>Raft_Election\<close> and \<open>Raft_Log\<close> prove election safety and log matching over whole executions, \<open>Raft_Scenarios\<close> plays concrete executions, \<open>Raft_Theorems\<close> states the properties.
  \<^item> \<open>KV_Server\<close>, \<open>KV_Apply\<close>, \<open>KV_Delivery\<close>, \<open>KV_Http\<close>, \<open>KV_Theorems\<close>: \<open>server.go\<close>, \<open>common.go\<close>, \<open>http.go\<close>. The applier refines a replicated machine that applies every request once (locale \<open>replicated_machine\<close>); snapshots move replicas forward. \<open>KV_Delivery\<close> runs a server together with its peer and the goroutines on \<open>applyCh\<close> (\<open>server_step\<close>) and shows why notifications never block.
  \<^item> \<open>KV_Clerk\<close>, \<open>KV_Client\<close>, \<open>KV_Stack\<close>: \<open>kvraft/client.go\<close> and \<open>kvclient\<close>. Both clients are instances of \<open>round_robin\<close> and \<open>retry_loop\<close>; the stack from the HTTP client down to the store meets the contract \<open>kv_backend\<close> that the control plane relies on.
  \<^item> \<open>Models\<close>, \<open>Controller\<close>, \<open>Controller_Facts\<close>, \<open>Control_Theorems\<close>: \<open>models/\<close> and the controller, proved over any backend with that contract; \<open>ctl_step\<close> is the life of a controller while one worker is silent.
  \<^item> \<open>Worker\<close>, \<open>Worker_Facts\<close>, \<open>Gateway\<close>, \<open>Gateway_Facts\<close>, \<open>Data_Theorems\<close>: the pool and the two layers of the gateway as step relations, with invariants (an answer belongs to its own request; result channels never block) and instances of \<open>draining\<close>.
  \<^item> \<open>Labrpc\<close>, \<open>Labrpc_Facts\<close>, \<open>Runtime_Cluster\<close>, \<open>Labgob\<close>, \<open>Network_Theorems\<close>: the network, the cluster on it and the encoder's checks. A call is executed at most once, by the method it names, which is what \<open>Raft_Cluster\<close> assumes of the network. \<open>cluster_step\<close> interleaves the single operations of \<open>NewCluster\<close> with the calls of the peers that run already and with \<open>Shutdown\<close>; a call made once the cluster has started is lost only if the network is closed.
  \<^item> \<open>Bitset\<close>, \<open>Porcupine\<close>, \<open>Porcupine_List\<close>, \<open>Memo_Search\<close>, \<open>Porcupine_Search\<close>, \<open>Porcupine_Loop\<close>, \<open>Porcupine_Check\<close>, \<open>Porcupine_Notes\<close>, \<open>KV_Model\<close>, \<open>Visualization\<close>, \<open>Porcupine_Theorems\<close>: the checker on a heap of linked nodes. The search is an instance of \<open>memo_search\<close>; it
    returns and decides linearizability, partition by partition, and what it notes on the way can be drawn.
  \<^item> This theory: the properties that span services.

  \<^bold>\<open>What is shown to go wrong.\<close> Some theorems exhibit behaviour the code should not have: committed commands that diverge, a goroutine that panics after a step down, a retry applied twice when requests are
  reordered, a write dropped behind the HTTP front, a read that is overtaken, workers that never expire after a restart of the controller, a second \<open>Shutdown\<close> that panics.

  \<^bold>\<open>Bounds and fuel.\<close> \<open>checkType\<close> has fuel, one more than there are types, and \<open>checkType_spec\<close> shows this is enough. The retry loops of the clients take the number of attempts to look at; the liveness theorems say how many are
  enough. \<open>checkLoop\<close> and \<open>nodeLength\<close> are partial functions, and a theorem of \<open>Porcupine_Theorems\<close> shows that the search with them returns. Queue capacities are those of the code.

  \<^bold>\<open>Not modelled.\<close> The mains under \<open>cmd/\<close> and the functions \<open>StartHTTPServer\<close>, which wire flags, signals and \<open>net/http\<close>; \<open>internal/logx\<close> and \<open>raft/util.go\<close>, which print; the test harnesses \<open>raft/config.go\<close> and \<open>kvraft/config.go\<close>, which
  drive what is modelled from tests; the page of HTML and JavaScript in \<open>porcupine/visualization.go\<close> with the two functions that write it; Go's memory model (data races) below the level of critical sections.
\<close>

section \<open>The services together\<close>

text \<open>
  What the gateway gets from the controller over HTTP: the handler's answer in the controller's present state, with its JSON encoding.
  An unanswered request (the handler panics) is an error of the client.
\<close>

definition ctlResponse :: "codec \<Rightarrow> ctl_out \<Rightarrow> httpResp" where
  "ctlResponse J out = (case out of
     CtlError err code \<Rightarrow> \<lparr>respCode = code, respStatus = '''', respBody = Some err\<rparr>
   | CtlNotFound \<Rightarrow> \<lparr>respCode = 404, respStatus = ''404 Not Found'', respBody = Some ''404 page not found''\<rparr>
   | CtlStatus st wid \<Rightarrow> \<lparr>respCode = 200, respStatus = ''200 OK'', respBody = Some st\<rparr>
   | CtlWorker w \<Rightarrow> \<lparr>respCode = 200, respStatus = ''200 OK'', respBody = marshalWorker J w\<rparr>
   | CtlWorkers ws \<Rightarrow> \<lparr>respCode = 200, respStatus = ''200 OK'', respBody = Some ''''\<rparr>)"

definition controllerGet :: "codec \<Rightarrow> 'w transport \<Rightarrow> int \<Rightarrow> string \<Rightarrow> Controller \<times> 'w \<Rightarrow> string \<Rightarrow> httpResult" where
  "controllerGet J post now base s url =
    (case CtlServeHTTP J post now ''GET'' (drop (length base) url) None s of
       None \<Rightarrow> Inl ''EOF''
     | Some (out, s') \<Rightarrow> Inr (ctlResponse J out))"

text \<open>
  C8: A worker that registers with the controller over HTTP with a status other than offline can be reached by the gateway: once the registration was answered
  with \<open>registered\<close>, the gateway's \<open>pickWorker\<close>, through the controller, its key/value client, the HTTP front of the
  key/value server and the Raft leader behind it, returns a worker whose load is at most that of the new one. The server is a leader that commits what it starts, and JSON restores the records it wrote.
\<close>

theorem gateway_finds_registered_worker:
  assumes "stackInv (ctlKv c, kv)" and "addrs (ctlKv c) \<noteq> []"
    and "decodeWorker J body = Inr info" and "wStatus info \<noteq> WorkerOffline"
    and "CtlServeHTTP J (serve sz) now ''POST'' ''/workers/register'' body (c, kv) = Some (CtlStatus ''registered'' wid, s1)"
    and "\<And>w d. marshalWorker J w = Some d \<Longrightarrow> d \<noteq> '''' \<and> unmarshalWorker J d = Some w"
    and "\<And>w d. unmarshalWorker J d = Some w \<Longrightarrow> marshalWorker J w \<noteq> None"
    and "\<And>xs. set (keyOrder J xs) = set xs"
  shows "\<exists>best. pickWorker (controllerGet J (serve sz) now' base s1) (unmarshalWorker J) base = Inr best \<and>
    workerLoadScore best \<le> workerLoadScore info"
proof -
  have reg: "RegisterWorker J (serve sz) now info (c, kv) = Some (None, s1)"
    using assms(3,5) by (auto simp: CtlServeHTTP_def handleRegister_def bind_Some_iff split: option.splits)
  have id: "EnsureID info = info" using assms(3) by (auto simp: decodeWorker_def Let_def split: option.splits if_splits)
  have "\<exists>best s2. PickBestWorker J (serve sz) s1 = Some (Inr best, s2) \<and> workerLoadScore best \<le> workerLoadScore (EnsureID info)"
    by (rule liveStack.registered_can_be_picked [OF _ _ reg assms(6,8,4)]) (use assms(1,2) in simp_all)
  then obtain best s2 where best: "PickBestWorker J (serve sz) s1 = Some (Inr best, s2)" "workerLoadScore best \<le> workerLoadScore info"
    unfolding id by blast
  obtain d where "marshalWorker J best = Some d" "unmarshalWorker J d = Some best"
    using PickBestWorker_decoded [OF best(1)] assms(6,7) by blast
  then have "pickWorker (controllerGet J (serve sz) now' base s1) (unmarshalWorker J) base = Inr best"
    using best(1) by (simp add: pickWorker_def controllerGet_def ctlResponse_def CtlServeHTTP_def handleBest_def)
  then show ?thesis using best(2) by blast
qed

definition oneWorkerCodec :: codec where
  "oneWorkerCodec = someCodec\<lparr>marshalWorker := \<lambda>w. if w = EnsureID someWorker then Some ''w'' else None\<rparr>"

theorem gateway_finds_registered_worker_witness:
  "\<exists>s1 best. CtlServeHTTP oneWorkerCodec (serve (\<lambda>_. 0)) 0 ''POST'' ''/workers/register'' (Some ''w'') (someController, leaderServer) =
       Some (CtlStatus ''registered'' (wID (EnsureID someWorker)), s1) \<and>
     pickWorker (controllerGet oneWorkerCodec (serve (\<lambda>_. 0)) 1 ''http://c'' s1) (unmarshalWorker oneWorkerCodec) ''http://c'' = Inr best"
proof -
  let ?J = oneWorkerCodec and ?w = "EnsureID someWorker"
  have dec: "decodeWorker ?J (Some ''w'') = Inr ?w"
    by (simp add: decodeWorker_def oneWorkerCodec_def someCodec_def) (simp add: someWorker_def EnsureID_def WorkerIdle_def)
  obtain s1 where "RegisterWorker ?J (serve (\<lambda>_. 0)) 0 ?w (someController, leaderServer) = Some (None, s1)"
    using registration_succeeds [of ?J ?w "''w''" "''i''" "\<lambda>_. 0" 0] by (auto simp: oneWorkerCodec_def someCodec_def)
  then have reg: "CtlServeHTTP ?J (serve (\<lambda>_. 0)) 0 ''POST'' ''/workers/register'' (Some ''w'') (someController, leaderServer) =
      Some (CtlStatus ''registered'' (wID ?w), s1)"
    using dec by (simp add: CtlServeHTTP_def handleRegister_def)
  have inv: "stackInv (ctlKv someController, leaderServer)" "addrs (ctlKv someController) \<noteq> []" "wStatus ?w \<noteq> WorkerOffline"
    using some_stackInv some_addrs by (simp_all add: someController_def someWorker_def status_defs)
  have "\<exists>best. pickWorker (controllerGet ?J (serve (\<lambda>_. 0)) 1 ''http://c'' s1) (unmarshalWorker ?J) ''http://c'' = Inr best \<and>
      workerLoadScore best \<le> workerLoadScore ?w"
    by (rule gateway_finds_registered_worker [OF inv(1,2) dec inv(3) reg])
      (auto simp: oneWorkerCodec_def someCodec_def split: if_splits)
  then show ?thesis using reg by blast
qed

text \<open>
  What the gateway gets from a worker over HTTP: the reply of a call of \<open>Submit\<close> in some run of the worker's pool, on the prompt the worker
  reads from the request.
\<close>

definition workerAnswers :: "(string \<Rightarrow> ChatResponse \<times> string option \<Rightarrow> bool) \<Rightarrow> ChatRequest \<Rightarrow> ChatResponse \<Rightarrow> bool" where
  "workerAnswers gen req out \<longleftrightarrow> (\<exists>wid n p h r. (pool_step gen)\<^sup>*\<^sup>* (NewPool wid n) p \<and> h < length (tasks p) \<and>
     workerServe Some ''POST'' ''/v1/chat/completions'' (Some req) = Inr (taskPrompt (tasks p ! h)) \<and>
     taskStatus (tasks p ! h) = Finished r \<and> workerReply r = ChatOK out)"

lemma forwarded_prompt:
  "workerServe Some ''POST'' ''/v1/chat/completions'' (Some (promptRequest prompt)) = Inr prompt' \<Longrightarrow> prompt' = prompt"
  by (auto simp: workerServe_def workerChat_def promptFromRequest_def promptRequest_def Let_def split: if_splits)

lemma pool_answer:
  assumes "workerAnswers gen (promptRequest prompt) out"
  shows "\<exists>resp wid g. gen prompt (resp, None) \<and> out = fillResponse wid g resp"
proof -
  obtain wid n p h r where p: "(pool_step gen)\<^sup>*\<^sup>* (NewPool wid n) p" "h < length (tasks p)" "taskPrompt (tasks p ! h) = prompt"
    "taskStatus (tasks p ! h) = Finished r" "workerReply r = ChatOK out"
    using assms forwarded_prompt unfolding workerAnswers_def by metis
  have "trErr r = None" "trResponse r = out" using p(5) by (auto simp: workerReply_def split: option.splits)
  then show ?thesis
    using poolInv_D(8) [OF poolInv_reach [OF p(1)] p(2)] p(3,4) by (fastforce simp: taskOk_def ownResult_def)
qed

text \<open>
  C7: From the client to the GPU and back: if every 200 answer the gateway can get is the encoding of what a worker's pool answered to
  the request (in any interleaving with other calls), then in every reachable state of the gateway a client with a 200 answer has the reply
  that the backend generated for the prompt of this client, with the id of a worker and the number of a GPU filled in.
\<close>

theorem client_to_gpu_and_back:
  assumes "(gateway_step gets U posts V)\<^sup>*\<^sup>* (NewGateway url m n) g"
    and "h < length (jobs g)" and "jobStatus (jobs g ! h) = JobDone (ChatOK resp)"
    and "\<And>post u req r. post \<in> posts \<Longrightarrow> post u req = Inr r \<Longrightarrow> respCode r = 200 \<Longrightarrow>
      \<exists>raw out. respBody r = Some raw \<and> V raw = Some out \<and> workerAnswers gen req out"
  shows "\<exists>out wid gpu. gen (jobPrompt (jobs g ! h)) (out, None) \<and> resp = fillResponse wid gpu out"
proof -
  obtain post w where post: "post \<in> posts" "forwardToWorker post V w (jobPrompt (jobs g ! h)) = Inr resp"
    using gwInv_D(8) [OF gwInv_reach [OF assms(1)] assms(2)] assms(3) by (auto simp: jobOk_def outOk_def ownReply_def)
  then obtain r raw where r: "post (workerURL w) (promptRequest (jobPrompt (jobs g ! h))) = Inr r" "respCode r = 200"
    "respBody r = Some raw" "V raw = Some resp"
    by (auto simp: forwardToWorker_def split: sum.splits if_splits option.splits)
  then have "workerAnswers gen (promptRequest (jobPrompt (jobs g ! h))) resp"
    using assms(4) [OF post(1) r(1,2)] by auto
  then show ?thesis using pool_answer by blast
qed

theorem client_to_gpu_and_back_witness:
  "\<exists>out wid gpu. mockGen ''hi'' (out, None) \<and> exReply = fillResponse wid gpu out"
proof -
  have "workerAnswers mockGen (promptRequest ''hi'') exReply"
    unfolding workerAnswers_def
    by (intro exI [of _ "''w''"] exI [of _ "1 :: int"] exI [of _ "exPool [] None None (Finished exAnswer)"] exI [of _ "0 :: nat"] exI [of _ exAnswer])
      (simp add: exPool_run, simp add: exPool_def exTask_def exAnswer_def exReply_def workerServe_def workerChat_def promptFromRequest_def
        promptRequest_def workerReply_def)
  then have "\<exists>out wid gpu. mockGen (jobPrompt (jobs (exGw [] [] ConnIdle None None (JobDone (ChatOK exReply))) ! 0)) (out, None) \<and>
      exReply = fillResponse wid gpu out"
    by (intro client_to_gpu_and_back [OF exGw_run]) (auto simp: exGw_def exPost_def exDecode_def exReply_def split: if_splits)
  then show ?thesis by (simp add: exGw_def)
qed
end
